theory Spec2Isabelle
  imports Main
begin

section \<open>Library functions used by the program\<close>

text \<open>
  The program is one C++ file, \<^verbatim>\<open>src/main.cpp\<close>: a lexer, a recursive-descent
  parser building an expression tree, and a visitor that lowers the tree to the lines
  of a register IR. Exceptions and undefined behaviour are values of the type
  \<open>error\<close>; every fallible function returns \<open>error + 'a\<close>, with \<open>Inl\<close> for the
  failure.
\<close>

datatype error =
    invalid_argument string    \<comment> \<open>\<^verbatim>\<open>std::invalid_argument\<close>, with its message\<close>
  | runtime_error string       \<comment> \<open>\<^verbatim>\<open>std::runtime_error\<close>, with its message\<close>
  | out_of_range string        \<comment> \<open>\<^verbatim>\<open>std::out_of_range\<close>, with its message\<close>
  | assertion_failure          \<comment> \<open>a failed \<^verbatim>\<open>assert\<close>\<close>
  | undefined_behaviour        \<comment> \<open>\<^verbatim>\<open>back()\<close> of an empty vector, signed overflow, an empty optional read\<close>

text \<open>
  The character classes of \<^verbatim>\<open><cctype>\<close> in the "C" locale. A byte outside ASCII
  is in none of the classes.
\<close>

definition isspace :: "char \<Rightarrow> bool" where
  "isspace c \<longleftrightarrow> c \<in> set [CHR '' '', CHR 0x09, CHR 0x0A, CHR 0x0B, CHR 0x0C, CHR 0x0D]"

definition isdigit :: "char \<Rightarrow> bool" where
  "isdigit c \<longleftrightarrow> c \<in> set ''0123456789''"

definition isalpha :: "char \<Rightarrow> bool" where
  "isalpha c \<longleftrightarrow> c \<in> set ''abcdefghijklmnopqrstuvwxyzABCDEFGHIJKLMNOPQRSTUVWXYZ''"

definition isalnum :: "char \<Rightarrow> bool" where
  "isalnum c \<longleftrightarrow> isalpha c \<or> isdigit c"

text \<open>\<^verbatim>\<open>std::to_string\<close> of an unsigned and of a signed integer: the decimal digits.\<close>

fun to_string_nat :: "nat \<Rightarrow> string" where
  "to_string_nat n =
     (if n < 10 then [''0123456789'' ! n]
      else to_string_nat (n div 10) @ [''0123456789'' ! (n mod 10)])"

declare to_string_nat.simps [simp del]

definition to_string_int :: "int \<Rightarrow> string" where
  "to_string_int i = (if i < 0 then CHR ''-'' # to_string_nat (nat (- i)) else to_string_nat (nat i))"

text \<open>
  \<^verbatim>\<open>std::to_string(double)\<close> prints with \<^verbatim>\<open>"%f"\<close>: six digits after the point.
  Every \<^verbatim>\<open>NumberAST\<close> that the parser builds holds the \<^verbatim>\<open>int\<close> returned by
  \<^verbatim>\<open>std::stoi\<close>, converted exactly to \<^verbatim>\<open>double\<close>; the model keeps that integer
  as the node's value, and an integral value prints as its digits and six zeros.
\<close>

definition to_string_double :: "int \<Rightarrow> string" where
  "to_string_double v = to_string_int v @ ''.000000''"

text \<open>
  \<^verbatim>\<open>std::stoi(str)\<close> in base 10: leading white space and one optional sign are
  skipped, the longest run of digits is converted and the rest of the text is ignored.
  It throws \<^verbatim>\<open>std::invalid_argument\<close> when there is no digit and
  \<^verbatim>\<open>std::out_of_range\<close> when the value is not an \<^verbatim>\<open>int\<close> (32 bits). The
  message \<^verbatim>\<open>"stoi"\<close> is the one of libstdc++.
\<close>

definition digit_val :: "char \<Rightarrow> int" where
  "digit_val c = of_char c - 48"

definition dec_value :: "string \<Rightarrow> int" where
  "dec_value ds = foldl (\<lambda>a c. 10 * a + digit_val c) 0 ds"

definition INT_MAX :: int where
  "INT_MAX = 2147483647"

definition INT_MIN :: int where
  "INT_MIN = - 2147483648"

definition stoi :: "string \<Rightarrow> error + int" where
  "stoi str =
     (let s1 = dropWhile isspace str;
          neg = (s1 \<noteq> [] \<and> hd s1 = CHR ''-'');
          s2 = (if s1 \<noteq> [] \<and> (hd s1 = CHR ''-'' \<or> hd s1 = CHR ''+'') then tl s1 else s1);
          ds = takeWhile isdigit s2
      in if ds = [] then Inl (invalid_argument ''stoi'')
         else let v = (if neg then - dec_value ds else dec_value ds)
              in if v < INT_MIN \<or> INT_MAX < v then Inl (out_of_range ''stoi'') else Inr v)"

section \<open>The lexer\<close>

datatype TokenType =
  Number | Identifier | Plus | Minus | Mul | Div | LeftParen | RightParen | EndOfFile

text \<open>\<^verbatim>\<open>struct Token { Type type; std::optional<std::string> value; }\<close>\<close>

record Token =
  tok_type :: TokenType
  tok_value :: "string option"

text \<open>\<^verbatim>\<open>class Lexer\<close>: the text and the scan position (a \<^verbatim>\<open>size_t\<close>, never beyond the length).\<close>

record Lexer =
  m_text :: string
  m_pos :: nat

definition Lexer_new :: "string \<Rightarrow> Lexer" where
  "Lexer_new text = \<lparr>m_text = text, m_pos = 0\<rparr>"

function SkipWhitespaces :: "Lexer \<Rightarrow> Lexer" where
  "SkipWhitespaces lx =
     (if m_pos lx < length (m_text lx) \<and> isspace (m_text lx ! m_pos lx)
      then SkipWhitespaces (lx\<lparr>m_pos := m_pos lx + 1\<rparr>)
      else lx)"
  by pat_completeness auto
termination
  by (relation "measure (\<lambda>lx. length (m_text lx) - m_pos lx)") auto

declare SkipWhitespaces.simps [simp del]

text \<open>
  The loop \<^verbatim>\<open>while (m_pos < m_text.length() && std::isdigit(m_text[m_pos])) chars += m_text[m_pos++];\<close>
  of \<^verbatim>\<open>ReadAsNumberConstant\<close>, which runs it twice.
\<close>

function read_digits :: "string \<Rightarrow> Lexer \<Rightarrow> string \<times> Lexer" where
  "read_digits chars lx =
     (if m_pos lx < length (m_text lx) \<and> isdigit (m_text lx ! m_pos lx)
      then read_digits (chars @ [m_text lx ! m_pos lx]) (lx\<lparr>m_pos := m_pos lx + 1\<rparr>)
      else (chars, lx))"
  by pat_completeness auto
termination
  by (relation "measure (\<lambda>(chars, lx). length (m_text lx) - m_pos lx)") auto

declare read_digits.simps [simp del]

definition ReadAsNumberConstant :: "Lexer \<Rightarrow> error + (Token \<times> Lexer)" where
  "ReadAsNumberConstant lx =
     (if \<not> m_pos lx < length (m_text lx) then Inl assertion_failure
      else if \<not> isdigit (m_text lx ! m_pos lx) then Inl assertion_failure
      else
        (case read_digits [] lx of (chars, lx1) \<Rightarrow>
           if m_pos lx1 < length (m_text lx1) \<and> m_text lx1 ! m_pos lx1 = CHR ''.''
           then (case read_digits (chars @ [m_text lx1 ! m_pos lx1]) (lx1\<lparr>m_pos := m_pos lx1 + 1\<rparr>) of
                   (chars2, lx2) \<Rightarrow> Inr (\<lparr>tok_type = Number, tok_value = Some chars2\<rparr>, lx2))
           else Inr (\<lparr>tok_type = Number, tok_value = Some chars\<rparr>, lx1)))"

text \<open>
  The loop \<^verbatim>\<open>while (m_pos < m_text.length() && (std::isalnum(m_text[m_pos]) || m_text[m_pos] == '_'))\<close>
  of \<^verbatim>\<open>ReadAsIdentifier\<close>.
\<close>

function read_ident_chars :: "string \<Rightarrow> Lexer \<Rightarrow> string \<times> Lexer" where
  "read_ident_chars chars lx =
     (if m_pos lx < length (m_text lx) \<and>
         (isalnum (m_text lx ! m_pos lx) \<or> m_text lx ! m_pos lx = CHR ''_'')
      then read_ident_chars (chars @ [m_text lx ! m_pos lx]) (lx\<lparr>m_pos := m_pos lx + 1\<rparr>)
      else (chars, lx))"
  by pat_completeness auto
termination
  by (relation "measure (\<lambda>(chars, lx). length (m_text lx) - m_pos lx)") auto

declare read_ident_chars.simps [simp del]

definition ReadAsIdentifier :: "Lexer \<Rightarrow> error + (Token \<times> Lexer)" where
  "ReadAsIdentifier lx =
     (if \<not> m_pos lx < length (m_text lx) then Inl assertion_failure
      else if \<not> (isalpha (m_text lx ! m_pos lx) \<or> m_text lx ! m_pos lx = CHR ''_'')
      then Inl assertion_failure
      else
        (case read_ident_chars [] lx of (chars, lx1) \<Rightarrow>
           Inr (\<lparr>tok_type = Identifier, tok_value = Some chars\<rparr>, lx1)))"

text \<open>The token \<^verbatim>\<open>{ type }\<close>, with no text, after one character.\<close>

definition single_char_token :: "TokenType \<Rightarrow> Lexer \<Rightarrow> error + (Token \<times> Lexer)" where
  "single_char_token ty lx =
     Inr (\<lparr>tok_type = ty, tok_value = None\<rparr>, lx\<lparr>m_pos := m_pos lx + 1\<rparr>)"

text \<open>The message of the exception that \<^verbatim>\<open>GetNextToken\<close> throws at a character it does not know.\<close>

definition lex_error_message :: "nat \<Rightarrow> char \<Rightarrow> string" where
  "lex_error_message pos ch =
     ''can't parse character at pos '' @ to_string_nat pos @ '': '' @ [CHR 0x27] @ [ch] @ [CHR 0x27]"

lemma SkipWhitespaces_text [simp]: "m_text (SkipWhitespaces lx) = m_text lx"
proof (induction lx rule: SkipWhitespaces.induct)
  case (1 lx)
  then show ?case
    by (subst SkipWhitespaces.simps) simp
qed

lemma SkipWhitespaces_pos_ge: "m_pos lx \<le> m_pos (SkipWhitespaces lx)"
proof (induction lx rule: SkipWhitespaces.induct)
  case (1 lx)
  show ?case
  proof (cases "m_pos lx < length (m_text lx) \<and> isspace (m_text lx ! m_pos lx)")
    case True
    with "1.IH" have "m_pos lx + 1 \<le> m_pos (SkipWhitespaces (lx\<lparr>m_pos := m_pos lx + 1\<rparr>))"
      by simp
    with True show ?thesis by (subst SkipWhitespaces.simps) simp
  next
    case False
    then show ?thesis by (subst SkipWhitespaces.simps) auto
  qed
qed

lemma SkipWhitespaces_pos_gt:
  assumes "m_pos lx < length (m_text lx)" and "isspace (m_text lx ! m_pos lx)"
  shows "m_pos lx < m_pos (SkipWhitespaces lx)"
proof -
  have "m_pos lx + 1 \<le> m_pos (SkipWhitespaces (lx\<lparr>m_pos := m_pos lx + 1\<rparr>))"
    using SkipWhitespaces_pos_ge [of "lx\<lparr>m_pos := m_pos lx + 1\<rparr>"] by simp
  with assms show ?thesis by (subst SkipWhitespaces.simps) simp
qed

function GetNextToken :: "Lexer \<Rightarrow> error + (Token \<times> Lexer)" where
  "GetNextToken lx =
     (if m_pos lx < length (m_text lx) then
        (let ch = m_text lx ! m_pos lx in
         if isspace ch then GetNextToken (SkipWhitespaces lx)
         else if isdigit ch then ReadAsNumberConstant lx
         else if isalpha ch then ReadAsIdentifier lx
         else if ch = CHR ''+'' then single_char_token Plus lx
         else if ch = CHR ''-'' then single_char_token Minus lx
         else if ch = CHR ''*'' then single_char_token Mul lx
         else if ch = CHR ''/'' then single_char_token Div lx
         else if ch = CHR ''('' then single_char_token LeftParen lx
         else if ch = CHR '')'' then single_char_token RightParen lx
         else Inl (invalid_argument (lex_error_message (m_pos lx) (m_text lx ! m_pos lx))))
      else Inr (\<lparr>tok_type = EndOfFile, tok_value = None\<rparr>, lx))"
  by pat_completeness auto
termination
proof (relation "measure (\<lambda>lx. length (m_text lx) - m_pos lx)")
  show "wf (measure (\<lambda>lx. length (m_text lx) - m_pos lx))" by simp
next
  fix lx :: Lexer and ch :: char
  assume "m_pos lx < length (m_text lx)" and "ch = m_text lx ! m_pos lx" and "isspace ch"
  then have "m_pos lx < m_pos (SkipWhitespaces lx)"
    using SkipWhitespaces_pos_gt by simp
  with \<open>m_pos lx < length (m_text lx)\<close>
  show "(SkipWhitespaces lx, lx) \<in> measure (\<lambda>lx. length (m_text lx) - m_pos lx)"
    by simp
qed

declare GetNextToken.simps [simp del]

lemma read_digits_props:
  "read_digits chars lx = (chars', lx') \<Longrightarrow>
     m_text lx' = m_text lx \<and> m_pos lx \<le> m_pos lx' \<and>
     (m_pos lx \<le> length (m_text lx) \<longrightarrow> m_pos lx' \<le> length (m_text lx))"
proof (induction chars lx arbitrary: chars' lx' rule: read_digits.induct)
  case (1 chars lx)
  show ?case
  proof (cases "m_pos lx < length (m_text lx) \<and> isdigit (m_text lx ! m_pos lx)")
    case True
    with "1.prems" have
      "read_digits (chars @ [m_text lx ! m_pos lx]) (lx\<lparr>m_pos := m_pos lx + 1\<rparr>) = (chars', lx')"
      by (subst (asm) read_digits.simps) simp
    from "1.IH" [OF True this] True show ?thesis by simp
  next
    case False
    with "1.prems" have "lx' = lx"
      by (subst (asm) read_digits.simps) auto
    then show ?thesis by simp
  qed
qed

lemma read_ident_chars_props:
  "read_ident_chars chars lx = (chars', lx') \<Longrightarrow>
     m_text lx' = m_text lx \<and> m_pos lx \<le> m_pos lx' \<and>
     (m_pos lx \<le> length (m_text lx) \<longrightarrow> m_pos lx' \<le> length (m_text lx))"
proof (induction chars lx arbitrary: chars' lx' rule: read_ident_chars.induct)
  case (1 chars lx)
  show ?case
  proof (cases "m_pos lx < length (m_text lx) \<and>
      (isalnum (m_text lx ! m_pos lx) \<or> m_text lx ! m_pos lx = CHR ''_'')")
    case True
    with "1.prems" have
      "read_ident_chars (chars @ [m_text lx ! m_pos lx]) (lx\<lparr>m_pos := m_pos lx + 1\<rparr>) = (chars', lx')"
      by (subst (asm) read_ident_chars.simps) simp
    from "1.IH" [OF True this] True show ?thesis by simp
  next
    case False
    with "1.prems" have "lx' = lx"
      by (subst (asm) read_ident_chars.simps) auto
    then show ?thesis by simp
  qed
qed

lemma read_digits_progress:
  assumes "m_pos lx < length (m_text lx)" and "isdigit (m_text lx ! m_pos lx)"
    and "read_digits chars lx = (chars', lx')"
  shows "m_pos lx < m_pos lx'"
proof -
  from assms have
    "read_digits (chars @ [m_text lx ! m_pos lx]) (lx\<lparr>m_pos := m_pos lx + 1\<rparr>) = (chars', lx')"
    by (subst (asm) read_digits.simps) simp
  from read_digits_props [OF this] show ?thesis by simp
qed

lemma read_ident_chars_progress:
  assumes "m_pos lx < length (m_text lx)" and "isalpha (m_text lx ! m_pos lx)"
    and "read_ident_chars chars lx = (chars', lx')"
  shows "m_pos lx < m_pos lx'"
proof -
  from assms have
    "read_ident_chars (chars @ [m_text lx ! m_pos lx]) (lx\<lparr>m_pos := m_pos lx + 1\<rparr>) = (chars', lx')"
    by (subst (asm) read_ident_chars.simps) (simp add: isalnum_def)
  from read_ident_chars_props [OF this] show ?thesis by simp
qed

lemma ReadAsNumberConstant_props:
  assumes "ReadAsNumberConstant lx = Inr (t, lx')"
  shows "m_text lx' = m_text lx \<and> m_pos lx < m_pos lx' \<and> m_pos lx' \<le> length (m_text lx) \<and>
         tok_type t = Number"
proof -
  from assms have lt: "m_pos lx < length (m_text lx)" and dg: "isdigit (m_text lx ! m_pos lx)"
    by (auto simp: ReadAsNumberConstant_def split: if_splits)
  obtain chars lx1 where r1: "read_digits [] lx = (chars, lx1)"
    by (cases "read_digits [] lx") auto
  from read_digits_props [OF r1] read_digits_progress [OF lt dg r1] lt
  have p1: "m_text lx1 = m_text lx" "m_pos lx < m_pos lx1" "m_pos lx1 \<le> length (m_text lx)"
    by auto
  show ?thesis
  proof (cases "m_pos lx1 < length (m_text lx1) \<and> m_text lx1 ! m_pos lx1 = CHR ''.''")
    case True
    obtain chars2 lx2 where r2:
      "read_digits (chars @ [m_text lx1 ! m_pos lx1]) (lx1\<lparr>m_pos := m_pos lx1 + 1\<rparr>) = (chars2, lx2)"
      by (cases "read_digits (chars @ [m_text lx1 ! m_pos lx1]) (lx1\<lparr>m_pos := m_pos lx1 + 1\<rparr>)") auto
    from assms lt dg r1 True r2 have "t = \<lparr>tok_type = Number, tok_value = Some chars2\<rparr>" "lx' = lx2"
      by (auto simp: ReadAsNumberConstant_def)
    with read_digits_props [OF r2] p1 True show ?thesis by auto
  next
    case False
    with assms lt dg r1 have "t = \<lparr>tok_type = Number, tok_value = Some chars\<rparr>" "lx' = lx1"
      by (auto simp: ReadAsNumberConstant_def)
    with p1 show ?thesis by auto
  qed
qed

lemma ReadAsIdentifier_props:
  assumes "ReadAsIdentifier lx = Inr (t, lx')" and "isalpha (m_text lx ! m_pos lx)"
  shows "m_text lx' = m_text lx \<and> m_pos lx < m_pos lx' \<and> m_pos lx' \<le> length (m_text lx) \<and>
         tok_type t = Identifier"
proof -
  from assms have lt: "m_pos lx < length (m_text lx)"
    by (auto simp: ReadAsIdentifier_def split: if_splits)
  obtain chars lx1 where r1: "read_ident_chars [] lx = (chars, lx1)"
    by (cases "read_ident_chars [] lx") auto
  from assms lt r1 have "lx' = lx1" "tok_type t = Identifier"
    by (auto simp: ReadAsIdentifier_def split: if_splits)
  with read_ident_chars_props [OF r1] read_ident_chars_progress [OF lt assms(2) r1] lt
  show ?thesis by auto
qed

lemma GetNextToken_props:
  "GetNextToken lx = Inr (t, lx') \<Longrightarrow>
     m_text lx' = m_text lx \<and> m_pos lx \<le> m_pos lx' \<and>
     (tok_type t \<noteq> EndOfFile \<longrightarrow> m_pos lx < m_pos lx' \<and> m_pos lx' \<le> length (m_text lx))"
proof (induction lx arbitrary: t lx' rule: GetNextToken.induct)
  case (1 lx)
  show ?case
  proof (cases "m_pos lx < length (m_text lx)")
    case False
    with "1.prems" show ?thesis
      by (subst (asm) GetNextToken.simps) auto
  next
    case lt: True
    show ?thesis
    proof (cases "isspace (m_text lx ! m_pos lx)")
      case True
      with lt "1.prems" have "GetNextToken (SkipWhitespaces lx) = Inr (t, lx')"
        by (subst (asm) GetNextToken.simps) simp
      from "1.IH" [OF lt refl True this] SkipWhitespaces_pos_ge [of lx]
      show ?thesis by auto
    next
      case nsp: False
      show ?thesis
      proof (cases "isdigit (m_text lx ! m_pos lx)")
        case True
        with lt nsp "1.prems" have "ReadAsNumberConstant lx = Inr (t, lx')"
          by (subst (asm) GetNextToken.simps) simp
        from ReadAsNumberConstant_props [OF this] show ?thesis by simp
      next
        case ndg: False
        show ?thesis
        proof (cases "isalpha (m_text lx ! m_pos lx)")
          case True
          with lt nsp ndg "1.prems" have "ReadAsIdentifier lx = Inr (t, lx')"
            by (subst (asm) GetNextToken.simps) simp
          from ReadAsIdentifier_props [OF this True] show ?thesis by simp
        next
          case False
          with lt nsp ndg "1.prems" show ?thesis
            by (subst (asm) GetNextToken.simps)
               (auto simp: single_char_token_def Let_def split: if_splits)
        qed
      qed
    qed
  qed
qed

section \<open>The expression tree\<close>

text \<open>
  \<^verbatim>\<open>VariableRefAST\<close>, \<^verbatim>\<open>NumberAST\<close> and \<^verbatim>\<open>BinaryExpressionAST\<close>, the three
  classes derived from \<^verbatim>\<open>ExpressionAST\<close>. A binary node owns its two operands and
  keeps the operator as a \<^verbatim>\<open>char\<close>.
\<close>

datatype ExpressionAST =
    VariableRefAST string
  | NumberAST int
  | BinaryExpressionAST ExpressionAST ExpressionAST char

section \<open>The parser\<close>

text \<open>\<^verbatim>\<open>class Parser\<close>: the lexer it owns and the current token.\<close>

record Parser =
  m_lexer :: Lexer
  m_token :: Token

text \<open>The constructor reads the first token.\<close>

definition Parser_new :: "Lexer \<Rightarrow> error + Parser" where
  "Parser_new lexer =
     (case GetNextToken lexer of
        Inl e \<Rightarrow> Inl e
      | Inr (t, lx) \<Rightarrow> Inr \<lparr>m_lexer = lx, m_token = t\<rparr>)"

definition Eat :: "TokenType \<Rightarrow> Parser \<Rightarrow> error + Parser" where
  "Eat ty p =
     (if tok_type (m_token p) \<noteq> ty then Inl (runtime_error ''can't eat that token'')
      else (case GetNextToken (m_lexer p) of
              Inl e \<Rightarrow> Inl e
            | Inr (t, lx) \<Rightarrow> Inr \<lparr>m_lexer = lx, m_token = t\<rparr>))"

text \<open>What is left to read: the characters after the scan position, and the current token.\<close>

definition remaining :: "Parser \<Rightarrow> nat" where
  "remaining p =
     length (m_text (m_lexer p)) - m_pos (m_lexer p) +
     (if tok_type (m_token p) = EndOfFile then 0 else 1)"

lemma Eat_remaining:
  assumes "Eat ty p = Inr p'" and "ty \<noteq> EndOfFile"
  shows "remaining p' < remaining p"
proof -
  from assms have ty: "tok_type (m_token p) = ty"
    by (auto simp: Eat_def split: if_splits)
  with assms obtain t lx where g: "GetNextToken (m_lexer p) = Inr (t, lx)"
    and p': "p' = \<lparr>m_lexer = lx, m_token = t\<rparr>"
    by (auto simp: Eat_def split: sum.splits)
  from GetNextToken_props [OF g] ty assms(2) p' show ?thesis
    by (auto simp: remaining_def)
qed

function ParseAtom :: "Parser \<Rightarrow> error + (ExpressionAST \<times> Parser)"
  and ParseMulDiv :: "Parser \<Rightarrow> error + (ExpressionAST \<times> Parser)"
  and MulDiv_loop :: "ExpressionAST \<Rightarrow> Parser \<Rightarrow> error + (ExpressionAST \<times> Parser)"
  and ParseAddSub :: "Parser \<Rightarrow> error + (ExpressionAST \<times> Parser)"
  and AddSub_loop :: "ExpressionAST \<Rightarrow> Parser \<Rightarrow> error + (ExpressionAST \<times> Parser)"
where
  "ParseAtom p =
     (if tok_type (m_token p) = Number then
        (case tok_value (m_token p) of
           None \<Rightarrow> Inl undefined_behaviour
         | Some literal \<Rightarrow>
             (case Eat Number p of
                Inl e \<Rightarrow> Inl e
              | Inr p1 \<Rightarrow>
                  (case stoi literal of
                     Inl e \<Rightarrow> Inl e
                   | Inr n \<Rightarrow> Inr (NumberAST n, p1))))
      else if tok_type (m_token p) = Identifier then
        (case tok_value (m_token p) of
           None \<Rightarrow> Inl undefined_behaviour
         | Some identifier \<Rightarrow>
             (case Eat Identifier p of
                Inl e \<Rightarrow> Inl e
              | Inr p1 \<Rightarrow> Inr (VariableRefAST identifier, p1)))
      else if tok_type (m_token p) = LeftParen then
        (case Eat LeftParen p of
           Inl e \<Rightarrow> Inl e
         | Inr p1 \<Rightarrow>
             (case ParseAddSub p1 of
                Inl e \<Rightarrow> Inl e
              | Inr (node, p2) \<Rightarrow>
                  (case Eat RightParen p2 of
                     Inl e \<Rightarrow> Inl e
                   | Inr p3 \<Rightarrow> Inr (node, p3))))
      else Inl (runtime_error ''can't parse atom''))"
| "ParseMulDiv p =
     (case ParseAtom p of
        Inl e \<Rightarrow> Inl e
      | Inr (node, p1) \<Rightarrow> MulDiv_loop node p1)"
| "MulDiv_loop node p =
     (if tok_type (m_token p) = Mul \<or> tok_type (m_token p) = Div then
        (case (if tok_type (m_token p) = Mul then Eat Mul p
               else if tok_type (m_token p) = Div then Eat Div p
               else Inr p) of
           Inl e \<Rightarrow> Inl e
         | Inr p1 \<Rightarrow>
             (case ParseAtom p1 of
                Inl e \<Rightarrow> Inl e
              | Inr (rhs, p2) \<Rightarrow>
                  MulDiv_loop
                    (BinaryExpressionAST node rhs
                       (if tok_type (m_token p) = Mul then CHR ''*'' else CHR ''/''))
                    p2))
      else Inr (node, p))"
| "ParseAddSub p =
     (case ParseMulDiv p of
        Inl e \<Rightarrow> Inl e
      | Inr (node, p1) \<Rightarrow> AddSub_loop node p1)"
| "AddSub_loop node p =
     (if tok_type (m_token p) = Plus \<or> tok_type (m_token p) = Minus then
        (case (if tok_type (m_token p) = Plus then Eat Plus p
               else if tok_type (m_token p) = Minus then Eat Minus p
               else Inr p) of
           Inl e \<Rightarrow> Inl e
         | Inr p1 \<Rightarrow>
             (case ParseMulDiv p1 of
                Inl e \<Rightarrow> Inl e
              | Inr (rhs, p2) \<Rightarrow>
                  AddSub_loop
                    (BinaryExpressionAST node rhs
                       (if tok_type (m_token p) = Plus then CHR ''+'' else CHR ''-''))
                    p2))
      else Inr (node, p))"
  by pat_completeness auto

lemma parse_remaining_partial:
  "ParseAtom_ParseMulDiv_MulDiv_loop_ParseAddSub_AddSub_loop_dom (Inl (Inl p)) \<Longrightarrow>
     ParseAtom p = Inr (r, p') \<Longrightarrow> remaining p' \<le> remaining p"
  "ParseAtom_ParseMulDiv_MulDiv_loop_ParseAddSub_AddSub_loop_dom (Inl (Inr p)) \<Longrightarrow>
     ParseMulDiv p = Inr (r, p') \<Longrightarrow> remaining p' \<le> remaining p"
  "ParseAtom_ParseMulDiv_MulDiv_loop_ParseAddSub_AddSub_loop_dom (Inr (Inl (node, p))) \<Longrightarrow>
     MulDiv_loop node p = Inr (r, p') \<Longrightarrow> remaining p' \<le> remaining p"
  "ParseAtom_ParseMulDiv_MulDiv_loop_ParseAddSub_AddSub_loop_dom (Inr (Inr (Inl p))) \<Longrightarrow>
     ParseAddSub p = Inr (r, p') \<Longrightarrow> remaining p' \<le> remaining p"
  "ParseAtom_ParseMulDiv_MulDiv_loop_ParseAddSub_AddSub_loop_dom (Inr (Inr (Inr (node, p)))) \<Longrightarrow>
     AddSub_loop node p = Inr (r, p') \<Longrightarrow> remaining p' \<le> remaining p"
proof (induct p and p and node p and p and node p arbitrary: r p' and r p' and r p' and r p' and r p'
    rule: ParseAtom_ParseMulDiv_MulDiv_loop_ParseAddSub_AddSub_loop.pinduct)
  case (1 p)
  note eq = ParseAtom.psimps [OF "1.hyps"(1)]
  consider (num) "tok_type (m_token p) = Number"
    | (ident) "tok_type (m_token p) = Identifier"
    | (paren) "tok_type (m_token p) \<noteq> Number" "tok_type (m_token p) \<noteq> Identifier"
        "tok_type (m_token p) = LeftParen"
    | (other) "tok_type (m_token p) \<noteq> Number" "tok_type (m_token p) \<noteq> Identifier"
        "tok_type (m_token p) \<noteq> LeftParen"
    by blast
  then show ?case
  proof cases
    case num
    with "1.prems" eq have "Eat Number p = Inr p'"
      by (auto split: option.splits sum.splits)
    from Eat_remaining [OF this] show ?thesis by simp
  next
    case ident
    with "1.prems" eq have "Eat Identifier p = Inr p'"
      by (auto split: option.splits sum.splits)
    from Eat_remaining [OF this] show ?thesis by simp
  next
    case paren
    with "1.prems" eq obtain p1 p2 where e1: "Eat LeftParen p = Inr p1"
      and e2: "ParseAddSub p1 = Inr (r, p2)" and e3: "Eat RightParen p2 = Inr p'"
      by (auto split: sum.splits)
    from "1.hyps"(2) [OF paren e1 e2] Eat_remaining [OF e1] Eat_remaining [OF e3]
    show ?thesis by simp
  next
    case other
    with "1.prems" eq show ?thesis by simp
  qed
next
  case (2 p)
  note eq = ParseMulDiv.psimps [OF "2.hyps"(1)]
  from "2.prems" eq obtain node p1 where e1: "ParseAtom p = Inr (node, p1)"
    and e2: "MulDiv_loop node p1 = Inr (r, p')"
    by (auto split: sum.splits)
  from "2.hyps"(2) [OF e1] "2.hyps"(3) [OF e1 refl e2] show ?case by simp
next
  case (3 node p)
  note eq = MulDiv_loop.psimps [OF "3.hyps"(1)]
  show ?case
  proof (cases "tok_type (m_token p) = Mul \<or> tok_type (m_token p) = Div")
    case False
    with "3.prems" eq show ?thesis by simp
  next
    case True
    let ?eat = "if tok_type (m_token p) = Mul then Eat Mul p
                else if tok_type (m_token p) = Div then Eat Div p else Inr p"
    from True "3.prems" eq obtain p1 rhs p2 where e1: "?eat = Inr p1"
      and e2: "ParseAtom p1 = Inr (rhs, p2)"
      and e3: "MulDiv_loop (BinaryExpressionAST node rhs
                 (if tok_type (m_token p) = Mul then CHR ''*'' else CHR ''/'')) p2 = Inr (r, p')"
      by (auto split: sum.splits if_splits)
    from True e1 have "remaining p1 < remaining p"
      by (auto split: if_splits dest: Eat_remaining)
    with "3.hyps"(2) [OF True e1 e2] "3.hyps"(3) [OF True e1 e2 refl e3]
    show ?thesis by simp
  qed
next
  case (4 p)
  note eq = ParseAddSub.psimps [OF "4.hyps"(1)]
  from "4.prems" eq obtain node p1 where e1: "ParseMulDiv p = Inr (node, p1)"
    and e2: "AddSub_loop node p1 = Inr (r, p')"
    by (auto split: sum.splits)
  from "4.hyps"(2) [OF e1] "4.hyps"(3) [OF e1 refl e2] show ?case by simp
next
  case (5 node p)
  note eq = AddSub_loop.psimps [OF "5.hyps"(1)]
  show ?case
  proof (cases "tok_type (m_token p) = Plus \<or> tok_type (m_token p) = Minus")
    case False
    with "5.prems" eq show ?thesis by simp
  next
    case True
    let ?eat = "if tok_type (m_token p) = Plus then Eat Plus p
                else if tok_type (m_token p) = Minus then Eat Minus p else Inr p"
    from True "5.prems" eq obtain p1 rhs p2 where e1: "?eat = Inr p1"
      and e2: "ParseMulDiv p1 = Inr (rhs, p2)"
      and e3: "AddSub_loop (BinaryExpressionAST node rhs
                 (if tok_type (m_token p) = Plus then CHR ''+'' else CHR ''-'')) p2 = Inr (r, p')"
      by (auto split: sum.splits if_splits)
    from True e1 have "remaining p1 < remaining p"
      by (auto split: if_splits dest: Eat_remaining)
    with "5.hyps"(2) [OF True e1 e2] "5.hyps"(3) [OF True e1 e2 refl e3]
    show ?thesis by simp
  qed
qed

definition parse_order :: "(Parser + Parser) + (ExpressionAST \<times> Parser) + Parser + (ExpressionAST \<times> Parser)
    \<Rightarrow> nat \<times> nat" where
  "parse_order x =
     (case x of
        Inl (Inl p) \<Rightarrow> (remaining p, 1)
      | Inl (Inr p) \<Rightarrow> (remaining p, 2)
      | Inr (Inl (node, p)) \<Rightarrow> (remaining p, 0)
      | Inr (Inr (Inl p)) \<Rightarrow> (remaining p, 3)
      | Inr (Inr (Inr (node, p))) \<Rightarrow> (remaining p, 0))"

termination ParseAtom
proof (relation "inv_image (less_than <*lex*> less_than) parse_order", goal_cases)
  case 1
  show ?case by (intro wf_inv_image wf_lex_prod wf_less_than)
next
  case (2 p p1)
  then show ?case
    by (auto simp: parse_order_def dest: Eat_remaining)
next
  case (3 p)
  show ?case by (simp add: parse_order_def)
next
  case (4 p b node p1)
  then have "remaining p1 \<le> remaining p"
    by (auto dest: parse_remaining_partial(1))
  then show ?case by (auto simp: parse_order_def)
next
  case (5 node p p1)
  then have "remaining p1 < remaining p"
    by (auto split: if_splits dest: Eat_remaining)
  then show ?case by (simp add: parse_order_def)
next
  case (6 node p p1 b rhs p2)
  then have "remaining p1 < remaining p"
    by (auto split: if_splits dest: Eat_remaining)
  moreover from 6 have "remaining p2 \<le> remaining p1"
    by (auto dest: parse_remaining_partial(1))
  ultimately show ?case by (simp add: parse_order_def)
next
  case (7 p)
  show ?case by (simp add: parse_order_def)
next
  case (8 p b node p1)
  then have "remaining p1 \<le> remaining p"
    by (auto dest: parse_remaining_partial(2))
  then show ?case by (auto simp: parse_order_def)
next
  case (9 node p p1)
  then have "remaining p1 < remaining p"
    by (auto split: if_splits dest: Eat_remaining)
  then show ?case by (simp add: parse_order_def)
next
  case (10 node p p1 b rhs p2)
  then have "remaining p1 < remaining p"
    by (auto split: if_splits dest: Eat_remaining)
  moreover from 10 have "remaining p2 \<le> remaining p1"
    by (auto dest: parse_remaining_partial(2))
  ultimately show ?case by (simp add: parse_order_def)
qed

declare ParseAtom.simps [simp del]
declare ParseMulDiv.simps [simp del]
declare MulDiv_loop.simps [simp del]
declare ParseAddSub.simps [simp del]
declare AddSub_loop.simps [simp del]

section \<open>The code generator\<close>

text \<open>
  \<^verbatim>\<open>class SimpleCodeGenerator\<close>: the text written so far, the stack of register
  names (a vector, whose back is the top) and the counter of register ids, which is an
  \<^verbatim>\<open>int\<close> starting at 1.
\<close>

record SimpleCodeGenerator =
  m_code :: string
  m_registers :: "string list"
  m_registerId :: int

definition SimpleCodeGenerator_new :: SimpleCodeGenerator where
  "SimpleCodeGenerator_new = \<lparr>m_code = [], m_registers = [], m_registerId = 1\<rparr>"

text \<open>
  \<^verbatim>\<open>m_registers.push_back(prefix + std::to_string(m_registerId++))\<close>. Incrementing an
  \<^verbatim>\<open>int\<close> that holds \<^verbatim>\<open>INT_MAX\<close> is undefined.
\<close>

definition push_register :: "string \<Rightarrow> SimpleCodeGenerator \<Rightarrow> error + SimpleCodeGenerator" where
  "push_register prefix g =
     (if m_registerId g = INT_MAX then Inl undefined_behaviour
      else Inr (g\<lparr>m_registers := m_registers g @ [prefix @ to_string_int (m_registerId g)],
                  m_registerId := m_registerId g + 1\<rparr>))"

text \<open>
  \<^verbatim>\<open>auto r = m_registers.back(); m_registers.pop_back();\<close>, undefined on an empty vector.
\<close>

definition pop_register :: "SimpleCodeGenerator \<Rightarrow> error + (string \<times> SimpleCodeGenerator)" where
  "pop_register g =
     (if m_registers g = [] then Inl undefined_behaviour
      else Inr (last (m_registers g), g\<lparr>m_registers := butlast (m_registers g)\<rparr>))"

text \<open>\<^verbatim>\<open>m_code += m_registers.back() + rest\<close>, for a line of the output.\<close>

definition emit :: "string \<Rightarrow> SimpleCodeGenerator \<Rightarrow> error + SimpleCodeGenerator" where
  "emit rest g =
     (if m_registers g = [] then Inl undefined_behaviour
      else Inr (g\<lparr>m_code := m_code g @ last (m_registers g) @ rest\<rparr>))"

text \<open>
  One case of the \<^verbatim>\<open>switch\<close> in \<^verbatim>\<open>Visit(const BinaryExpressionAST&)\<close>: push the
  temporary, then write its line.
\<close>

definition binary_instruction ::
  "string \<Rightarrow> string \<Rightarrow> string \<Rightarrow> string \<Rightarrow> SimpleCodeGenerator \<Rightarrow> error + SimpleCodeGenerator" where
  "binary_instruction prefix mnemonic left right g =
     (case push_register prefix g of
        Inl e \<Rightarrow> Inl e
      | Inr g1 \<Rightarrow> emit (mnemonic @ left @ '' '' @ right @ ''\<newline>'') g1)"

text \<open>
  The three \<^verbatim>\<open>Visit\<close> overloads, reached through \<^verbatim>\<open>Accept\<close>. The \<^verbatim>\<open>switch\<close> has
  no \<^verbatim>\<open>default\<close>: for any other operator the two registers are popped and nothing is
  pushed or written.
\<close>

fun Visit :: "ExpressionAST \<Rightarrow> SimpleCodeGenerator \<Rightarrow> error + SimpleCodeGenerator" where
  "Visit (VariableRefAST name) g =
     (case push_register ''%x'' g of
        Inl e \<Rightarrow> Inl e
      | Inr g1 \<Rightarrow> emit ('' = '' @ ''%'' @ name @ ''\<newline>'') g1)"
| "Visit (NumberAST v) g =
     (case push_register ''%x'' g of
        Inl e \<Rightarrow> Inl e
      | Inr g1 \<Rightarrow> emit ('' = '' @ to_string_double v @ ''\<newline>'') g1)"
| "Visit (BinaryExpressionAST left right op) g =
     (case Visit left g of
        Inl e \<Rightarrow> Inl e
      | Inr g1 \<Rightarrow>
          (case Visit right g1 of
             Inl e \<Rightarrow> Inl e
           | Inr g2 \<Rightarrow>
               (case pop_register g2 of
                  Inl e \<Rightarrow> Inl e
                | Inr (r, g3) \<Rightarrow>
                    (case pop_register g3 of
                       Inl e \<Rightarrow> Inl e
                     | Inr (l, g4) \<Rightarrow>
                         if op = CHR ''+'' then binary_instruction ''%addtmp'' '' = add '' l r g4
                         else if op = CHR ''-'' then binary_instruction ''%subtmp'' '' = sub '' l r g4
                         else if op = CHR ''*'' then binary_instruction ''%multmp'' '' = mul '' l r g4
                         else if op = CHR ''/'' then binary_instruction ''%divtmp'' '' = div '' l r g4
                         else Inr g4))))"

text \<open>
  \<^verbatim>\<open>Generate\<close> visits the root, appends the \<^verbatim>\<open>%result\<close> line, which has no line break
  after it, and returns the text; the generator keeps its state.
\<close>

definition Generate :: "ExpressionAST \<Rightarrow> SimpleCodeGenerator \<Rightarrow> error + (string \<times> SimpleCodeGenerator)" where
  "Generate root g =
     (case Visit root g of
        Inl e \<Rightarrow> Inl e
      | Inr g1 \<Rightarrow>
          if m_registers g1 = [] then Inl undefined_behaviour
          else (let g2 = g1\<lparr>m_code := m_code g1 @ ''%result = '' @ last (m_registers g1)\<rparr>
                in Inr (m_code g2, g2)))"

section \<open>The pipeline\<close>

text \<open>
  The loop of \<^verbatim>\<open>main\<close>. For one line its body makes a new generator, a new lexer and a
  new parser, calls \<^verbatim>\<open>ParseAddSub\<close> and then \<^verbatim>\<open>Generate\<close> on the tree:
  \<open>parse_line\<close> is the two statements that build the parser and parse,
  \<open>translate_line\<close> the whole \<^verbatim>\<open>try\<close> block.
\<close>

definition parse_line :: "string \<Rightarrow> error + (ExpressionAST \<times> Parser)" where
  "parse_line line =
     (case Parser_new (Lexer_new line) of
        Inl e \<Rightarrow> Inl e
      | Inr parser \<Rightarrow> ParseAddSub parser)"

definition translate_line :: "string \<Rightarrow> error + string" where
  "translate_line line =
     (let generator = SimpleCodeGenerator_new in
      case parse_line line of
        Inl e \<Rightarrow> Inl e
      | Inr (ast, parser) \<Rightarrow>
          (case Generate ast generator of
             Inl e \<Rightarrow> Inl e
           | Inr (code, generator1) \<Rightarrow> Inr code))"

text \<open>
  What \<^verbatim>\<open>main\<close> writes: the prompt and the generated text, with \<^verbatim>\<open>std::endl\<close>, on the
  standard output; \<^verbatim>\<open>invalid expression\<close> on the standard error when the body throws.
  \<^verbatim>\<open>catch (...)\<close> catches the exceptions only: a failed assertion or undefined behaviour
  ends the run.
\<close>

datatype written = Stdout string | Stderr string

fun main_loop :: "string list \<Rightarrow> written list \<Rightarrow> error + written list" where
  "main_loop [] out = Inr (out @ [Stdout ''>>> ''])"
| "main_loop (line # rest) out =
     (case translate_line line of
        Inr code \<Rightarrow> main_loop rest (out @ [Stdout ''>>> '', Stdout (code @ ''\<newline>'')])
      | Inl e \<Rightarrow>
          if e = undefined_behaviour \<or> e = assertion_failure then Inl e
          else main_loop rest (out @ [Stdout ''>>> '', Stderr ''invalid expression\<newline>'']))"

section \<open>Observations on the program's results\<close>

text \<open>\<open>n\<close> calls of \<^verbatim>\<open>GetNextToken\<close> in a row: the tokens they return and the lexer after them.\<close>

fun GetNextToken_times :: "nat \<Rightarrow> Lexer \<Rightarrow> error + (Token list \<times> Lexer)" where
  "GetNextToken_times 0 lx = Inr ([], lx)"
| "GetNextToken_times (Suc n) lx =
     (case GetNextToken lx of
        Inl e \<Rightarrow> Inl e
      | Inr (t, lx1) \<Rightarrow>
          (case GetNextToken_times n lx1 of
             Inl e \<Rightarrow> Inl e
           | Inr (ts, lx2) \<Rightarrow> Inr (t # ts, lx2)))"

text \<open>
  The lines of a text, split at the line breaks; the destination of an instruction line,
  which is the text before its first blank; the digits at the end of a register name.
\<close>

fun split_lines_from :: "string \<Rightarrow> string \<Rightarrow> string list" where
  "split_lines_from line [] = [line]"
| "split_lines_from line (c # cs) =
     (if c = CHR 0x0A then line # split_lines_from [] cs
      else split_lines_from (line @ [c]) cs)"

definition split_lines :: "string \<Rightarrow> string list" where
  "split_lines s = split_lines_from [] s"

definition destination :: "string \<Rightarrow> string" where
  "destination line = takeWhile (\<lambda>c. c \<noteq> CHR '' '') line"

definition numeric_suffix :: "string \<Rightarrow> string" where
  "numeric_suffix name = rev (takeWhile isdigit (rev name))"

text \<open>The variable names and the operators that occur in a tree.\<close>

fun names_of :: "ExpressionAST \<Rightarrow> string list" where
  "names_of (VariableRefAST name) = [name]"
| "names_of (NumberAST v) = []"
| "names_of (BinaryExpressionAST left right op) = names_of left @ names_of right"

fun operators_of :: "ExpressionAST \<Rightarrow> char list" where
  "operators_of (VariableRefAST name) = []"
| "operators_of (NumberAST v) = []"
| "operators_of (BinaryExpressionAST left right op) = operators_of left @ operators_of right @ [op]"

section \<open>The example of the README\<close>

text \<open>
  Claim C1. For the input line \<^verbatim>\<open>(1 + 2) / 3 * 5\<close> the pipeline (lexer, \<^verbatim>\<open>ParseAddSub\<close>,
  \<^verbatim>\<open>Generate\<close>) emits, in this order, the load of 1, the load of 2, the add of the two
  registers, the load of 3, the div of the add result and that load, the load of 5, the
  mul of the div result and that load, and the \<^verbatim>\<open>%result\<close> line naming the mul register.
\<close>

theorem C1_readme_example:
  "translate_line ''(1 + 2) / 3 * 5'' =
     Inr (''%x1 = 1.000000\<newline>'' @
          ''%x2 = 2.000000\<newline>'' @
          ''%addtmp3 = add %x1 %x2\<newline>'' @
          ''%x4 = 3.000000\<newline>'' @
          ''%divtmp5 = div %addtmp3 %x4\<newline>'' @
          ''%x6 = 5.000000\<newline>'' @
          ''%multmp7 = mul %divtmp5 %x6\<newline>'' @
          ''%result = %multmp7'')"
  by code_simp

section \<open>The lexer in closed form\<close>

text \<open>
  What \<^verbatim>\<open>GetNextToken\<close> does depends on the text from the scan position on only. The
  following functions describe it on that rest of the text; the lemmas below show that
  the loops of the lexer compute them.
\<close>

definition ident_char :: "char \<Rightarrow> bool" where
  "ident_char c \<longleftrightarrow> isalnum c \<or> c = CHR ''_''"

definition number_prefix :: "string \<Rightarrow> string" where
  "number_prefix s =
     (let ds = takeWhile isdigit s; r = dropWhile isdigit s
      in if r \<noteq> [] \<and> hd r = CHR ''.'' then ds @ CHR ''.'' # takeWhile isdigit (tl r) else ds)"

lemma takeWhile_drop_step:
  assumes "pos < length text" and "P (text ! pos)"
  shows "takeWhile P (drop pos text) = text ! pos # takeWhile P (drop (Suc pos) text)"
proof -
  from assms(1) have "drop pos text = text ! pos # drop (Suc pos) text"
    by (simp add: Cons_nth_drop_Suc)
  with assms(2) show ?thesis by simp
qed

lemma takeWhile_drop_stop:
  assumes "\<not> (pos < length text \<and> P (text ! pos))"
  shows "takeWhile P (drop pos text) = []"
proof (cases "pos < length text")
  case True
  then have "drop pos text = text ! pos # drop (Suc pos) text"
    by (simp add: Cons_nth_drop_Suc)
  with assms True show ?thesis by simp
next
  case False
  then show ?thesis by simp
qed

lemma SkipWhitespaces_eq:
  "SkipWhitespaces lx =
     lx\<lparr>m_pos := m_pos lx + length (takeWhile isspace (drop (m_pos lx) (m_text lx)))\<rparr>"
proof (induction lx rule: SkipWhitespaces.induct)
  case (1 lx)
  show ?case
  proof (cases "m_pos lx < length (m_text lx) \<and> isspace (m_text lx ! m_pos lx)")
    case True
    then have "SkipWhitespaces lx = SkipWhitespaces (lx\<lparr>m_pos := m_pos lx + 1\<rparr>)"
      by (subst SkipWhitespaces.simps) simp
    also have "\<dots> = lx\<lparr>m_pos := m_pos lx + 1 +
        length (takeWhile isspace (drop (m_pos lx + 1) (m_text lx)))\<rparr>"
      using "1.IH" [OF True] by simp
    finally show ?thesis
      using True takeWhile_drop_step [of "m_pos lx" "m_text lx" isspace] by simp
  next
    case False
    then have "SkipWhitespaces lx = lx"
      by (subst SkipWhitespaces.simps) auto
    with takeWhile_drop_stop [of "m_pos lx" "m_text lx" isspace, OF False] show ?thesis by simp
  qed
qed

lemma read_digits_eq:
  "read_digits chars lx =
     (chars @ takeWhile isdigit (drop (m_pos lx) (m_text lx)),
      lx\<lparr>m_pos := m_pos lx + length (takeWhile isdigit (drop (m_pos lx) (m_text lx)))\<rparr>)"
proof (induction chars lx rule: read_digits.induct)
  case (1 chars lx)
  show ?case
  proof (cases "m_pos lx < length (m_text lx) \<and> isdigit (m_text lx ! m_pos lx)")
    case True
    then have "read_digits chars lx =
        read_digits (chars @ [m_text lx ! m_pos lx]) (lx\<lparr>m_pos := m_pos lx + 1\<rparr>)"
      by (subst read_digits.simps) simp
    also have "\<dots> = (chars @ [m_text lx ! m_pos lx] @ takeWhile isdigit (drop (m_pos lx + 1) (m_text lx)),
        lx\<lparr>m_pos := m_pos lx + 1 + length (takeWhile isdigit (drop (m_pos lx + 1) (m_text lx)))\<rparr>)"
      using "1.IH" [OF True] by simp
    finally show ?thesis
      using True takeWhile_drop_step [of "m_pos lx" "m_text lx" isdigit] by simp
  next
    case False
    then have "read_digits chars lx = (chars, lx)"
      by (subst read_digits.simps) auto
    with takeWhile_drop_stop [of "m_pos lx" "m_text lx" isdigit, OF False] show ?thesis by simp
  qed
qed

lemma read_ident_chars_eq:
  "read_ident_chars chars lx =
     (chars @ takeWhile ident_char (drop (m_pos lx) (m_text lx)),
      lx\<lparr>m_pos := m_pos lx + length (takeWhile ident_char (drop (m_pos lx) (m_text lx)))\<rparr>)"
proof (induction chars lx rule: read_ident_chars.induct)
  case (1 chars lx)
  let ?c = "m_pos lx < length (m_text lx) \<and>
      (isalnum (m_text lx ! m_pos lx) \<or> m_text lx ! m_pos lx = CHR ''_'')"
  show ?case
  proof (cases ?c)
    case True
    then have "read_ident_chars chars lx =
        read_ident_chars (chars @ [m_text lx ! m_pos lx]) (lx\<lparr>m_pos := m_pos lx + 1\<rparr>)"
      by (subst read_ident_chars.simps) simp
    also have "\<dots> = (chars @ [m_text lx ! m_pos lx] @ takeWhile ident_char (drop (m_pos lx + 1) (m_text lx)),
        lx\<lparr>m_pos := m_pos lx + 1 + length (takeWhile ident_char (drop (m_pos lx + 1) (m_text lx)))\<rparr>)"
      using "1.IH" [OF True] by simp
    finally have *: "read_ident_chars chars lx =
        (chars @ [m_text lx ! m_pos lx] @ takeWhile ident_char (drop (m_pos lx + 1) (m_text lx)),
         lx\<lparr>m_pos := m_pos lx + 1 + length (takeWhile ident_char (drop (m_pos lx + 1) (m_text lx)))\<rparr>)" .
    from True have "m_pos lx < length (m_text lx)" and "ident_char (m_text lx ! m_pos lx)"
      by (simp_all add: ident_char_def)
    from takeWhile_drop_step [of "m_pos lx" "m_text lx" ident_char, OF this] * show ?thesis by simp
  next
    case False
    then have "read_ident_chars chars lx = (chars, lx)"
      by (subst read_ident_chars.simps) auto
    moreover from False have "\<not> (m_pos lx < length (m_text lx) \<and> ident_char (m_text lx ! m_pos lx))"
      by (simp add: ident_char_def)
    from takeWhile_drop_stop [of "m_pos lx" "m_text lx" ident_char, OF this]
    have "takeWhile ident_char (drop (m_pos lx) (m_text lx)) = []" .
    ultimately show ?thesis by simp
  qed
qed

definition first_token :: "string \<Rightarrow> (nat \<times> char) + (Token \<times> nat)" where
  "first_token s =
     (let ws = takeWhile isspace s; r = dropWhile isspace s in
      case r of
        [] \<Rightarrow> Inr (\<lparr>tok_type = EndOfFile, tok_value = None\<rparr>, length ws)
      | ch # _ \<Rightarrow>
          if isdigit ch then
            Inr (\<lparr>tok_type = Number, tok_value = Some (number_prefix r)\<rparr>,
                 length ws + length (number_prefix r))
          else if isalpha ch then
            Inr (\<lparr>tok_type = Identifier, tok_value = Some (takeWhile ident_char r)\<rparr>,
                 length ws + length (takeWhile ident_char r))
          else if ch = CHR ''+'' then Inr (\<lparr>tok_type = Plus, tok_value = None\<rparr>, length ws + 1)
          else if ch = CHR ''-'' then Inr (\<lparr>tok_type = Minus, tok_value = None\<rparr>, length ws + 1)
          else if ch = CHR ''*'' then Inr (\<lparr>tok_type = Mul, tok_value = None\<rparr>, length ws + 1)
          else if ch = CHR ''/'' then Inr (\<lparr>tok_type = Div, tok_value = None\<rparr>, length ws + 1)
          else if ch = CHR ''('' then Inr (\<lparr>tok_type = LeftParen, tok_value = None\<rparr>, length ws + 1)
          else if ch = CHR '')'' then Inr (\<lparr>tok_type = RightParen, tok_value = None\<rparr>, length ws + 1)
          else Inl (length ws, ch))"

definition token_at :: "Lexer \<Rightarrow> (nat \<times> char) + (Token \<times> nat) \<Rightarrow> error + (Token \<times> Lexer)" where
  "token_at lx r =
     (case r of
        Inl (k, ch) \<Rightarrow> Inl (invalid_argument (lex_error_message (m_pos lx + k) ch))
      | Inr (t, k) \<Rightarrow> Inr (t, lx\<lparr>m_pos := m_pos lx + k\<rparr>))"

lemma ReadAsNumberConstant_eq:
  assumes lt: "m_pos lx < length (m_text lx)" and dg: "isdigit (m_text lx ! m_pos lx)"
  shows "ReadAsNumberConstant lx =
     Inr (\<lparr>tok_type = Number, tok_value = Some (number_prefix (drop (m_pos lx) (m_text lx)))\<rparr>,
          lx\<lparr>m_pos := m_pos lx + length (number_prefix (drop (m_pos lx) (m_text lx)))\<rparr>)"
proof -
  let ?rest = "drop (m_pos lx) (m_text lx)"
  let ?ds = "takeWhile isdigit ?rest"
  let ?p1 = "m_pos lx + length ?ds"
  let ?r = "dropWhile isdigit ?rest"
  have r: "?r = drop ?p1 (m_text lx)"
    by (simp add: dropWhile_eq_drop add.commute)
  have cond: "(?p1 < length (m_text lx) \<and> m_text lx ! ?p1 = CHR ''.'') \<longleftrightarrow>
      (?r \<noteq> [] \<and> hd ?r = CHR ''.'')"
    unfolding r by (auto simp: hd_drop_conv_nth)
  have tl: "tl ?r = drop (?p1 + 1) (m_text lx)"
    unfolding r by (simp add: drop_Suc tl_drop)
  show ?thesis
  proof (cases "?r \<noteq> [] \<and> hd ?r = CHR ''.''")
    case True
    with cond have c: "?p1 < length (m_text lx)" "m_text lx ! ?p1 = CHR ''.''" by auto
    from True have np: "number_prefix ?rest = ?ds @ CHR ''.'' # takeWhile isdigit (tl ?r)"
      by (simp add: number_prefix_def Let_def)
    show ?thesis
      unfolding np using lt dg c
      by (simp add: ReadAsNumberConstant_def read_digits_eq tl add.assoc)
  next
    case False
    with cond have c: "\<not> (?p1 < length (m_text lx) \<and> m_text lx ! ?p1 = CHR ''.'')" by simp
    from False have np: "number_prefix ?rest = ?ds"
      by (simp add: number_prefix_def Let_def)
    show ?thesis
      unfolding np using lt dg c
      by (simp add: ReadAsNumberConstant_def read_digits_eq)
  qed
qed

lemma ReadAsIdentifier_eq:
  assumes "m_pos lx < length (m_text lx)" and "isalpha (m_text lx ! m_pos lx)"
  shows "ReadAsIdentifier lx =
     Inr (\<lparr>tok_type = Identifier, tok_value = Some (takeWhile ident_char (drop (m_pos lx) (m_text lx)))\<rparr>,
          lx\<lparr>m_pos := m_pos lx + length (takeWhile ident_char (drop (m_pos lx) (m_text lx)))\<rparr>)"
  using assms by (simp add: ReadAsIdentifier_def read_ident_chars_eq)

lemma first_token_no_space:
  assumes "s = ch # rest" and "\<not> isspace ch"
  shows "first_token s =
     (if isdigit ch then
        Inr (\<lparr>tok_type = Number, tok_value = Some (number_prefix s)\<rparr>, length (number_prefix s))
      else if isalpha ch then
        Inr (\<lparr>tok_type = Identifier, tok_value = Some (takeWhile ident_char s)\<rparr>,
             length (takeWhile ident_char s))
      else if ch = CHR ''+'' then Inr (\<lparr>tok_type = Plus, tok_value = None\<rparr>, 1)
      else if ch = CHR ''-'' then Inr (\<lparr>tok_type = Minus, tok_value = None\<rparr>, 1)
      else if ch = CHR ''*'' then Inr (\<lparr>tok_type = Mul, tok_value = None\<rparr>, 1)
      else if ch = CHR ''/'' then Inr (\<lparr>tok_type = Div, tok_value = None\<rparr>, 1)
      else if ch = CHR ''('' then Inr (\<lparr>tok_type = LeftParen, tok_value = None\<rparr>, 1)
      else if ch = CHR '')'' then Inr (\<lparr>tok_type = RightParen, tok_value = None\<rparr>, 1)
      else Inl (0, ch))"
  using assms by (simp add: first_token_def Let_def)

lemma first_token_space:
  "first_token s =
     (case first_token (dropWhile isspace s) of
        Inl (k, ch) \<Rightarrow> Inl (length (takeWhile isspace s) + k, ch)
      | Inr (t, k) \<Rightarrow> Inr (t, length (takeWhile isspace s) + k))"
proof (cases "dropWhile isspace s")
  case Nil
  have "first_token s = Inr (\<lparr>tok_type = EndOfFile, tok_value = None\<rparr>, length (takeWhile isspace s))"
    unfolding first_token_def Let_def Nil by simp
  moreover have "first_token [] = Inr (\<lparr>tok_type = EndOfFile, tok_value = None\<rparr>, 0)"
    by (simp add: first_token_def)
  ultimately show ?thesis unfolding Nil by simp
next
  case (Cons ch rest)
  then have "\<not> isspace ch"
    using hd_dropWhile [of isspace s] by auto
  note ft = first_token_no_space [OF refl this, of rest]
  have "first_token s =
     (case first_token (ch # rest) of
        Inl (k, c) \<Rightarrow> Inl (length (takeWhile isspace s) + k, c)
      | Inr (t, k) \<Rightarrow> Inr (t, length (takeWhile isspace s) + k))"
    unfolding ft first_token_def [of s] Let_def Cons by simp
  then show ?thesis unfolding Cons .
qed

lemma GetNextToken_eq:
  "GetNextToken lx = token_at lx (first_token (drop (m_pos lx) (m_text lx)))"
proof (induction lx rule: GetNextToken.induct)
  case (1 lx)
  let ?s = "drop (m_pos lx) (m_text lx)"
  show ?case
  proof (cases "m_pos lx < length (m_text lx)")
    case False
    then have "GetNextToken lx = Inr (\<lparr>tok_type = EndOfFile, tok_value = None\<rparr>, lx)"
      by (subst GetNextToken.simps) simp
    with False show ?thesis
      by (simp add: first_token_def token_at_def)
  next
    case lt: True
    then have s: "?s = m_text lx ! m_pos lx # drop (Suc (m_pos lx)) (m_text lx)"
      by (simp add: Cons_nth_drop_Suc)
    show ?thesis
    proof (cases "isspace (m_text lx ! m_pos lx)")
      case True
      let ?lx' = "SkipWhitespaces lx"
      have pos': "m_pos ?lx' = m_pos lx + length (takeWhile isspace ?s)"
        by (subst SkipWhitespaces_eq) simp
      have s': "drop (m_pos ?lx') (m_text ?lx') = dropWhile isspace ?s"
        unfolding pos' by (simp add: dropWhile_eq_drop add.commute)
      from lt True have "GetNextToken lx = GetNextToken ?lx'"
        by (subst GetNextToken.simps) simp
      also have "\<dots> = token_at ?lx' (first_token (dropWhile isspace ?s))"
        using "1.IH" [OF lt refl True] s' by simp
      also have "\<dots> = token_at lx (first_token ?s)"
        by (subst (2) first_token_space)
           (auto simp: token_at_def pos' SkipWhitespaces_eq add.assoc split: sum.splits)
      finally show ?thesis .
    next
      case False
      note ft = first_token_no_space [OF s False]
      from lt False show ?thesis
        by (subst GetNextToken.simps)
           (simp add: ft token_at_def Let_def ReadAsNumberConstant_eq ReadAsIdentifier_eq
              single_char_token_def)
    qed
  qed
qed

lemma GetNextToken_at_end:
  assumes "length (m_text lx) \<le> m_pos lx"
  shows "GetNextToken lx = Inr (\<lparr>tok_type = EndOfFile, tok_value = None\<rparr>, lx)"
  using assms by (subst GetNextToken.simps) simp

lemma GetNextToken_times_at_end:
  assumes "length (m_text lx) \<le> m_pos lx"
  shows "GetNextToken_times n lx =
     Inr (replicate n \<lparr>tok_type = EndOfFile, tok_value = None\<rparr>, lx)"
  using assms by (induction n) (simp_all add: GetNextToken_at_end)

lemma GetNextToken_only_space:
  assumes "\<forall>c\<in>set (drop (m_pos lx) (m_text lx)). isspace c"
  shows "GetNextToken lx =
     Inr (\<lparr>tok_type = EndOfFile, tok_value = None\<rparr>,
          lx\<lparr>m_pos := m_pos lx + length (drop (m_pos lx) (m_text lx))\<rparr>)"
proof -
  from assms have tw: "takeWhile isspace (drop (m_pos lx) (m_text lx)) = drop (m_pos lx) (m_text lx)"
    and dw: "dropWhile isspace (drop (m_pos lx) (m_text lx)) = []"
    by simp_all
  have "first_token (drop (m_pos lx) (m_text lx)) =
      Inr (\<lparr>tok_type = EndOfFile, tok_value = None\<rparr>, length (drop (m_pos lx) (m_text lx)))"
    unfolding first_token_def Let_def tw dw by simp
  then show ?thesis
    unfolding GetNextToken_eq token_at_def by simp
qed

text \<open>
  Claim C8. Once the scan position has reached the end of the text, every call of
  \<^verbatim>\<open>GetNextToken\<close> returns an \<^verbatim>\<open>EndOfFile\<close> token and leaves the lexer as it was,
  however often it is called; and when only white space is left, the call returns
  \<^verbatim>\<open>EndOfFile\<close> with the position at the end, so that white space gives no token.
\<close>

theorem C8_end_of_file_repeats:
  "(length (m_text lx) \<le> m_pos lx \<longrightarrow>
      GetNextToken lx = Inr (\<lparr>tok_type = EndOfFile, tok_value = None\<rparr>, lx) \<and>
      GetNextToken_times n lx =
        Inr (replicate n \<lparr>tok_type = EndOfFile, tok_value = None\<rparr>, lx)) \<and>
   (m_pos lx \<le> length (m_text lx) \<and> (\<forall>c\<in>set (drop (m_pos lx) (m_text lx)). isspace c) \<longrightarrow>
      GetNextToken lx =
        Inr (\<lparr>tok_type = EndOfFile, tok_value = None\<rparr>, lx\<lparr>m_pos := length (m_text lx)\<rparr>))"
  using GetNextToken_at_end [of lx] GetNextToken_times_at_end [of lx n]
    GetNextToken_only_space [of lx]
  by auto

theorem C8_end_of_file_repeats_witness:
  "GetNextToken \<lparr>m_text = ''a + 1'', m_pos = 5\<rparr> =
     Inr (\<lparr>tok_type = EndOfFile, tok_value = None\<rparr>, \<lparr>m_text = ''a + 1'', m_pos = 5\<rparr>) \<and>
   GetNextToken_times 3 \<lparr>m_text = ''a + 1'', m_pos = 5\<rparr> =
     Inr ([\<lparr>tok_type = EndOfFile, tok_value = None\<rparr>,
           \<lparr>tok_type = EndOfFile, tok_value = None\<rparr>,
           \<lparr>tok_type = EndOfFile, tok_value = None\<rparr>], \<lparr>m_text = ''a + 1'', m_pos = 5\<rparr>) \<and>
   GetNextToken \<lparr>m_text = ''7   '', m_pos = 1\<rparr> =
     Inr (\<lparr>tok_type = EndOfFile, tok_value = None\<rparr>, \<lparr>m_text = ''7   '', m_pos = 4\<rparr>)"
  using C8_end_of_file_repeats [of "\<lparr>m_text = ''a + 1'', m_pos = 5\<rparr>" 3]
    C8_end_of_file_repeats [of "\<lparr>m_text = ''7   '', m_pos = 1\<rparr>" 0]
  by (simp add: isspace_def numeral_3_eq_3)

lemma number_prefix_literal:
  assumes "\<forall>c\<in>set ds. isdigit c"
    and "frac = [] \<or> (\<exists>fs. frac = CHR ''.'' # fs \<and> (\<forall>c\<in>set fs. isdigit c))"
  shows "number_prefix (ds @ frac) = ds @ frac"
proof -
  have nd: "\<not> isdigit (CHR ''.'')" by (simp add: isdigit_def)
  from assms(2) show ?thesis
  proof
    assume "frac = []"
    with assms(1) show ?thesis by (simp add: number_prefix_def)
  next
    assume "\<exists>fs. frac = CHR ''.'' # fs \<and> (\<forall>c\<in>set fs. isdigit c)"
    then obtain fs where f: "frac = CHR ''.'' # fs" and fs: "\<forall>c\<in>set fs. isdigit c" by blast
    from assms(1) nd have tw: "takeWhile isdigit (ds @ CHR ''.'' # fs) = ds"
      by (simp add: takeWhile_append2)
    from assms(1) nd have dw: "dropWhile isdigit (ds @ CHR ''.'' # fs) = CHR ''.'' # fs"
      by (simp add: dropWhile_append2)
    from fs have "takeWhile isdigit fs = fs" by simp
    then show ?thesis
      unfolding f number_prefix_def Let_def tw dw by simp
  qed
qed

lemma isdigit_not_isspace: "isdigit c \<Longrightarrow> \<not> isspace c"
  by (auto simp: isdigit_def isspace_def)

lemma first_token_literal:
  assumes "ds \<noteq> []" and "\<forall>c\<in>set ds. isdigit c"
    and "frac = [] \<or> (\<exists>fs. frac = CHR ''.'' # fs \<and> (\<forall>c\<in>set fs. isdigit c))"
  shows "first_token (ds @ frac) =
     Inr (\<lparr>tok_type = Number, tok_value = Some (ds @ frac)\<rparr>, length (ds @ frac))"
proof -
  from assms(1) obtain d ds' where ds: "ds = d # ds'" by (cases ds) auto
  with assms(2) have d: "isdigit d" by simp
  then have "\<not> isspace d" by (rule isdigit_not_isspace)
  from first_token_no_space [of "ds @ frac" d "ds' @ frac", OF _ this] ds d
  have "first_token (ds @ frac) =
      Inr (\<lparr>tok_type = Number, tok_value = Some (number_prefix (ds @ frac))\<rparr>,
           length (number_prefix (ds @ frac)))"
    by simp
  with number_prefix_literal [OF assms(2,3)] show ?thesis by simp
qed

lemma Parser_new_literal:
  assumes "ds \<noteq> []" and "\<forall>c\<in>set ds. isdigit c"
    and "frac = [] \<or> (\<exists>fs. frac = CHR ''.'' # fs \<and> (\<forall>c\<in>set fs. isdigit c))"
  shows "Parser_new (Lexer_new (ds @ frac)) =
     Inr \<lparr>m_lexer = \<lparr>m_text = ds @ frac, m_pos = length (ds @ frac)\<rparr>,
          m_token = \<lparr>tok_type = Number, tok_value = Some (ds @ frac)\<rparr>\<rparr>"
  using first_token_literal [OF assms]
  by (simp add: Parser_new_def Lexer_new_def GetNextToken_eq token_at_def)

lemma Eat_at_end:
  assumes "length text \<le> pos"
  shows "Eat ty \<lparr>m_lexer = \<lparr>m_text = text, m_pos = pos\<rparr>,
               m_token = \<lparr>tok_type = ty, tok_value = v\<rparr>\<rparr> =
     Inr \<lparr>m_lexer = \<lparr>m_text = text, m_pos = pos\<rparr>,
          m_token = \<lparr>tok_type = EndOfFile, tok_value = None\<rparr>\<rparr>"
  using assms by (simp add: Eat_def GetNextToken_at_end)

lemma digit_val_range: "isdigit c \<Longrightarrow> 0 \<le> digit_val c \<and> digit_val c \<le> 9"
  by (auto simp: isdigit_def digit_val_def)

lemma foldl_dec_nonneg:
  "\<forall>c\<in>set ds. isdigit c \<Longrightarrow> 0 \<le> a \<Longrightarrow> 0 \<le> foldl (\<lambda>a c. 10 * a + digit_val c) a ds"
proof (induction ds arbitrary: a)
  case Nil
  then show ?case by simp
next
  case (Cons d ds)
  from Cons.prems digit_val_range [of d] have "0 \<le> 10 * a + digit_val d" by simp
  with Cons show ?case by simp
qed

lemma dec_value_nonneg: "\<forall>c\<in>set ds. isdigit c \<Longrightarrow> 0 \<le> dec_value ds"
  unfolding dec_value_def by (rule foldl_dec_nonneg) simp_all

lemma takeWhile_digits_literal:
  assumes "\<forall>c\<in>set ds. isdigit c"
    and "frac = [] \<or> (\<exists>fs. frac = CHR ''.'' # fs \<and> (\<forall>c\<in>set fs. isdigit c))"
  shows "takeWhile isdigit (ds @ frac) = ds"
proof -
  have nd: "\<not> isdigit (CHR ''.'')" by (simp add: isdigit_def)
  from assms nd show ?thesis by (auto simp: takeWhile_append2)
qed

lemma stoi_digits:
  assumes "ds \<noteq> []" and "\<forall>c\<in>set ds. isdigit c"
    and "frac = [] \<or> (\<exists>fs. frac = CHR ''.'' # fs \<and> (\<forall>c\<in>set fs. isdigit c))"
  shows "stoi (ds @ frac) =
     (if INT_MAX < dec_value ds then Inl (out_of_range ''stoi'') else Inr (dec_value ds))"
proof -
  from assms(1) obtain d ds' where ds: "ds = d # ds'" by (cases ds) auto
  with assms(2) have d: "isdigit d" by simp
  then have nsp: "\<not> isspace d" by (rule isdigit_not_isspace)
  from d have nsign: "d \<noteq> CHR ''-''" "d \<noteq> CHR ''+''" by (auto simp: isdigit_def)
  have s1: "dropWhile isspace (ds @ frac) = ds @ frac"
    unfolding ds using nsp by simp
  have hd: "hd (ds @ frac) = d" unfolding ds by simp
  have ne: "ds @ frac \<noteq> []" using assms(1) by simp
  note tw = takeWhile_digits_literal [OF assms(2,3)]
  from dec_value_nonneg [OF assms(2)] have "\<not> dec_value ds < INT_MIN"
    by (simp add: INT_MIN_def)
  then show ?thesis
    unfolding stoi_def Let_def s1 hd using nsign ne assms(1) by (simp add: tw)
qed

text \<open>
  Claim C10. Some numeric literals that the lexer accepts make the parser fail: when
  the digits before the point are a number beyond \<^verbatim>\<open>INT_MAX\<close>, as in \<^verbatim>\<open>3000000000\<close>,
  the lexer returns the literal as a Number token, \<^verbatim>\<open>std::stoi\<close> in \<^verbatim>\<open>ParseAtom\<close> throws
  \<^verbatim>\<open>std::out_of_range\<close>, and so do \<^verbatim>\<open>ParseAddSub\<close> and the whole line. The exception is
  neither the lexer's \<^verbatim>\<open>std::invalid_argument\<close> nor the parser's \<^verbatim>\<open>std::runtime_error\<close>.
\<close>

theorem C10_literal_out_of_range:
  assumes "ds \<noteq> []" and "\<forall>c\<in>set ds. isdigit c"
    and "frac = [] \<or> (\<exists>fs. frac = CHR ''.'' # fs \<and> (\<forall>c\<in>set fs. isdigit c))"
    and "INT_MAX < dec_value ds"
  shows "\<exists>p. Parser_new (Lexer_new (ds @ frac)) = Inr p \<and>
           m_token p = \<lparr>tok_type = Number, tok_value = Some (ds @ frac)\<rparr> \<and>
           ParseAtom p = Inl (out_of_range ''stoi'') \<and>
           ParseAddSub p = Inl (out_of_range ''stoi'') \<and>
           translate_line (ds @ frac) = Inl (out_of_range ''stoi'') \<and>
           (\<forall>msg. out_of_range ''stoi'' \<noteq> invalid_argument msg \<and>
                  out_of_range ''stoi'' \<noteq> runtime_error msg)"
proof -
  let ?p = "\<lparr>m_lexer = \<lparr>m_text = ds @ frac, m_pos = length (ds @ frac)\<rparr>,
             m_token = \<lparr>tok_type = Number, tok_value = Some (ds @ frac)\<rparr>\<rparr>"
  note new = Parser_new_literal [OF assms(1-3)]
  from stoi_digits [OF assms(1-3)] assms(4)
  have stoi: "stoi (ds @ frac) = Inl (out_of_range ''stoi'')" by simp
  have atom: "ParseAtom ?p = Inl (out_of_range ''stoi'')"
    by (subst ParseAtom.simps) (simp add: Eat_at_end stoi)
  then have muldiv: "ParseMulDiv ?p = Inl (out_of_range ''stoi'')"
    by (subst ParseMulDiv.simps) simp
  then have addsub: "ParseAddSub ?p = Inl (out_of_range ''stoi'')"
    by (subst ParseAddSub.simps) simp
  with new have "translate_line (ds @ frac) = Inl (out_of_range ''stoi'')"
    by (simp add: translate_line_def parse_line_def)
  with new atom addsub show ?thesis by simp
qed

theorem C10_literal_out_of_range_witness:
  "\<exists>p. Parser_new (Lexer_new ''3000000000'') = Inr p \<and>
       m_token p = \<lparr>tok_type = Number, tok_value = Some ''3000000000''\<rparr> \<and>
       ParseAtom p = Inl (out_of_range ''stoi'') \<and>
       ParseAddSub p = Inl (out_of_range ''stoi'') \<and>
       translate_line ''3000000000'' = Inl (out_of_range ''stoi'')"
  using C10_literal_out_of_range [of "''3000000000''" "[]"]
  by (simp add: isdigit_def dec_value_def digit_val_def INT_MAX_def)

section \<open>Decimal numerals\<close>

lemma digit_char_isdigit: "n < 10 \<Longrightarrow> isdigit (''0123456789'' ! n)"
  unfolding isdigit_def by (rule nth_mem) simp

lemma to_string_nat_digits: "\<forall>c\<in>set (to_string_nat n). isdigit c"
proof (induction n rule: to_string_nat.induct)
  case (1 n)
  show ?case
  proof (cases "n < 10")
    case True
    then show ?thesis
      by (subst to_string_nat.simps) (simp add: digit_char_isdigit)
  next
    case False
    have "n mod 10 < 10" by simp
    with False "1.IH" show ?thesis
      by (subst to_string_nat.simps) (simp add: digit_char_isdigit)
  qed
qed

lemma to_string_nat_not_Nil: "to_string_nat n \<noteq> []"
  by (subst to_string_nat.simps) simp

lemma digit_val_digit_char:
  assumes "n < 10"
  shows "digit_val (''0123456789'' ! n) = int n"
proof -
  have "\<forall>k\<in>set [0..<10]. digit_val (''0123456789'' ! k) = int k"
    by code_simp
  with assms show ?thesis by simp
qed

lemma dec_value_snoc: "dec_value (ds @ [c]) = 10 * dec_value ds + digit_val c"
  by (simp add: dec_value_def)

lemma dec_value_to_string_nat: "dec_value (to_string_nat n) = int n"
proof (induction n rule: to_string_nat.induct)
  case (1 n)
  show ?case
  proof (cases "n < 10")
    case True
    then show ?thesis
      by (subst to_string_nat.simps) (simp add: dec_value_def digit_val_digit_char)
  next
    case False
    have "n mod 10 < 10" by simp
    with False "1.IH" have "dec_value (to_string_nat n) = 10 * int (n div 10) + int (n mod 10)"
      by (subst to_string_nat.simps) (simp add: dec_value_snoc digit_val_digit_char)
    also have "\<dots> = int n"
      by (simp add: zdiv_int zmod_int)
    finally show ?thesis .
  qed
qed

lemma to_string_nat_inj:
  assumes "to_string_nat m = to_string_nat n"
  shows "m = n"
proof -
  from assms have "dec_value (to_string_nat m) = dec_value (to_string_nat n)" by simp
  then show ?thesis by (simp only: dec_value_to_string_nat of_nat_eq_iff)
qed

lemma to_string_int_nonneg: "0 \<le> k \<Longrightarrow> to_string_int k = to_string_nat (nat k)"
  by (simp add: to_string_int_def)

section \<open>What the generator writes\<close>

definition known_operator :: "char \<Rightarrow> bool" where
  "known_operator op \<longleftrightarrow> op \<in> set ''+-*/''"

definition operator_prefix :: "char \<Rightarrow> string" where
  "operator_prefix op =
     (if op = CHR ''+'' then ''%addtmp'' else if op = CHR ''-'' then ''%subtmp''
      else if op = CHR ''*'' then ''%multmp'' else ''%divtmp'')"

definition operator_mnemonic :: "char \<Rightarrow> string" where
  "operator_mnemonic op =
     (if op = CHR ''+'' then '' = add '' else if op = CHR ''-'' then '' = sub ''
      else if op = CHR ''*'' then '' = mul '' else '' = div '')"

definition no_line_break :: "string \<Rightarrow> bool" where
  "no_line_break s \<longleftrightarrow> CHR 0x0A \<notin> set s"

definition lines_text :: "string list \<Rightarrow> string" where
  "lines_text ls = concat (map (\<lambda>l. l @ [CHR 0x0A]) ls)"

text \<open>Pushing a register and writing its line, as all five cases of the visitor do.\<close>

lemma push_emit:
  "(case push_register prefix g of Inl e \<Rightarrow> Inl e | Inr g1 \<Rightarrow> emit rest g1) =
     (if m_registerId g = INT_MAX then Inl undefined_behaviour
      else Inr (g\<lparr>m_code := m_code g @ prefix @ to_string_int (m_registerId g) @ rest,
                  m_registers := m_registers g @ [prefix @ to_string_int (m_registerId g)],
                  m_registerId := m_registerId g + 1\<rparr>))"
  by (simp add: push_register_def emit_def)

lemma Visit_leaf:
  "Visit (VariableRefAST name) g =
     (if m_registerId g = INT_MAX then Inl undefined_behaviour
      else Inr (g\<lparr>m_code := m_code g @ ''%x'' @ to_string_int (m_registerId g) @
                    '' = '' @ ''%'' @ name @ ''\<newline>'',
                  m_registers := m_registers g @ [''%x'' @ to_string_int (m_registerId g)],
                  m_registerId := m_registerId g + 1\<rparr>))"
  "Visit (NumberAST v) g =
     (if m_registerId g = INT_MAX then Inl undefined_behaviour
      else Inr (g\<lparr>m_code := m_code g @ ''%x'' @ to_string_int (m_registerId g) @
                    '' = '' @ to_string_double v @ ''\<newline>'',
                  m_registers := m_registers g @ [''%x'' @ to_string_int (m_registerId g)],
                  m_registerId := m_registerId g + 1\<rparr>))"
  by (simp_all add: push_emit)

lemma Visit_Binary:
  assumes "Visit (BinaryExpressionAST left right op) g = Inr g'"
  shows "\<exists>g1 g2. Visit left g = Inr g1 \<and> Visit right g1 = Inr g2 \<and>
           2 \<le> length (m_registers g2) \<and>
           (if known_operator op then
              m_registerId g2 \<noteq> INT_MAX \<and>
              g' = g2\<lparr>m_code := m_code g2 @ operator_prefix op @ to_string_int (m_registerId g2) @
                           operator_mnemonic op @ last (butlast (m_registers g2)) @ '' '' @
                           last (m_registers g2) @ ''\<newline>'',
                        m_registers := butlast (butlast (m_registers g2)) @
                           [operator_prefix op @ to_string_int (m_registerId g2)],
                        m_registerId := m_registerId g2 + 1\<rparr>
            else g' = g2\<lparr>m_registers := butlast (butlast (m_registers g2))\<rparr>)"
proof -
  from assms obtain g1 where v1: "Visit left g = Inr g1"
    by (auto split: sum.splits)
  with assms obtain g2 where v2: "Visit right g1 = Inr g2"
    by (auto split: sum.splits)
  from assms v1 v2 have ne: "m_registers g2 \<noteq> []"
    by (auto simp: pop_register_def split: if_splits)
  with assms v1 v2 have ne2: "butlast (m_registers g2) \<noteq> []"
    by (auto simp: pop_register_def split: if_splits)
  from ne ne2 have len: "2 \<le> length (m_registers g2)"
    by (cases "m_registers g2" rule: rev_cases) (auto simp: Suc_le_eq)
  from assms v1 v2 ne ne2 have
    "(if known_operator op then
        m_registerId g2 \<noteq> INT_MAX \<and>
        g' = g2\<lparr>m_code := m_code g2 @ operator_prefix op @ to_string_int (m_registerId g2) @
                     operator_mnemonic op @ last (butlast (m_registers g2)) @ '' '' @
                     last (m_registers g2) @ ''\<newline>'',
                  m_registers := butlast (butlast (m_registers g2)) @
                     [operator_prefix op @ to_string_int (m_registerId g2)],
                  m_registerId := m_registerId g2 + 1\<rparr>
      else g' = g2\<lparr>m_registers := butlast (butlast (m_registers g2))\<rparr>)"
    by (auto simp: pop_register_def binary_instruction_def push_emit known_operator_def
        operator_prefix_def operator_mnemonic_def split: if_splits)
  with v1 v2 len show ?thesis by blast
qed

declare Visit.simps [simp del]

lemma Visit_stack_size:
  "Visit t g = Inr g' \<Longrightarrow>
     int (length (m_registers g')) =
     int (length (m_registers g)) + 1 -
     int (length (filter (\<lambda>op. \<not> known_operator op) (operators_of t)))"
proof (induction t arbitrary: g g')
  case (VariableRefAST name)
  then show ?case by (auto simp: Visit_leaf split: if_splits)
next
  case (NumberAST v)
  then show ?case by (auto simp: Visit_leaf split: if_splits)
next
  case (BinaryExpressionAST left right op)
  from Visit_Binary [OF BinaryExpressionAST.prems] obtain g1 g2 where
    v1: "Visit left g = Inr g1" and v2: "Visit right g1 = Inr g2"
    and len: "2 \<le> length (m_registers g2)"
    and fin: "if known_operator op then
        m_registerId g2 \<noteq> INT_MAX \<and>
        g' = g2\<lparr>m_code := m_code g2 @ operator_prefix op @ to_string_int (m_registerId g2) @
                     operator_mnemonic op @ last (butlast (m_registers g2)) @ '' '' @
                     last (m_registers g2) @ ''\<newline>'',
                  m_registers := butlast (butlast (m_registers g2)) @
                     [operator_prefix op @ to_string_int (m_registerId g2)],
                  m_registerId := m_registerId g2 + 1\<rparr>
      else g' = g2\<lparr>m_registers := butlast (butlast (m_registers g2))\<rparr>"
    by blast
  note s1 = BinaryExpressionAST.IH(1) [OF v1]
  note s2 = BinaryExpressionAST.IH(2) [OF v2]
  show ?case
  proof (cases "known_operator op")
    case True
    with fin have "length (m_registers g') = length (m_registers g2) - 1"
      using len by auto
    with len s1 s2 True show ?thesis by simp
  next
    case False
    with fin have "length (m_registers g') = length (m_registers g2) - 2"
      by auto
    with len s1 s2 False show ?thesis by simp
  qed
qed

definition register_prefixes :: "string list" where
  "register_prefixes = [''%x'', ''%addtmp'', ''%subtmp'', ''%multmp'', ''%divtmp'']"

text \<open>
  Lines that define the registers numbered from \<open>k\<close> on, one after the other; with
  \<open>nl\<close>, what follows the equals sign has no line break.
\<close>

fun lines_from :: "bool \<Rightarrow> int \<Rightarrow> string list \<Rightarrow> bool" where
  "lines_from nl k [] = True"
| "lines_from nl k (l # ls) =
     ((\<exists>pfx rhs. pfx \<in> set register_prefixes \<and> l = pfx @ to_string_int k @ '' = '' @ rhs \<and>
         (nl \<longrightarrow> no_line_break rhs)) \<and>
      lines_from nl (k + 1) ls)"

lemma lines_from_append:
  "lines_from nl k (xs @ ys) \<longleftrightarrow> lines_from nl k xs \<and> lines_from nl (k + int (length xs)) ys"
  by (induction xs arbitrary: k) (simp_all add: add.assoc)

lemma lines_from_mono:
  "lines_from nl k ls \<Longrightarrow> nl' \<longrightarrow> nl \<Longrightarrow> lines_from nl' k ls"
proof (induction ls arbitrary: k)
  case Nil
  show ?case by simp
next
  case (Cons l ls)
  from Cons.prems(1) obtain pfx rhs where a: "pfx \<in> set register_prefixes"
    and b: "l = pfx @ to_string_int k @ '' = '' @ rhs" and c: "nl \<longrightarrow> no_line_break rhs"
    and d: "lines_from nl (k + 1) ls"
    by auto
  from c Cons.prems(2) have "nl' \<longrightarrow> no_line_break rhs" by blast
  with a b Cons.IH [OF d Cons.prems(2)] show ?case by auto
qed

lemma lines_text_append [simp]: "lines_text (xs @ ys) = lines_text xs @ lines_text ys"
  by (simp add: lines_text_def)

lemma lines_text_single [simp]: "lines_text [l] = l @ [CHR 0x0A]"
  by (simp add: lines_text_def)

lemma no_line_break_append [simp]:
  "no_line_break (xs @ ys) \<longleftrightarrow> no_line_break xs \<and> no_line_break ys"
  by (auto simp: no_line_break_def)

lemma no_line_break_Nil [simp]: "no_line_break []"
  by (simp add: no_line_break_def)

lemma no_line_break_Cons [simp]: "no_line_break (c # s) \<longleftrightarrow> c \<noteq> CHR 0x0A \<and> no_line_break s"
  by (auto simp: no_line_break_def)

lemma no_line_break_digits:
  assumes "\<forall>c\<in>set s. isdigit c"
  shows "no_line_break s"
proof -
  have "\<not> isdigit (CHR 0x0A)" by (simp add: isdigit_def)
  with assms show ?thesis unfolding no_line_break_def by blast
qed

lemma no_line_break_to_string_int [simp]: "no_line_break (to_string_int k)"
  using no_line_break_digits [OF to_string_nat_digits]
  by (simp add: to_string_int_def no_line_break_def)

lemma no_line_break_prefix: "pfx \<in> set register_prefixes \<Longrightarrow> no_line_break pfx"
  by (auto simp: register_prefixes_def no_line_break_def)

lemma operator_prefix_in: "operator_prefix op \<in> set register_prefixes"
  by (simp add: operator_prefix_def register_prefixes_def)

lemma operator_mnemonic_form:
  "\<exists>w. operator_mnemonic op = '' = '' @ w \<and> no_line_break w"
  by (simp add: operator_mnemonic_def no_line_break_def)

lemma destination_register:
  assumes "pfx \<in> set register_prefixes"
  shows "destination (pfx @ to_string_int k @ '' = '' @ rhs) = pfx @ to_string_int k"
proof -
  have sp: "\<not> isdigit (CHR '' '')" by (simp add: isdigit_def)
  have "\<forall>c\<in>set (to_string_nat n). c \<noteq> CHR '' ''" for n
    using to_string_nat_digits [of n] sp by blast
  then have 1: "\<forall>c\<in>set (to_string_int k). c \<noteq> CHR '' ''"
    by (simp add: to_string_int_def)
  from assms have 2: "\<forall>c\<in>set pfx. c \<noteq> CHR '' ''"
    by (auto simp: register_prefixes_def)
  from 1 2 have "\<forall>c\<in>set (pfx @ to_string_int k). c \<noteq> CHR '' ''" by auto
  then have "takeWhile (\<lambda>c. c \<noteq> CHR '' '') ((pfx @ to_string_int k) @ '' = '' @ rhs) =
      pfx @ to_string_int k"
    by (subst takeWhile_append2) auto
  then show ?thesis by (simp add: destination_def)
qed

lemma lines_from_single:
  assumes "pfx \<in> set register_prefixes" and "nl \<longrightarrow> no_line_break rhs"
  shows "lines_from nl k [pfx @ to_string_int k @ '' = '' @ rhs]"
  using assms by (simp del: append_assoc) blast

lemma in_set_butlast_twice: "x \<in> set (butlast (butlast xs)) \<Longrightarrow> x \<in> set xs"
  by (blast dest: in_set_butlastD)

lemma Visit_lines:
  assumes "Visit t g = Inr g'"
  shows "\<exists>ls. ls \<noteq> [] \<and> m_code g' = m_code g @ lines_text ls \<and>
           m_registerId g' = m_registerId g + int (length ls) \<and>
           lines_from ((\<forall>n\<in>set (names_of t). no_line_break n) \<and>
                       (\<forall>r\<in>set (m_registers g). no_line_break r)) (m_registerId g) ls \<and>
           ((\<forall>r\<in>set (m_registers g). no_line_break r) \<longrightarrow>
              (\<forall>r\<in>set (m_registers g'). no_line_break r)) \<and>
           ((\<forall>op\<in>set (operators_of t). known_operator op) \<longrightarrow>
              m_registers g' = m_registers g @ [destination (last ls)])"
  using assms
proof (induction t arbitrary: g g')
  case (VariableRefAST name)
  let ?l = "''%x'' @ to_string_int (m_registerId g) @ '' = '' @ ''%'' @ name"
  have px: "''%x'' \<in> set register_prefixes" by (simp add: register_prefixes_def)
  from VariableRefAST have g': "g' = g\<lparr>m_code := m_code g @ ?l @ ''\<newline>'',
      m_registers := m_registers g @ [''%x'' @ to_string_int (m_registerId g)],
      m_registerId := m_registerId g + 1\<rparr>"
    by (auto simp: Visit_leaf split: if_splits)
  have "lines_from ((\<forall>n\<in>set (names_of (VariableRefAST name)). no_line_break n) \<and>
      (\<forall>r\<in>set (m_registers g). no_line_break r)) (m_registerId g) [?l]"
    using px by (rule lines_from_single) simp
  moreover have "destination (last [?l]) = ''%x'' @ to_string_int (m_registerId g)"
    using destination_register [OF px, of "m_registerId g" "''%'' @ name"] by simp
  moreover have "no_line_break (''%x'' @ to_string_int (m_registerId g))"
    by (simp add: no_line_break_prefix [OF px])
  ultimately show ?case
    unfolding g' by (intro exI [of _ "[?l]"]) simp
next
  case (NumberAST v)
  let ?l = "''%x'' @ to_string_int (m_registerId g) @ '' = '' @ to_string_double v"
  have px: "''%x'' \<in> set register_prefixes" by (simp add: register_prefixes_def)
  from NumberAST have g': "g' = g\<lparr>m_code := m_code g @ ?l @ ''\<newline>'',
      m_registers := m_registers g @ [''%x'' @ to_string_int (m_registerId g)],
      m_registerId := m_registerId g + 1\<rparr>"
    by (auto simp: Visit_leaf split: if_splits)
  have "no_line_break (to_string_double v)"
    by (simp add: to_string_double_def)
  then have "lines_from ((\<forall>n\<in>set (names_of (NumberAST v)). no_line_break n) \<and>
      (\<forall>r\<in>set (m_registers g). no_line_break r)) (m_registerId g) [?l]"
    using px by (intro lines_from_single) simp_all
  moreover have "destination (last [?l]) = ''%x'' @ to_string_int (m_registerId g)"
    using destination_register [OF px, of "m_registerId g" "to_string_double v"] by simp
  moreover have "no_line_break (''%x'' @ to_string_int (m_registerId g))"
    by (simp add: no_line_break_prefix [OF px])
  ultimately show ?case
    unfolding g' by (intro exI [of _ "[?l]"]) simp
next
  case (BinaryExpressionAST left right op)
  let ?names = "\<lambda>t. \<forall>n\<in>set (names_of t). no_line_break n"
  let ?regs = "\<lambda>g. \<forall>r\<in>set (m_registers g). no_line_break r"
  let ?known = "\<lambda>t. \<forall>op\<in>set (operators_of t). known_operator op"
  from Visit_Binary [OF BinaryExpressionAST.prems] obtain g1 g2 where
    v1: "Visit left g = Inr g1" and v2: "Visit right g1 = Inr g2"
    and len: "2 \<le> length (m_registers g2)"
    and fin: "if known_operator op then
        m_registerId g2 \<noteq> INT_MAX \<and>
        g' = g2\<lparr>m_code := m_code g2 @ operator_prefix op @ to_string_int (m_registerId g2) @
                     operator_mnemonic op @ last (butlast (m_registers g2)) @ '' '' @
                     last (m_registers g2) @ ''\<newline>'',
                  m_registers := butlast (butlast (m_registers g2)) @
                     [operator_prefix op @ to_string_int (m_registerId g2)],
                  m_registerId := m_registerId g2 + 1\<rparr>
      else g' = g2\<lparr>m_registers := butlast (butlast (m_registers g2))\<rparr>"
    by blast
  from BinaryExpressionAST.IH(1) [OF v1] obtain ls1 where
    ne1: "ls1 \<noteq> []" and code1: "m_code g1 = m_code g @ lines_text ls1"
    and id1: "m_registerId g1 = m_registerId g + int (length ls1)"
    and lf1: "lines_from (?names left \<and> ?regs g) (m_registerId g) ls1"
    and regs1: "?regs g \<longrightarrow> ?regs g1"
    and st1: "?known left \<longrightarrow> m_registers g1 = m_registers g @ [destination (last ls1)]"
    by blast
  from BinaryExpressionAST.IH(2) [OF v2] obtain ls2 where
    ne2: "ls2 \<noteq> []" and code2: "m_code g2 = m_code g1 @ lines_text ls2"
    and id2: "m_registerId g2 = m_registerId g1 + int (length ls2)"
    and lf2: "lines_from (?names right \<and> ?regs g1) (m_registerId g1) ls2"
    and regs2: "?regs g1 \<longrightarrow> ?regs g2"
    and st2: "?known right \<longrightarrow> m_registers g2 = m_registers g1 @ [destination (last ls2)]"
    by blast
  let ?nl = "?names (BinaryExpressionAST left right op) \<and> ?regs g"
  from lf1 have lf1': "lines_from ?nl (m_registerId g) ls1"
    by (rule lines_from_mono) simp
  from lf2 regs1 have lf2': "lines_from ?nl (m_registerId g + int (length ls1)) ls2"
    unfolding id1 by (rule_tac lines_from_mono) auto
  from regs1 regs2 have regs12: "?regs g \<longrightarrow> ?regs g2" by blast
  show ?case
  proof (cases "known_operator op")
    case False
    with fin have g': "g' = g2\<lparr>m_registers := butlast (butlast (m_registers g2))\<rparr>" by simp
    have "?regs g \<longrightarrow> ?regs g'"
      using regs12 unfolding g' by (auto dest: in_set_butlast_twice)
    moreover from False have "?known (BinaryExpressionAST left right op) \<longrightarrow>
        m_registers g' = m_registers g @ [destination (last (ls1 @ ls2))]"
      by simp
    ultimately show ?thesis
      using ne1 code1 code2 id1 id2 lf1' lf2'
      by (intro exI [of _ "ls1 @ ls2"]) (simp add: lines_from_append g')
  next
    case True
    let ?d = "operator_prefix op @ to_string_int (m_registerId g2)"
    obtain w where w: "operator_mnemonic op = '' = '' @ w" and nw: "no_line_break w"
      using operator_mnemonic_form by blast
    let ?rhs = "w @ last (butlast (m_registers g2)) @ '' '' @ last (m_registers g2)"
    let ?l = "operator_prefix op @ to_string_int (m_registerId g2) @ '' = '' @ ?rhs"
    from True fin have g': "g' = g2\<lparr>m_code := m_code g2 @ ?l @ ''\<newline>'',
        m_registers := butlast (butlast (m_registers g2)) @ [?d],
        m_registerId := m_registerId g2 + 1\<rparr>"
      by (simp add: w)
    from len have "m_registers g2 \<noteq> []" by auto
    then have in1: "last (m_registers g2) \<in> set (m_registers g2)" by (rule last_in_set)
    from len have "length (butlast (m_registers g2)) \<noteq> 0" by simp
    then have "butlast (m_registers g2) \<noteq> []" by (simp only: length_0_conv not_False_eq_True)
    then have "last (butlast (m_registers g2)) \<in> set (butlast (m_registers g2))"
      by (rule last_in_set)
    then have in2: "last (butlast (m_registers g2)) \<in> set (m_registers g2)"
      by (rule in_set_butlastD)
    have rhs: "?nl \<longrightarrow> no_line_break ?rhs"
      using regs12 in1 in2 nw by auto
    have lf3: "lines_from ?nl (m_registerId g2) [?l]"
      using operator_prefix_in rhs by (rule lines_from_single)
    have dest: "destination (last (ls1 @ ls2 @ [?l])) = ?d"
      using destination_register [OF operator_prefix_in, of op "m_registerId g2" ?rhs] by simp
    have regs': "?regs g \<longrightarrow> ?regs g'"
      using regs12 unfolding g'
      by (auto simp: no_line_break_prefix [OF operator_prefix_in] dest: in_set_butlast_twice)
    have stack: "?known (BinaryExpressionAST left right op) \<longrightarrow>
        m_registers g' = m_registers g @ [?d]"
      using st1 st2 unfolding g' by (auto simp: butlast_append)
    show ?thesis
      using ne1 code1 code2 id1 id2 lf1' lf2' lf3 dest regs' stack
      unfolding g'
      by (intro exI [of _ "ls1 @ ls2 @ [?l]"]) (simp add: lines_from_append add.assoc)
  qed
qed

section \<open>Reading the generated text\<close>

lemma split_lines_from_no_line_break:
  "no_line_break s \<Longrightarrow> split_lines_from line s = [line @ s]"
  by (induction s arbitrary: line) simp_all

lemma split_lines_from_line:
  "no_line_break l \<Longrightarrow>
     split_lines_from line (l @ CHR 0x0A # rest) = (line @ l) # split_lines_from [] rest"
  by (induction l arbitrary: line) simp_all

lemma split_lines_no_line_break: "no_line_break s \<Longrightarrow> split_lines s = [s]"
  by (simp add: split_lines_def split_lines_from_no_line_break)

lemma split_lines_line:
  "no_line_break l \<Longrightarrow> split_lines (l @ CHR 0x0A # rest) = l # split_lines rest"
  by (simp add: split_lines_def split_lines_from_line)

lemma split_lines_lines_text:
  assumes "\<forall>l\<in>set ls. no_line_break l" and "no_line_break tail"
  shows "split_lines (lines_text ls @ tail) = ls @ [tail]"
  using assms(1)
proof (induction ls)
  case Nil
  with assms(2) show ?case by (simp add: lines_text_def split_lines_no_line_break)
next
  case (Cons l ls)
  then have "split_lines (lines_text ls @ tail) = ls @ [tail]" by simp
  moreover have "lines_text (l # ls) @ tail = l @ CHR 0x0A # (lines_text ls @ tail)"
    by (simp add: lines_text_def)
  moreover from Cons.prems have "no_line_break l" by simp
  ultimately show ?case by (simp add: split_lines_line)
qed

lemma lines_text_end: "lines_text ls = [] \<or> last (lines_text ls) = CHR 0x0A"
  by (induction ls rule: rev_induct) (simp_all add: lines_text_def)

lemma lines_from_no_line_break:
  "lines_from True k ls \<Longrightarrow> \<forall>l\<in>set ls. no_line_break l"
proof (induction ls arbitrary: k)
  case Nil
  show ?case by simp
next
  case (Cons l ls)
  from Cons.prems obtain pfx rhs where "pfx \<in> set register_prefixes"
    and "l = pfx @ to_string_int k @ '' = '' @ rhs" and "no_line_break rhs"
    and rest: "lines_from True (k + 1) ls"
    by auto
  then have "no_line_break l" by (simp add: no_line_break_prefix)
  with Cons.IH [OF rest] show ?case by simp
qed

lemma numeric_suffix_register:
  assumes "pfx \<in> set register_prefixes"
  shows "numeric_suffix (pfx @ to_string_nat n) = to_string_nat n"
proof -
  have nd: "\<not> isdigit (CHR ''x'')" "\<not> isdigit (CHR ''p'')" by (simp_all add: isdigit_def)
  from assms have "takeWhile isdigit (rev pfx) = []"
    using nd by (auto simp: register_prefixes_def)
  moreover have "\<forall>c\<in>set (rev (to_string_nat n)). isdigit c"
    using to_string_nat_digits [of n] by simp
  ultimately have "takeWhile isdigit (rev (to_string_nat n) @ rev pfx) = rev (to_string_nat n)"
    by (subst takeWhile_append2) simp_all
  then show ?thesis by (simp add: numeric_suffix_def)
qed

lemma lines_from_destinations:
  "lines_from nl (int m) ls \<Longrightarrow>
     map (numeric_suffix \<circ> destination) ls = map to_string_nat [m..<m + length ls] \<and>
     (\<forall>l\<in>set ls. \<exists>pfx\<in>set register_prefixes. destination l = pfx @ numeric_suffix (destination l))"
proof (induction ls arbitrary: m)
  case Nil
  show ?case by simp
next
  case (Cons l ls)
  from Cons.prems obtain pfx rhs where pfx: "pfx \<in> set register_prefixes"
    and l: "l = pfx @ to_string_int (int m) @ '' = '' @ rhs"
    and rest: "lines_from nl (int m + 1) ls"
    by auto
  from rest have "lines_from nl (int (Suc m)) ls" by (simp add: add.commute)
  note IH = Cons.IH [OF this]
  from destination_register [OF pfx, of "int m" rhs] l
  have d: "destination l = pfx @ to_string_nat m" by (simp add: to_string_int_def)
  with numeric_suffix_register [OF pfx, of m]
  have n: "numeric_suffix (destination l) = to_string_nat m" by simp
  have "[m..<m + length (l # ls)] = m # [Suc m..<Suc m + length ls]"
    by (simp add: upt_rec)
  with IH d n pfx show ?case by auto
qed

lemma lines_from_last:
  assumes "lines_from nl k ls" and "ls \<noteq> []"
  shows "\<exists>pfx rhs. pfx \<in> set register_prefixes \<and>
           last ls = pfx @ to_string_int (k + int (length ls - 1)) @ '' = '' @ rhs \<and>
           (nl \<longrightarrow> no_line_break rhs)"
proof -
  from assms(2) have "ls = butlast ls @ [last ls]" by simp
  with assms(1) have "lines_from nl k (butlast ls @ [last ls])" by simp
  then have "lines_from nl (k + int (length (butlast ls))) [last ls]"
    by (simp only: lines_from_append)
  then show ?thesis by simp
qed

lemma distinct_destinations:
  assumes "map (numeric_suffix \<circ> destination) ls = map to_string_nat [m..<m + length ls]"
  shows "distinct (map destination ls)"
proof -
  have "inj_on to_string_nat (set [m..<m + length ls])"
    by (rule inj_onI) (rule to_string_nat_inj)
  then have "distinct (map to_string_nat [m..<m + length ls])"
    by (simp add: distinct_map)
  with assms have "distinct (map numeric_suffix (map destination ls))" by simp
  then show ?thesis by (simp only: distinct_map)
qed

lemma Generate_fresh:
  assumes "Generate root SimpleCodeGenerator_new = Inr (code, g)"
  shows "\<exists>g1 ls. Visit root SimpleCodeGenerator_new = Inr g1 \<and> ls \<noteq> [] \<and>
           m_code g1 = lines_text ls \<and>
           m_registerId g1 = 1 + int (length ls) \<and>
           lines_from (\<forall>n\<in>set (names_of root). no_line_break n) 1 ls \<and>
           m_registers g1 = [destination (last ls)] \<and>
           no_line_break (destination (last ls)) \<and>
           (\<forall>op\<in>set (operators_of root). known_operator op) \<and>
           code = lines_text ls @ ''%result = '' @ destination (last ls) \<and>
           g = g1\<lparr>m_code := code\<rparr>"
proof -
  from assms obtain g1 where v: "Visit root SimpleCodeGenerator_new = Inr g1"
    and ne: "m_registers g1 \<noteq> []"
    and code: "code = m_code g1 @ ''%result = '' @ last (m_registers g1)"
    and g: "g = g1\<lparr>m_code := code\<rparr>"
    by (auto simp: Generate_def Let_def split: sum.splits if_splits)
  let ?unknown = "filter (\<lambda>op. \<not> known_operator op) (operators_of root)"
  from Visit_stack_size [OF v]
  have "int (length (m_registers g1)) = 1 - int (length ?unknown)"
    by (simp add: SimpleCodeGenerator_new_def)
  moreover from ne have "1 \<le> int (length (m_registers g1))"
    by (cases "m_registers g1") simp_all
  ultimately have "length ?unknown = 0" by linarith
  then have "?unknown = []" by (simp only: length_0_conv)
  then have known: "\<forall>op\<in>set (operators_of root). known_operator op"
    by (simp add: filter_empty_conv)
  from Visit_lines [OF v] known obtain ls where ls: "ls \<noteq> []"
    and c: "m_code g1 = lines_text ls"
    and i: "m_registerId g1 = 1 + int (length ls)"
    and lf: "lines_from (\<forall>n\<in>set (names_of root). no_line_break n) 1 ls"
    and regs: "\<forall>r\<in>set (m_registers g1). no_line_break r"
    and st: "m_registers g1 = [destination (last ls)]"
    by (auto simp: SimpleCodeGenerator_new_def)
  from regs st have "no_line_break (destination (last ls))" by simp
  with v ls c i lf st known code g show ?thesis by auto
qed

text \<open>
  Claim C4. In the text that \<^verbatim>\<open>Generate\<close> returns, the numbers at the end of the
  destination registers of the instruction lines are 1, 2, 3, ... in the order of the
  lines, with no gap and no repeat: one counter, starting at 1, is incremented once for
  each line written, whatever the register's prefix. So every register name is the
  destination of one line only. The lines are read from the text; the names of the
  variables are taken to hold no line break, as the identifiers of the lexer do.
\<close>

theorem C4_register_ids_count_up:
  assumes "Generate root SimpleCodeGenerator_new = Inr (code, g)"
    and "\<forall>n\<in>set (names_of root). no_line_break n"
  shows "map (numeric_suffix \<circ> destination) (butlast (split_lines code)) =
           map to_string_nat [1..<length (split_lines code)] \<and>
         (\<forall>l\<in>set (butlast (split_lines code)).
            \<exists>pfx\<in>set register_prefixes. destination l = pfx @ numeric_suffix (destination l)) \<and>
         distinct (map destination (butlast (split_lines code))) \<and>
         m_registerId g = int (length (split_lines code))"
proof -
  from Generate_fresh [OF assms(1)] assms(2) obtain g1 ls where ne: "ls \<noteq> []"
    and i: "m_registerId g1 = 1 + int (length ls)"
    and lf: "lines_from True 1 ls"
    and nb: "no_line_break (destination (last ls))"
    and code: "code = lines_text ls @ ''%result = '' @ destination (last ls)"
    and g: "g = g1\<lparr>m_code := code\<rparr>"
    by auto
  from lines_from_no_line_break [OF lf] nb
  have "split_lines code = ls @ [''%result = '' @ destination (last ls)]"
    unfolding code by (intro split_lines_lines_text) simp_all
  then have sl: "butlast (split_lines code) = ls" "length (split_lines code) = Suc (length ls)"
    by simp_all
  from lf have "lines_from True (int 1) ls" by simp
  from lines_from_destinations [OF this]
  have m: "map (numeric_suffix \<circ> destination) ls = map to_string_nat [1..<1 + length ls]"
    and p: "\<forall>l\<in>set ls. \<exists>pfx\<in>set register_prefixes.
        destination l = pfx @ numeric_suffix (destination l)"
    by simp_all
  from distinct_destinations [OF m] have "distinct (map destination ls)" .
  with m p i g show ?thesis unfolding sl by simp
qed

theorem C4_register_ids_count_up_witness:
  "Generate (BinaryExpressionAST (BinaryExpressionAST (NumberAST 1) (VariableRefAST ''a'') (CHR ''+''))
       (NumberAST 3) (CHR ''/'')) SimpleCodeGenerator_new =
     Inr (''%x1 = 1.000000\<newline>'' @ ''%x2 = %a\<newline>'' @ ''%addtmp3 = add %x1 %x2\<newline>'' @
          ''%x4 = 3.000000\<newline>'' @ ''%divtmp5 = div %addtmp3 %x4\<newline>'' @ ''%result = %divtmp5'',
          \<lparr>m_code = ''%x1 = 1.000000\<newline>'' @ ''%x2 = %a\<newline>'' @
             ''%addtmp3 = add %x1 %x2\<newline>'' @ ''%x4 = 3.000000\<newline>'' @
             ''%divtmp5 = div %addtmp3 %x4\<newline>'' @ ''%result = %divtmp5'',
           m_registers = [''%divtmp5''], m_registerId = 6\<rparr>) \<and>
   map (numeric_suffix \<circ> destination)
     (butlast (split_lines (''%x1 = 1.000000\<newline>'' @ ''%x2 = %a\<newline>'' @
        ''%addtmp3 = add %x1 %x2\<newline>'' @ ''%x4 = 3.000000\<newline>'' @
        ''%divtmp5 = div %addtmp3 %x4\<newline>'' @ ''%result = %divtmp5''))) =
     [''1'', ''2'', ''3'', ''4'', ''5''] \<and>
   distinct (map destination
     (butlast (split_lines (''%x1 = 1.000000\<newline>'' @ ''%x2 = %a\<newline>'' @
        ''%addtmp3 = add %x1 %x2\<newline>'' @ ''%x4 = 3.000000\<newline>'' @
        ''%divtmp5 = div %addtmp3 %x4\<newline>'' @ ''%result = %divtmp5''))))"
proof -
  let ?root = "BinaryExpressionAST (BinaryExpressionAST (NumberAST 1) (VariableRefAST ''a'') (CHR ''+''))
       (NumberAST 3) (CHR ''/'')"
  let ?code = "''%x1 = 1.000000\<newline>'' @ ''%x2 = %a\<newline>'' @ ''%addtmp3 = add %x1 %x2\<newline>'' @
          ''%x4 = 3.000000\<newline>'' @ ''%divtmp5 = div %addtmp3 %x4\<newline>'' @ ''%result = %divtmp5''"
  have gen: "Generate ?root SimpleCodeGenerator_new =
      Inr (?code, \<lparr>m_code = ?code, m_registers = [''%divtmp5''], m_registerId = 6\<rparr>)"
    by code_simp
  have names: "\<forall>n\<in>set (names_of ?root). no_line_break n"
    by (simp add: no_line_break_def)
  have ns: "map to_string_nat [1..<length (split_lines ?code)] = [''1'', ''2'', ''3'', ''4'', ''5'']"
    by code_simp
  note c = C4_register_ids_count_up [OF gen names]
  from c have "map (numeric_suffix \<circ> destination) (butlast (split_lines ?code)) =
      map to_string_nat [1..<length (split_lines ?code)]" by (rule conjunct1)
  then have 1: "map (numeric_suffix \<circ> destination) (butlast (split_lines ?code)) =
      [''1'', ''2'', ''3'', ''4'', ''5'']" by (rule trans) (rule ns)
  from c have 2: "distinct (map destination (butlast (split_lines ?code)))" by blast
  show ?thesis by (rule conjI [OF gen conjI [OF 1 2]])
qed

text \<open>
  Claim C6, amended. The text that \<^verbatim>\<open>Generate\<close> returns ends with \<^verbatim>\<open>%result = R\<close>, with
  no line break after it, where \<^verbatim>\<open>R\<close> is the destination of the last instruction line
  written before it; and when \<^verbatim>\<open>Generate\<close> returns, the stack of the generator holds the
  one register name \<^verbatim>\<open>R\<close>.
\<close>

theorem C6_result_names_last_register:
  assumes "Generate root SimpleCodeGenerator_new = Inr (code, g)"
  shows "\<exists>R body rhs.
           m_registers g = [R] \<and> m_code g = code \<and> no_line_break R \<and>
           code = body @ R @ '' = '' @ rhs @ ''\<newline>'' @ ''%result = '' @ R \<and>
           (body = [] \<or> last body = CHR 0x0A) \<and>
           ((\<forall>n\<in>set (names_of root). no_line_break n) \<longrightarrow> no_line_break rhs)"
proof -
  let ?nl = "\<forall>n\<in>set (names_of root). no_line_break n"
  from Generate_fresh [OF assms] obtain g1 ls where ne: "ls \<noteq> []"
    and lf: "lines_from ?nl 1 ls"
    and st: "m_registers g1 = [destination (last ls)]"
    and nb: "no_line_break (destination (last ls))"
    and code: "code = lines_text ls @ ''%result = '' @ destination (last ls)"
    and g: "g = g1\<lparr>m_code := code\<rparr>"
    by auto
  from lines_from_last [OF lf ne] obtain pfx rhs where pfx: "pfx \<in> set register_prefixes"
    and l: "last ls = pfx @ to_string_int (1 + int (length ls - 1)) @ '' = '' @ rhs"
    and r: "?nl \<longrightarrow> no_line_break rhs"
    by blast
  let ?R = "pfx @ to_string_int (1 + int (length ls - 1))"
  from destination_register [OF pfx, of "1 + int (length ls - 1)" rhs] l
  have d: "destination (last ls) = ?R" by simp
  from ne have "lines_text ls = lines_text (butlast ls) @ last ls @ [CHR 0x0A]"
    using lines_text_append [of "butlast ls" "[last ls]"] by simp
  with l have "code = lines_text (butlast ls) @ ?R @ '' = '' @ rhs @ ''\<newline>'' @ ''%result = '' @ ?R"
    unfolding code d by simp
  with st nb g r d lines_text_end [of "butlast ls"] show ?thesis
    by (intro exI [of _ ?R] exI [of _ "lines_text (butlast ls)"] exI [of _ rhs]) simp
qed

theorem C6_result_names_last_register_witness:
  "\<exists>R body rhs.
     m_registers \<lparr>m_code = ''%x1 = %a\<newline>'' @ ''%x2 = 2.000000\<newline>'' @
         ''%subtmp3 = sub %x1 %x2\<newline>'' @ ''%result = %subtmp3'',
       m_registers = [''%subtmp3''], m_registerId = 4\<rparr> = [R] \<and>
     ''%x1 = %a\<newline>'' @ ''%x2 = 2.000000\<newline>'' @ ''%subtmp3 = sub %x1 %x2\<newline>'' @
       ''%result = %subtmp3'' =
     body @ R @ '' = '' @ rhs @ ''\<newline>'' @ ''%result = '' @ R"
proof -
  let ?root = "BinaryExpressionAST (VariableRefAST ''a'') (NumberAST 2) (CHR ''-'')"
  let ?code = "''%x1 = %a\<newline>'' @ ''%x2 = 2.000000\<newline>'' @ ''%subtmp3 = sub %x1 %x2\<newline>'' @
      ''%result = %subtmp3''"
  have gen: "Generate ?root SimpleCodeGenerator_new =
      Inr (?code, \<lparr>m_code = ?code, m_registers = [''%subtmp3''], m_registerId = 4\<rparr>)"
    by code_simp
  from C6_result_names_last_register [OF gen] show ?thesis by blast
qed

text \<open>
  Claim C2 says that a line holding one numeric literal gives two lines, the first
  loading the decimal value of the literal with six digits after the point. The parser
  converts the literal with \<^verbatim>\<open>std::stoi\<close>, which stops at the point: for \<^verbatim>\<open>1.5\<close> the
  value loaded is \<^verbatim>\<open>1.000000\<close>.
\<close>

theorem C2_fraction_dropped:
  "translate_line ''1.5'' = Inr (''%x1 = 1.000000\<newline>'' @ ''%result = %x1'')"
  by code_simp

text \<open>
  Claim C6 says that the text returned by \<^verbatim>\<open>Generate\<close> ends with a line break after the
  \<^verbatim>\<open>%result\<close> line. \<^verbatim>\<open>Generate\<close> appends \<^verbatim>\<open>"%result = "\<close> and the register and
  nothing else; \<^verbatim>\<open>main\<close> writes the line break.
\<close>

theorem C6_no_final_line_break_counterexample:
  "Generate (NumberAST 1) SimpleCodeGenerator_new =
     Inr (''%x1 = 1.000000\<newline>'' @ ''%result = %x1'',
          \<lparr>m_code = ''%x1 = 1.000000\<newline>'' @ ''%result = %x1'',
           m_registers = [''%x1''], m_registerId = 2\<rparr>) \<and>
   last (''%x1 = 1.000000\<newline>'' @ ''%result = %x1'') \<noteq> CHR 0x0A"
  by code_simp

section \<open>The loop of main\<close>

text \<open>What \<^verbatim>\<open>main\<close> writes for a line, after the prompt.\<close>

definition answer :: "string \<Rightarrow> written" where
  "answer line =
     (case translate_line line of
        Inr code \<Rightarrow> Stdout (code @ ''\<newline>'')
      | Inl e \<Rightarrow> Stderr ''invalid expression\<newline>'')"

lemma main_loop_last_line:
  "main_loop (before @ [line]) out = Inr w \<Longrightarrow>
     \<exists>w0. w = w0 @ [Stdout ''>>> '', answer line, Stdout ''>>> '']"
proof (induction before arbitrary: out)
  case Nil
  then show ?case
    by (auto simp: answer_def split: sum.splits if_splits)
next
  case (Cons l ls)
  from Cons.prems obtain out' where "main_loop (ls @ [line]) out' = Inr w"
    by (auto split: sum.splits if_splits)
  from Cons.IH [OF this] show ?case .
qed

text \<open>
  Claim C9. The pipeline is deterministic: every round of the loop of \<^verbatim>\<open>main\<close> makes a
  new lexer, parser and generator, so what is written for a line depends on the line
  only. In two runs that end with the same line, whatever the lines read before it and
  whatever was written before, the last things written (the prompt, the answer to the
  line, the prompt again) are the same: the same IR text, or the same error message.
\<close>

theorem C9_same_line_same_answer:
  assumes "main_loop (before1 @ [line]) out1 = Inr w1"
    and "main_loop (before2 @ [line]) out2 = Inr w2"
  shows "drop (length w1 - 3) w1 = drop (length w2 - 3) w2 \<and>
         drop (length w1 - 3) w1 =
           [Stdout ''>>> '',
            (case translate_line line of
               Inr code \<Rightarrow> Stdout (code @ ''\<newline>'')
             | Inl e \<Rightarrow> Stderr ''invalid expression\<newline>''),
            Stdout ''>>> '']"
proof -
  from main_loop_last_line [OF assms(1)] obtain v1 where
    "w1 = v1 @ [Stdout ''>>> '', answer line, Stdout ''>>> '']" by blast
  then have 1: "drop (length w1 - 3) w1 = [Stdout ''>>> '', answer line, Stdout ''>>> '']"
    by simp
  from main_loop_last_line [OF assms(2)] obtain v2 where
    "w2 = v2 @ [Stdout ''>>> '', answer line, Stdout ''>>> '']" by blast
  then have 2: "drop (length w2 - 3) w2 = [Stdout ''>>> '', answer line, Stdout ''>>> '']"
    by simp
  from 1 2 show ?thesis by (simp add: answer_def)
qed

theorem C9_same_line_same_answer_witness:
  "main_loop [''1 + 2''] [] =
     Inr [Stdout ''>>> '',
          Stdout (''%x1 = 1.000000\<newline>'' @ ''%x2 = 2.000000\<newline>'' @
                  ''%addtmp3 = add %x1 %x2\<newline>'' @ ''%result = %addtmp3\<newline>''),
          Stdout ''>>> ''] \<and>
   main_loop [''x'', ''1 +'', ''1 + 2''] [] =
     Inr [Stdout ''>>> '', Stdout (''%x1 = %x\<newline>'' @ ''%result = %x1\<newline>''),
          Stdout ''>>> '', Stderr ''invalid expression\<newline>'',
          Stdout ''>>> '',
          Stdout (''%x1 = 1.000000\<newline>'' @ ''%x2 = 2.000000\<newline>'' @
                  ''%addtmp3 = add %x1 %x2\<newline>'' @ ''%result = %addtmp3\<newline>''),
          Stdout ''>>> ''] \<and>
   drop (length [Stdout ''>>> '',
          Stdout (''%x1 = 1.000000\<newline>'' @ ''%x2 = 2.000000\<newline>'' @
                  ''%addtmp3 = add %x1 %x2\<newline>'' @ ''%result = %addtmp3\<newline>''),
          Stdout ''>>> ''] - 3)
     [Stdout ''>>> '',
          Stdout (''%x1 = 1.000000\<newline>'' @ ''%x2 = 2.000000\<newline>'' @
                  ''%addtmp3 = add %x1 %x2\<newline>'' @ ''%result = %addtmp3\<newline>''),
          Stdout ''>>> ''] =
   drop (length [Stdout ''>>> '', Stdout (''%x1 = %x\<newline>'' @ ''%result = %x1\<newline>''),
          Stdout ''>>> '', Stderr ''invalid expression\<newline>'',
          Stdout ''>>> '',
          Stdout (''%x1 = 1.000000\<newline>'' @ ''%x2 = 2.000000\<newline>'' @
                  ''%addtmp3 = add %x1 %x2\<newline>'' @ ''%result = %addtmp3\<newline>''),
          Stdout ''>>> ''] - 3)
     [Stdout ''>>> '', Stdout (''%x1 = %x\<newline>'' @ ''%result = %x1\<newline>''),
          Stdout ''>>> '', Stderr ''invalid expression\<newline>'',
          Stdout ''>>> '',
          Stdout (''%x1 = 1.000000\<newline>'' @ ''%x2 = 2.000000\<newline>'' @
                  ''%addtmp3 = add %x1 %x2\<newline>'' @ ''%result = %addtmp3\<newline>''),
          Stdout ''>>> '']"
proof -
  have 1: "main_loop ([] @ [''1 + 2'']) [] =
     Inr [Stdout ''>>> '',
          Stdout (''%x1 = 1.000000\<newline>'' @ ''%x2 = 2.000000\<newline>'' @
                  ''%addtmp3 = add %x1 %x2\<newline>'' @ ''%result = %addtmp3\<newline>''),
          Stdout ''>>> '']"
    by code_simp
  have 2: "main_loop ([''x'', ''1 +''] @ [''1 + 2'']) [] =
     Inr [Stdout ''>>> '', Stdout (''%x1 = %x\<newline>'' @ ''%result = %x1\<newline>''),
          Stdout ''>>> '', Stderr ''invalid expression\<newline>'',
          Stdout ''>>> '',
          Stdout (''%x1 = 1.000000\<newline>'' @ ''%x2 = 2.000000\<newline>'' @
                  ''%addtmp3 = add %x1 %x2\<newline>'' @ ''%result = %addtmp3\<newline>''),
          Stdout ''>>> '']"
    by code_simp
  from C9_same_line_same_answer [OF 1 2] have 3: "drop (length [Stdout ''>>> '',
          Stdout (''%x1 = 1.000000\<newline>'' @ ''%x2 = 2.000000\<newline>'' @
                  ''%addtmp3 = add %x1 %x2\<newline>'' @ ''%result = %addtmp3\<newline>''),
          Stdout ''>>> ''] - 3)
     [Stdout ''>>> '',
          Stdout (''%x1 = 1.000000\<newline>'' @ ''%x2 = 2.000000\<newline>'' @
                  ''%addtmp3 = add %x1 %x2\<newline>'' @ ''%result = %addtmp3\<newline>''),
          Stdout ''>>> ''] =
   drop (length [Stdout ''>>> '', Stdout (''%x1 = %x\<newline>'' @ ''%result = %x1\<newline>''),
          Stdout ''>>> '', Stderr ''invalid expression\<newline>'',
          Stdout ''>>> '',
          Stdout (''%x1 = 1.000000\<newline>'' @ ''%x2 = 2.000000\<newline>'' @
                  ''%addtmp3 = add %x1 %x2\<newline>'' @ ''%result = %addtmp3\<newline>''),
          Stdout ''>>> ''] - 3)
     [Stdout ''>>> '', Stdout (''%x1 = %x\<newline>'' @ ''%result = %x1\<newline>''),
          Stdout ''>>> '', Stderr ''invalid expression\<newline>'',
          Stdout ''>>> '',
          Stdout (''%x1 = 1.000000\<newline>'' @ ''%x2 = 2.000000\<newline>'' @
                  ''%addtmp3 = add %x1 %x2\<newline>'' @ ''%result = %addtmp3\<newline>''),
          Stdout ''>>> '']"
    by (rule conjunct1)
  from 1 2 have e1: "main_loop [''1 + 2''] [] =
     Inr [Stdout ''>>> '',
          Stdout (''%x1 = 1.000000\<newline>'' @ ''%x2 = 2.000000\<newline>'' @
                  ''%addtmp3 = add %x1 %x2\<newline>'' @ ''%result = %addtmp3\<newline>''),
          Stdout ''>>> '']"
    and e2: "main_loop [''x'', ''1 +'', ''1 + 2''] [] =
     Inr [Stdout ''>>> '', Stdout (''%x1 = %x\<newline>'' @ ''%result = %x1\<newline>''),
          Stdout ''>>> '', Stderr ''invalid expression\<newline>'',
          Stdout ''>>> '',
          Stdout (''%x1 = 1.000000\<newline>'' @ ''%x2 = 2.000000\<newline>'' @
                  ''%addtmp3 = add %x1 %x2\<newline>'' @ ''%result = %addtmp3\<newline>''),
          Stdout ''>>> '']"
    by (simp_all only: append_Nil append_Cons)
  show ?thesis by (rule conjI [OF e1 conjI [OF e2 3]])
qed

section \<open>Text after the text\<close>

text \<open>
  A character that ends a number and an identifier: neither a digit, nor a point, nor a
  character of identifiers.
\<close>

definition separator :: "char \<Rightarrow> bool" where
  "separator c \<longleftrightarrow> \<not> isdigit c \<and> c \<noteq> CHR ''.'' \<and> \<not> ident_char c"

lemma takeWhile_append_stop:
  assumes "ys \<noteq> []" and "\<not> P (hd ys)"
  shows "takeWhile P (xs @ ys) = takeWhile P xs"
  using assms by (induction xs) (auto simp: takeWhile_eq_Nil_iff)

lemma dropWhile_append_stop:
  assumes "ys \<noteq> []" and "\<not> P (hd ys)"
  shows "dropWhile P (xs @ ys) = dropWhile P xs @ ys"
proof (induction xs)
  case Nil
  from assms show ?case by (cases ys) auto
next
  case (Cons x xs)
  then show ?case by simp
qed

lemma number_prefix_extend:
  assumes "extra \<noteq> []" and "separator (hd extra)"
  shows "number_prefix (r @ extra) = number_prefix r"
proof -
  from assms(2) have nd: "\<not> isdigit (hd extra)" and np: "hd extra \<noteq> CHR ''.''"
    by (simp_all add: separator_def)
  note tw = takeWhile_append_stop [where P = isdigit, OF assms(1) nd]
  note dw = dropWhile_append_stop [where P = isdigit, OF assms(1) nd]
  show ?thesis
  proof (cases "dropWhile isdigit r")
    case Nil
    have "number_prefix (r @ extra) = takeWhile isdigit r"
      unfolding number_prefix_def Let_def tw dw Nil using np assms(1) by simp
    moreover have "number_prefix r = takeWhile isdigit r"
      unfolding number_prefix_def Let_def Nil by simp
    ultimately show ?thesis by simp
  next
    case (Cons c r1)
    show ?thesis
      unfolding number_prefix_def Let_def tw dw Cons by (simp add: tw)
  qed
qed

lemma first_token_consumed: "first_token s = Inr (t, k) \<Longrightarrow> k \<le> length s"
proof -
  assume a: "first_token s = Inr (t, k)"
  let ?ws = "takeWhile isspace s"
  let ?r = "dropWhile isspace s"
  have len: "length s = length ?ws + length ?r"
    by (metis length_append takeWhile_dropWhile_id)
  have np: "length (number_prefix ?r) \<le> length ?r"
  proof -
    let ?ds = "takeWhile isdigit ?r"
    let ?r1 = "dropWhile isdigit ?r"
    have l1: "length ?r = length ?ds + length ?r1"
      by (metis length_append takeWhile_dropWhile_id)
    have "length (takeWhile isdigit (tl ?r1)) \<le> length (tl ?r1)"
      by (rule length_takeWhile_le)
    then show ?thesis
      unfolding number_prefix_def Let_def using l1 by (cases ?r1) auto
  qed
  have ip: "length (takeWhile ident_char ?r) \<le> length ?r"
    by (rule length_takeWhile_le)
  show ?thesis
  proof (cases ?r)
    case Nil
    with a len show ?thesis by (auto simp: first_token_def Let_def)
  next
    case (Cons c r')
    with a len np ip show ?thesis
      by (auto simp: first_token_def Let_def split: if_splits)
  qed
qed

lemma first_token_extend:
  assumes "extra \<noteq> []" and "separator (hd extra)"
  shows "first_token (s @ extra) =
     (case first_token s of
        Inl e \<Rightarrow> Inl e
      | Inr (t, k) \<Rightarrow>
          if tok_type t = EndOfFile then
            (case first_token extra of
               Inl (j, c) \<Rightarrow> Inl (length s + j, c)
             | Inr (t', j) \<Rightarrow> Inr (t', length s + j))
          else Inr (t, k))"
proof (cases "dropWhile isspace s")
  case Nil
  then have all: "\<forall>c\<in>set s. isspace c" by simp
  then have tw: "takeWhile isspace (s @ extra) = s @ takeWhile isspace extra"
    and dw: "dropWhile isspace (s @ extra) = dropWhile isspace extra"
    by (simp_all add: takeWhile_append2 dropWhile_append2)
  from all have tws: "takeWhile isspace s = s" by simp
  have 1: "first_token s = Inr (\<lparr>tok_type = EndOfFile, tok_value = None\<rparr>, length s)"
    unfolding first_token_def Let_def Nil tws by simp
  have 2: "first_token (s @ extra) =
      (case first_token (dropWhile isspace (s @ extra)) of
         Inl (k, ch) \<Rightarrow> Inl (length (takeWhile isspace (s @ extra)) + k, ch)
       | Inr (t, k) \<Rightarrow> Inr (t, length (takeWhile isspace (s @ extra)) + k))"
    by (rule first_token_space)
  have 3: "first_token extra =
      (case first_token (dropWhile isspace extra) of
         Inl (k, ch) \<Rightarrow> Inl (length (takeWhile isspace extra) + k, ch)
       | Inr (t, k) \<Rightarrow> Inr (t, length (takeWhile isspace extra) + k))"
    by (rule first_token_space)
  show ?thesis
    unfolding 1 2 tw dw by (subst 3) (auto split: sum.splits)
next
  case (Cons c r')
  then have nsp: "\<not> isspace c"
    using hd_dropWhile [of isspace s] by auto
  from Cons have "c \<in> set s"
    by (metis list.set_intros(1) set_dropWhileD)
  with nsp have tw: "takeWhile isspace (s @ extra) = takeWhile isspace s"
    and dw: "dropWhile isspace (s @ extra) = (c # r') @ extra"
    using Cons by (simp_all add: takeWhile_append1 dropWhile_append1)
  from assms(2) have ni: "\<not> ident_char (hd extra)" by (simp add: separator_def)
  note ti = takeWhile_append_stop [where P = ident_char and xs = "c # r'", OF assms(1) ni]
  note nx = number_prefix_extend [OF assms, of "c # r'"]
  have a: "first_token (s @ extra) =
     (if isdigit c then
        Inr (\<lparr>tok_type = Number, tok_value = Some (number_prefix (c # r'))\<rparr>,
             length (takeWhile isspace s) + length (number_prefix (c # r')))
      else if isalpha c then
        Inr (\<lparr>tok_type = Identifier, tok_value = Some (takeWhile ident_char (c # r'))\<rparr>,
             length (takeWhile isspace s) + length (takeWhile ident_char (c # r')))
      else if c = CHR ''+'' then Inr (\<lparr>tok_type = Plus, tok_value = None\<rparr>, length (takeWhile isspace s) + 1)
      else if c = CHR ''-'' then Inr (\<lparr>tok_type = Minus, tok_value = None\<rparr>, length (takeWhile isspace s) + 1)
      else if c = CHR ''*'' then Inr (\<lparr>tok_type = Mul, tok_value = None\<rparr>, length (takeWhile isspace s) + 1)
      else if c = CHR ''/'' then Inr (\<lparr>tok_type = Div, tok_value = None\<rparr>, length (takeWhile isspace s) + 1)
      else if c = CHR ''('' then Inr (\<lparr>tok_type = LeftParen, tok_value = None\<rparr>, length (takeWhile isspace s) + 1)
      else if c = CHR '')'' then Inr (\<lparr>tok_type = RightParen, tok_value = None\<rparr>, length (takeWhile isspace s) + 1)
      else Inl (length (takeWhile isspace s), c))"
    unfolding first_token_def [of "s @ extra"] Let_def tw dw
    using ti nx by simp
  have b: "first_token s =
     (if isdigit c then
        Inr (\<lparr>tok_type = Number, tok_value = Some (number_prefix (c # r'))\<rparr>,
             length (takeWhile isspace s) + length (number_prefix (c # r')))
      else if isalpha c then
        Inr (\<lparr>tok_type = Identifier, tok_value = Some (takeWhile ident_char (c # r'))\<rparr>,
             length (takeWhile isspace s) + length (takeWhile ident_char (c # r')))
      else if c = CHR ''+'' then Inr (\<lparr>tok_type = Plus, tok_value = None\<rparr>, length (takeWhile isspace s) + 1)
      else if c = CHR ''-'' then Inr (\<lparr>tok_type = Minus, tok_value = None\<rparr>, length (takeWhile isspace s) + 1)
      else if c = CHR ''*'' then Inr (\<lparr>tok_type = Mul, tok_value = None\<rparr>, length (takeWhile isspace s) + 1)
      else if c = CHR ''/'' then Inr (\<lparr>tok_type = Div, tok_value = None\<rparr>, length (takeWhile isspace s) + 1)
      else if c = CHR ''('' then Inr (\<lparr>tok_type = LeftParen, tok_value = None\<rparr>, length (takeWhile isspace s) + 1)
      else if c = CHR '')'' then Inr (\<lparr>tok_type = RightParen, tok_value = None\<rparr>, length (takeWhile isspace s) + 1)
      else Inl (length (takeWhile isspace s), c))"
    unfolding first_token_def [of s] Let_def Cons by simp
  show ?thesis unfolding a b by simp
qed

text \<open>
  Two lexers, the second reading the text of the first followed by \<open>extra\<close>; and two
  parsers on such lexers. When the first parser has come to the end of its text, the
  second one has the first token of \<open>extra\<close> as its current token.
\<close>

definition lexer_extends :: "string \<Rightarrow> Lexer \<Rightarrow> Lexer \<Rightarrow> bool" where
  "lexer_extends extra lx lx' \<longleftrightarrow>
     drop (m_pos lx') (m_text lx') = drop (m_pos lx) (m_text lx) @ extra"

definition parser_extends :: "string \<Rightarrow> Parser \<Rightarrow> Parser \<Rightarrow> bool" where
  "parser_extends extra p q \<longleftrightarrow>
     (if tok_type (m_token p) = EndOfFile
      then \<exists>j. first_token extra = Inr (m_token q, j)
      else m_token q = m_token p \<and> lexer_extends extra (m_lexer p) (m_lexer q))"

lemma GetNextToken_extends:
  assumes ne: "extra \<noteq> []" and sep: "separator (hd extra)"
    and ft: "first_token extra = Inr (T, j)"
    and ext: "lexer_extends extra lx lx'"
    and tok: "GetNextToken lx = Inr (t, lx1)"
  shows "\<exists>t' lx1'. GetNextToken lx' = Inr (t', lx1') \<and>
           (if tok_type t = EndOfFile then t' = T
            else t' = t \<and> lexer_extends extra lx1 lx1')"
proof -
  let ?s = "drop (m_pos lx) (m_text lx)"
  from tok obtain k where fs: "first_token ?s = Inr (t, k)"
    and lx1: "lx1 = lx\<lparr>m_pos := m_pos lx + k\<rparr>"
    by (auto simp: GetNextToken_eq token_at_def split: sum.splits)
  from ext have s': "drop (m_pos lx') (m_text lx') = ?s @ extra"
    by (simp add: lexer_extends_def)
  note fe = first_token_extend [OF ne sep, of ?s]
  show ?thesis
  proof (cases "tok_type t = EndOfFile")
    case True
    with fe fs ft have "first_token (?s @ extra) = Inr (T, length ?s + j)" by simp
    with True show ?thesis
      by (simp add: GetNextToken_eq s' token_at_def)
  next
    case False
    with fe fs have f': "first_token (?s @ extra) = Inr (t, k)" by simp
    from first_token_consumed [OF fs] have "k \<le> length ?s" .
    then have "drop k (?s @ extra) = drop k ?s @ extra" by simp
    then have "drop (m_pos lx' + k) (m_text lx') = drop (m_pos lx + k) (m_text lx) @ extra"
      using s' by (metis add.commute drop_drop)
    then have "lexer_extends extra lx1 (lx'\<lparr>m_pos := m_pos lx' + k\<rparr>)"
      by (simp add: lexer_extends_def lx1)
    with False f' show ?thesis
      by (simp add: GetNextToken_eq s' token_at_def)
  qed
qed

lemma Eat_extends:
  assumes ne: "extra \<noteq> []" and sep: "separator (hd extra)"
    and ft: "first_token extra = Inr (T, j)"
    and ext: "parser_extends extra p q"
    and ty: "ty \<noteq> EndOfFile"
    and eat: "Eat ty p = Inr p1"
  shows "\<exists>q1. Eat ty q = Inr q1 \<and> parser_extends extra p1 q1"
proof -
  from eat have tp: "tok_type (m_token p) = ty"
    by (auto simp: Eat_def split: if_splits)
  with ty ext have tq: "m_token q = m_token p"
    and le: "lexer_extends extra (m_lexer p) (m_lexer q)"
    by (auto simp: parser_extends_def)
  from eat tp obtain t lx1 where g: "GetNextToken (m_lexer p) = Inr (t, lx1)"
    and p1: "p1 = \<lparr>m_lexer = lx1, m_token = t\<rparr>"
    by (auto simp: Eat_def split: sum.splits)
  from GetNextToken_extends [OF ne sep ft le g] obtain t' lx1' where
    g': "GetNextToken (m_lexer q) = Inr (t', lx1')"
    and r: "if tok_type t = EndOfFile then t' = T else t' = t \<and> lexer_extends extra lx1 lx1'"
    by blast
  from g' tp tq have "Eat ty q = Inr \<lparr>m_lexer = lx1', m_token = t'\<rparr>"
    by (simp add: Eat_def)
  moreover from r ft have "parser_extends extra p1 \<lparr>m_lexer = lx1', m_token = t'\<rparr>"
    by (auto simp: parser_extends_def p1 split: if_splits)
  ultimately show ?thesis by blast
qed

lemma parse_extends:
  assumes ne: "extra \<noteq> []" and sep: "separator (hd extra)"
    and ft: "first_token extra = Inr (T, j)"
    and nop: "tok_type T \<notin> {Plus, Minus, Mul, Div}"
  shows "ParseAtom p = Inr (a, p') \<Longrightarrow> parser_extends extra p q \<Longrightarrow>
           \<exists>q'. ParseAtom q = Inr (a, q') \<and> parser_extends extra p' q'"
    and "ParseMulDiv p = Inr (a, p') \<Longrightarrow> parser_extends extra p q \<Longrightarrow>
           \<exists>q'. ParseMulDiv q = Inr (a, q') \<and> parser_extends extra p' q'"
    and "MulDiv_loop node p = Inr (a, p') \<Longrightarrow> parser_extends extra p q \<Longrightarrow>
           \<exists>q'. MulDiv_loop node q = Inr (a, q') \<and> parser_extends extra p' q'"
    and "ParseAddSub p = Inr (a, p') \<Longrightarrow> parser_extends extra p q \<Longrightarrow>
           \<exists>q'. ParseAddSub q = Inr (a, q') \<and> parser_extends extra p' q'"
    and "AddSub_loop node p = Inr (a, p') \<Longrightarrow> parser_extends extra p q \<Longrightarrow>
           \<exists>q'. AddSub_loop node q = Inr (a, q') \<and> parser_extends extra p' q'"
proof (induct p and p and node p and p and node p
    arbitrary: q a p' and q a p' and q a p' and q a p' and q a p'
    rule: ParseAtom_ParseMulDiv_MulDiv_loop_ParseAddSub_AddSub_loop.induct)
  case (1 p)
  note eat = Eat_extends [OF ne sep ft]
  note run = "1.prems"(1) [unfolded ParseAtom.simps [of p]]
  consider (num) "tok_type (m_token p) = Number"
    | (ident) "tok_type (m_token p) \<noteq> Number" "tok_type (m_token p) = Identifier"
    | (paren) "tok_type (m_token p) \<noteq> Number" "tok_type (m_token p) \<noteq> Identifier"
        "tok_type (m_token p) = LeftParen"
    | (other) "tok_type (m_token p) \<noteq> Number" "tok_type (m_token p) \<noteq> Identifier"
        "tok_type (m_token p) \<noteq> LeftParen"
    by blast
  then show ?case
  proof cases
    case num
    with "1.prems"(2) have tq: "m_token q = m_token p" by (simp add: parser_extends_def)
    from run num obtain literal n where v: "tok_value (m_token p) = Some literal"
      and e: "Eat Number p = Inr p'" and s: "stoi literal = Inr n" and a: "a = NumberAST n"
      by (auto split: option.splits sum.splits)
    from eat [OF "1.prems"(2) _ e] obtain q1 where "Eat Number q = Inr q1"
      and "parser_extends extra p' q1" by auto
    with num tq v s a show ?thesis
      by (subst ParseAtom.simps) auto
  next
    case ident
    with "1.prems"(2) have tq: "m_token q = m_token p" by (simp add: parser_extends_def)
    from run ident obtain name where v: "tok_value (m_token p) = Some name"
      and e: "Eat Identifier p = Inr p'" and a: "a = VariableRefAST name"
      by (auto split: option.splits sum.splits)
    from eat [OF "1.prems"(2) _ e] obtain q1 where "Eat Identifier q = Inr q1"
      and "parser_extends extra p' q1" by auto
    with ident tq v a show ?thesis
      by (subst ParseAtom.simps) auto
  next
    case paren
    with "1.prems"(2) have tq: "m_token q = m_token p" by (simp add: parser_extends_def)
    from run paren obtain p1 p2 where e1: "Eat LeftParen p = Inr p1"
      and e2: "ParseAddSub p1 = Inr (a, p2)" and e3: "Eat RightParen p2 = Inr p'"
      by (auto split: sum.splits)
    from eat [OF "1.prems"(2) _ e1] obtain q1 where f1: "Eat LeftParen q = Inr q1"
      and x1: "parser_extends extra p1 q1" by auto
    from "1.hyps" [OF paren e1 e2 x1] obtain q2 where f2: "ParseAddSub q1 = Inr (a, q2)"
      and x2: "parser_extends extra p2 q2" by blast
    from eat [OF x2 _ e3] obtain q3 where f3: "Eat RightParen q2 = Inr q3"
      and x3: "parser_extends extra p' q3" by auto
    from paren tq f1 f2 f3 x3 show ?thesis
      by (subst ParseAtom.simps) auto
  next
    case other
    with run show ?thesis by simp
  qed
next
  case (2 p)
  from "2.prems"(1) obtain node p1 where e1: "ParseAtom p = Inr (node, p1)"
    and e2: "MulDiv_loop node p1 = Inr (a, p')"
    by (subst (asm) ParseMulDiv.simps) (auto split: sum.splits)
  from "2.hyps"(1) [OF e1 "2.prems"(2)] obtain q1 where f1: "ParseAtom q = Inr (node, q1)"
    and x1: "parser_extends extra p1 q1" by blast
  from "2.hyps"(2) [OF e1 refl e2 x1] obtain q' where "MulDiv_loop node q1 = Inr (a, q')"
    and "parser_extends extra p' q'" by blast
  with f1 show ?case
    by (subst ParseMulDiv.simps) auto
next
  case (3 node p)
  note eat = Eat_extends [OF ne sep ft]
  show ?case
  proof (cases "tok_type (m_token p) = Mul \<or> tok_type (m_token p) = Div")
    case False
    with "3.prems"(1) have res: "a = node" "p' = p"
      by (subst (asm) MulDiv_loop.simps; simp)+
    from False "3.prems"(2) nop ft
    have "\<not> (tok_type (m_token q) = Mul \<or> tok_type (m_token q) = Div)"
      by (auto simp: parser_extends_def split: if_splits)
    then have "MulDiv_loop node q = Inr (node, q)"
      by (subst MulDiv_loop.simps) simp
    with res "3.prems"(2) show ?thesis by simp
  next
    case True
    let ?ty = "tok_type (m_token p)"
    let ?eat = "if ?ty = Mul then Eat Mul p else if ?ty = Div then Eat Div p else Inr p"
    let ?op = "if ?ty = Mul then CHR ''*'' else CHR ''/''"
    from True "3.prems"(2) have tq: "m_token q = m_token p" by (auto simp: parser_extends_def)
    from True "3.prems"(1) obtain p1 rhs p2 where e1: "?eat = Inr p1"
      and e2: "ParseAtom p1 = Inr (rhs, p2)"
      and e3: "MulDiv_loop (BinaryExpressionAST node rhs ?op) p2 = Inr (a, p')"
      by (subst (asm) MulDiv_loop.simps) (auto split: sum.splits if_splits)
    from True e1 have e1': "Eat ?ty p = Inr p1" by (auto split: if_splits)
    from True have "?ty \<noteq> EndOfFile" by auto
    from eat [OF "3.prems"(2) this e1'] obtain q1 where f1: "Eat ?ty q = Inr q1"
      and x1: "parser_extends extra p1 q1" by blast
    from "3.hyps"(1) [OF True e1 e2 x1] obtain q2 where f2: "ParseAtom q1 = Inr (rhs, q2)"
      and x2: "parser_extends extra p2 q2" by blast
    from "3.hyps"(2) [OF True e1 e2 refl e3 x2] obtain q' where
      f3: "MulDiv_loop (BinaryExpressionAST node rhs ?op) q2 = Inr (a, q')"
      and x3: "parser_extends extra p' q'" by blast
    from True tq f1 f2 f3 have "MulDiv_loop node q = Inr (a, q')"
      by (subst MulDiv_loop.simps) auto
    with x3 show ?thesis by blast
  qed
next
  case (4 p)
  from "4.prems"(1) obtain node p1 where e1: "ParseMulDiv p = Inr (node, p1)"
    and e2: "AddSub_loop node p1 = Inr (a, p')"
    by (subst (asm) ParseAddSub.simps) (auto split: sum.splits)
  from "4.hyps"(1) [OF e1 "4.prems"(2)] obtain q1 where f1: "ParseMulDiv q = Inr (node, q1)"
    and x1: "parser_extends extra p1 q1" by blast
  from "4.hyps"(2) [OF e1 refl e2 x1] obtain q' where "AddSub_loop node q1 = Inr (a, q')"
    and "parser_extends extra p' q'" by blast
  with f1 show ?case
    by (subst ParseAddSub.simps) auto
next
  case (5 node p)
  note eat = Eat_extends [OF ne sep ft]
  show ?case
  proof (cases "tok_type (m_token p) = Plus \<or> tok_type (m_token p) = Minus")
    case False
    with "5.prems"(1) have res: "a = node" "p' = p"
      by (subst (asm) AddSub_loop.simps; simp)+
    from False "5.prems"(2) nop ft
    have "\<not> (tok_type (m_token q) = Plus \<or> tok_type (m_token q) = Minus)"
      by (auto simp: parser_extends_def split: if_splits)
    then have "AddSub_loop node q = Inr (node, q)"
      by (subst AddSub_loop.simps) simp
    with res "5.prems"(2) show ?thesis by simp
  next
    case True
    let ?ty = "tok_type (m_token p)"
    let ?eat = "if ?ty = Plus then Eat Plus p else if ?ty = Minus then Eat Minus p else Inr p"
    let ?op = "if ?ty = Plus then CHR ''+'' else CHR ''-''"
    from True "5.prems"(2) have tq: "m_token q = m_token p" by (auto simp: parser_extends_def)
    from True "5.prems"(1) obtain p1 rhs p2 where e1: "?eat = Inr p1"
      and e2: "ParseMulDiv p1 = Inr (rhs, p2)"
      and e3: "AddSub_loop (BinaryExpressionAST node rhs ?op) p2 = Inr (a, p')"
      by (subst (asm) AddSub_loop.simps) (auto split: sum.splits if_splits)
    from True e1 have e1': "Eat ?ty p = Inr p1" by (auto split: if_splits)
    from True have "?ty \<noteq> EndOfFile" by auto
    from eat [OF "5.prems"(2) this e1'] obtain q1 where f1: "Eat ?ty q = Inr q1"
      and x1: "parser_extends extra p1 q1" by blast
    from "5.hyps"(1) [OF True e1 e2 x1] obtain q2 where f2: "ParseMulDiv q1 = Inr (rhs, q2)"
      and x2: "parser_extends extra p2 q2" by blast
    from "5.hyps"(2) [OF True e1 e2 refl e3 x2] obtain q' where
      f3: "AddSub_loop (BinaryExpressionAST node rhs ?op) q2 = Inr (a, q')"
      and x3: "parser_extends extra p' q'" by blast
    from True tq f1 f2 f3 have "AddSub_loop node q = Inr (a, q')"
      by (subst AddSub_loop.simps) auto
    with x3 show ?thesis by blast
  qed
qed

text \<open>
  Claim C3, amended. When a text that \<^verbatim>\<open>ParseAddSub\<close> parses is followed by more tokens,
  \<^verbatim>\<open>ParseAddSub\<close> does not fail: it returns the same tree and leaves what follows unread.
  Here \<open>extra\<close> is any text after the expression that starts with a character ending a
  number and an identifier (a blank or a parenthesis, say) and whose first token is not
  one of the four operators; when the expression is complete, so that its parse ends at
  \<^verbatim>\<open>EndOfFile\<close>, the parse of the longer text ends with the first token of \<open>extra\<close> as the
  current token. The result of \<^verbatim>\<open>ParseAddSub\<close> is an error or a tree, never both.
\<close>

theorem C3_trailing_tokens_left_unread:
  assumes "parse_line text = Inr (ast, p)"
    and "extra \<noteq> []" and "separator (hd extra)"
    and "first_token extra = Inr (T, j)"
    and "tok_type T \<notin> {Plus, Minus, Mul, Div}"
  shows "\<exists>q. parse_line (text @ extra) = Inr (ast, q) \<and>
           (tok_type (m_token p) = EndOfFile \<longrightarrow> m_token q = T)"
proof -
  from assms(1) obtain p0 where new: "Parser_new (Lexer_new text) = Inr p0"
    and run: "ParseAddSub p0 = Inr (ast, p)"
    by (auto simp: parse_line_def split: sum.splits)
  from new obtain t lx where g: "GetNextToken (Lexer_new text) = Inr (t, lx)"
    and p0: "p0 = \<lparr>m_lexer = lx, m_token = t\<rparr>"
    by (auto simp: Parser_new_def split: sum.splits)
  have "lexer_extends extra (Lexer_new text) (Lexer_new (text @ extra))"
    by (simp add: lexer_extends_def Lexer_new_def)
  from GetNextToken_extends [OF assms(2-4) this g] obtain t' lx' where
    g': "GetNextToken (Lexer_new (text @ extra)) = Inr (t', lx')"
    and r: "if tok_type t = EndOfFile then t' = T else t' = t \<and> lexer_extends extra lx lx'"
    by blast
  let ?q0 = "\<lparr>m_lexer = lx', m_token = t'\<rparr>"
  from g' have new': "Parser_new (Lexer_new (text @ extra)) = Inr ?q0"
    by (simp add: Parser_new_def)
  from r assms(4) have "parser_extends extra p0 ?q0"
    by (auto simp: parser_extends_def p0 split: if_splits)
  from parse_extends(4) [OF assms(2-5) run this] obtain q where
    run': "ParseAddSub ?q0 = Inr (ast, q)" and x: "parser_extends extra p q"
    by blast
  from new' run' have "parse_line (text @ extra) = Inr (ast, q)"
    by (simp add: parse_line_def)
  moreover from x assms(4) have "tok_type (m_token p) = EndOfFile \<longrightarrow> m_token q = T"
    by (auto simp: parser_extends_def)
  ultimately show ?thesis by blast
qed

theorem C3_trailing_tokens_left_unread_witness:
  "parse_line ''1 + 2'' =
     Inr (BinaryExpressionAST (NumberAST 1) (NumberAST 2) (CHR ''+''),
          \<lparr>m_lexer = \<lparr>m_text = ''1 + 2'', m_pos = 5\<rparr>,
           m_token = \<lparr>tok_type = EndOfFile, tok_value = None\<rparr>\<rparr>) \<and>
   first_token '') 3'' = Inr (\<lparr>tok_type = RightParen, tok_value = None\<rparr>, 1) \<and>
   (\<exists>q. parse_line (''1 + 2'' @ '') 3'') =
          Inr (BinaryExpressionAST (NumberAST 1) (NumberAST 2) (CHR ''+''), q) \<and>
        m_token q = \<lparr>tok_type = RightParen, tok_value = None\<rparr>)"
proof -
  have 1: "parse_line ''1 + 2'' =
     Inr (BinaryExpressionAST (NumberAST 1) (NumberAST 2) (CHR ''+''),
          \<lparr>m_lexer = \<lparr>m_text = ''1 + 2'', m_pos = 5\<rparr>,
           m_token = \<lparr>tok_type = EndOfFile, tok_value = None\<rparr>\<rparr>)"
    by code_simp
  have 2: "first_token '') 3'' = Inr (\<lparr>tok_type = RightParen, tok_value = None\<rparr>, 1)"
    by code_simp
  have 3: "'') 3'' \<noteq> []" by simp
  have 4: "separator (hd '') 3'')" by code_simp
  have 5: "tok_type \<lparr>tok_type = RightParen, tok_value = None\<rparr> \<notin> {Plus, Minus, Mul, Div}"
    by simp
  from C3_trailing_tokens_left_unread [OF 1 3 4 2 5] 1 2 show ?thesis by simp
qed

text \<open>
  Claim C3 says that \<^verbatim>\<open>ParseAddSub\<close> fails when tokens follow a complete expression.
  For \<^verbatim>\<open>1 2\<close> it returns the tree of \<^verbatim>\<open>1\<close>, with the token \<^verbatim>\<open>2\<close> as the current token
  of the parser, and for \<^verbatim>\<open>1 + 2)\<close> the tree of \<^verbatim>\<open>1 + 2\<close>, with the parenthesis as the
  current token.
\<close>

theorem C3_trailing_tokens_counterexample:
  "parse_line ''1 2'' =
     Inr (NumberAST 1,
          \<lparr>m_lexer = \<lparr>m_text = ''1 2'', m_pos = 3\<rparr>,
           m_token = \<lparr>tok_type = Number, tok_value = Some ''2''\<rparr>\<rparr>) \<and>
   parse_line ''1 + 2)'' =
     Inr (BinaryExpressionAST (NumberAST 1) (NumberAST 2) (CHR ''+''),
          \<lparr>m_lexer = \<lparr>m_text = ''1 + 2)'', m_pos = 6\<rparr>,
           m_token = \<lparr>tok_type = RightParen, tok_value = None\<rparr>\<rparr>)"
  by code_simp

section \<open>The errors of a line\<close>

text \<open>A character that starts no token and is not white space.\<close>

definition other_character :: "char \<Rightarrow> bool" where
  "other_character c \<longleftrightarrow>
     \<not> isspace c \<and> \<not> isdigit c \<and> \<not> isalpha c \<and> c \<notin> set ''+-*/()''"

text \<open>The exception of the lexer for a text: it names a position of the text and the character there.\<close>

definition lexer_error :: "string \<Rightarrow> error \<Rightarrow> bool" where
  "lexer_error text e \<longleftrightarrow>
     (\<exists>i<length text. other_character (text ! i) \<and>
        e = invalid_argument (lex_error_message i (text ! i)))"

lemma first_token_other:
  assumes "\<forall>c\<in>set ws. isspace c" and "other_character c"
  shows "first_token (ws @ c # rest) = Inl (length ws, c)"
proof -
  from assms have tw: "takeWhile isspace (ws @ c # rest) = ws"
    and dw: "dropWhile isspace (ws @ c # rest) = c # rest"
    by (simp_all add: other_character_def takeWhile_append2 dropWhile_append2)
  from assms(2) show ?thesis
    unfolding first_token_def Let_def tw dw by (simp add: other_character_def)
qed

lemma first_token_error:
  assumes "first_token s = Inl (k, c)"
  shows "k < length s \<and> s ! k = c \<and> other_character c"
proof (cases "dropWhile isspace s")
  case Nil
  with assms show ?thesis by (simp add: first_token_def)
next
  case (Cons ch r)
  then have nsp: "\<not> isspace ch"
    using hd_dropWhile [of isspace s] by auto
  let ?ws = "takeWhile isspace s"
  have s: "s = ?ws @ ch # r"
    using Cons takeWhile_dropWhile_id [of isspace s] by simp
  from assms Cons nsp have k: "k = length ?ws" and c: "c = ch" and o: "other_character ch"
    by (auto simp: first_token_def Let_def other_character_def split: if_splits)
  have "s ! length ?ws = ch"
    by (subst s) (simp add: nth_append)
  moreover have "length ?ws < length s"
    by (subst (2) s) simp
  ultimately show ?thesis using k c o by simp
qed

lemma GetNextToken_error:
  assumes "GetNextToken lx = Inl e"
  shows "lexer_error (m_text lx) e"
proof -
  let ?s = "drop (m_pos lx) (m_text lx)"
  from assms obtain k c where f: "first_token ?s = Inl (k, c)"
    and e: "e = invalid_argument (lex_error_message (m_pos lx + k) c)"
    by (auto simp: GetNextToken_eq token_at_def split: sum.splits)
  from first_token_error [OF f] have k: "k < length ?s" and c: "?s ! k = c"
    and o: "other_character c" by simp_all
  from k have lt: "m_pos lx + k < length (m_text lx)" by simp
  with c have "m_text lx ! (m_pos lx + k) = c" by simp
  with lt o e show ?thesis
    unfolding lexer_error_def by blast
qed

text \<open>
  A token as the lexer makes it: a Number has a text that starts with a digit, an
  Identifier has a text.
\<close>

definition token_ok :: "Token \<Rightarrow> bool" where
  "token_ok t \<longleftrightarrow>
     (tok_type t = Number \<longrightarrow> (\<exists>v. tok_value t = Some v \<and> v \<noteq> [] \<and> isdigit (hd v))) \<and>
     (tok_type t = Identifier \<longrightarrow> tok_value t \<noteq> None)"

lemma number_prefix_starts:
  assumes "isdigit c"
  shows "number_prefix (c # r) \<noteq> [] \<and> hd (number_prefix (c # r)) = c"
  using assms by (simp add: number_prefix_def Let_def)

lemma first_token_ok:
  assumes "first_token s = Inr (t, k)"
  shows "token_ok t"
proof (cases "dropWhile isspace s")
  case Nil
  with assms show ?thesis by (auto simp: first_token_def token_ok_def)
next
  case (Cons c r)
  from assms show ?thesis
    unfolding first_token_def Let_def Cons
    using number_prefix_starts [of c r]
    by (auto simp: token_ok_def split: if_splits)
qed

lemma GetNextToken_ok:
  assumes "GetNextToken lx = Inr (t, lx')"
  shows "token_ok t \<and> m_text lx' = m_text lx"
proof -
  from assms obtain k where "first_token (drop (m_pos lx) (m_text lx)) = Inr (t, k)"
    and "lx' = lx\<lparr>m_pos := m_pos lx + k\<rparr>"
    by (auto simp: GetNextToken_eq token_at_def split: sum.splits)
  with first_token_ok show ?thesis by auto
qed

lemma stoi_token:
  assumes "v \<noteq> []" and "isdigit (hd v)"
  shows "stoi v = Inl (out_of_range ''stoi'') \<or> (\<exists>n. stoi v = Inr n)"
proof -
  from assms obtain d r where v: "v = d # r" and d: "isdigit d" by (cases v) auto
  then have nsp: "\<not> isspace d" by (simp add: isdigit_not_isspace)
  from d have ns: "d \<noteq> CHR ''-''" "d \<noteq> CHR ''+''" by (auto simp: isdigit_def)
  from d have "takeWhile isdigit (d # r) \<noteq> []" by simp
  with nsp ns show ?thesis
    unfolding stoi_def Let_def v by auto
qed

definition parser_ok :: "string \<Rightarrow> Parser \<Rightarrow> bool" where
  "parser_ok text p \<longleftrightarrow> m_text (m_lexer p) = text \<and> token_ok (m_token p)"

text \<open>The exceptions of the parser on a text: the lexer's, the two of the parser, and the one of \<^verbatim>\<open>std::stoi\<close>.\<close>

definition parse_error :: "string \<Rightarrow> error \<Rightarrow> bool" where
  "parse_error text e \<longleftrightarrow>
     lexer_error text e \<or> e = runtime_error ''can't eat that token'' \<or>
     e = runtime_error ''can't parse atom'' \<or> e = out_of_range ''stoi''"

definition known_operators :: "ExpressionAST \<Rightarrow> bool" where
  "known_operators a \<longleftrightarrow> (\<forall>op\<in>set (operators_of a). known_operator op)"

lemma known_operators_Binary:
  "known_operators (BinaryExpressionAST left right op) \<longleftrightarrow>
     known_operators left \<and> known_operators right \<and> known_operator op"
  by (auto simp: known_operators_def)

lemma Parser_new_result:
  "(Parser_new (Lexer_new text) = Inl e \<longrightarrow> lexer_error text e) \<and>
   (Parser_new (Lexer_new text) = Inr p \<longrightarrow> parser_ok text p)"
proof (cases "GetNextToken (Lexer_new text)")
  case (Inl e')
  from GetNextToken_error [OF this] Inl show ?thesis
    by (auto simp: Parser_new_def Lexer_new_def)
next
  case (Inr r)
  then obtain t lx where "GetNextToken (Lexer_new text) = Inr (t, lx)" by (cases r) auto
  from GetNextToken_ok [OF this] this show ?thesis
    by (auto simp: Parser_new_def Lexer_new_def parser_ok_def)
qed

lemma Eat_result:
  assumes "parser_ok text p"
  shows "(Eat ty p = Inl e \<longrightarrow> parse_error text e) \<and>
         (Eat ty p = Inr p1 \<longrightarrow> parser_ok text p1)"
proof (cases "tok_type (m_token p) = ty")
  case False
  then show ?thesis by (simp add: Eat_def parse_error_def)
next
  case True
  show ?thesis
  proof (cases "GetNextToken (m_lexer p)")
    case (Inl e')
    from GetNextToken_error [OF this] Inl True assms show ?thesis
      by (auto simp: Eat_def parse_error_def parser_ok_def)
  next
    case (Inr r)
    then obtain t lx where g: "GetNextToken (m_lexer p) = Inr (t, lx)" by (cases r) auto
    from GetNextToken_ok [OF g] g True assms show ?thesis
      by (auto simp: Eat_def parser_ok_def)
  qed
qed

lemma parse_result:
  "parser_ok text p \<Longrightarrow>
     (\<forall>e. ParseAtom p = Inl e \<longrightarrow> parse_error text e) \<and>
     (\<forall>a p'. ParseAtom p = Inr (a, p') \<longrightarrow> parser_ok text p' \<and> known_operators a)"
  "parser_ok text p \<Longrightarrow>
     (\<forall>e. ParseMulDiv p = Inl e \<longrightarrow> parse_error text e) \<and>
     (\<forall>a p'. ParseMulDiv p = Inr (a, p') \<longrightarrow> parser_ok text p' \<and> known_operators a)"
  "parser_ok text p \<Longrightarrow> known_operators node \<Longrightarrow>
     (\<forall>e. MulDiv_loop node p = Inl e \<longrightarrow> parse_error text e) \<and>
     (\<forall>a p'. MulDiv_loop node p = Inr (a, p') \<longrightarrow> parser_ok text p' \<and> known_operators a)"
  "parser_ok text p \<Longrightarrow>
     (\<forall>e. ParseAddSub p = Inl e \<longrightarrow> parse_error text e) \<and>
     (\<forall>a p'. ParseAddSub p = Inr (a, p') \<longrightarrow> parser_ok text p' \<and> known_operators a)"
  "parser_ok text p \<Longrightarrow> known_operators node \<Longrightarrow>
     (\<forall>e. AddSub_loop node p = Inl e \<longrightarrow> parse_error text e) \<and>
     (\<forall>a p'. AddSub_loop node p = Inr (a, p') \<longrightarrow> parser_ok text p' \<and> known_operators a)"
proof (induct p and p and node p and p and node p
    rule: ParseAtom_ParseMulDiv_MulDiv_loop_ParseAddSub_AddSub_loop.induct)
  case (1 p)
  note ok = "1.prems"
  note eat = Eat_result [OF ok]
  consider (num) "tok_type (m_token p) = Number"
    | (ident) "tok_type (m_token p) \<noteq> Number" "tok_type (m_token p) = Identifier"
    | (paren) "tok_type (m_token p) \<noteq> Number" "tok_type (m_token p) \<noteq> Identifier"
        "tok_type (m_token p) = LeftParen"
    | (other) "tok_type (m_token p) \<noteq> Number" "tok_type (m_token p) \<noteq> Identifier"
        "tok_type (m_token p) \<noteq> LeftParen"
    by blast
  then show ?case
  proof cases
    case num
    with ok obtain v where v: "tok_value (m_token p) = Some v" and "v \<noteq> []" "isdigit (hd v)"
      by (auto simp: parser_ok_def token_ok_def)
    from stoi_token [OF this(2,3)] have s: "stoi v = Inl (out_of_range ''stoi'') \<or> (\<exists>n. stoi v = Inr n)" .
    show ?thesis
    proof (cases "Eat Number p")
      case (Inl e')
      with num v have val: "ParseAtom p = Inl e'"
        by (subst ParseAtom.simps) simp
      from eat [of Number e'] Inl show ?thesis unfolding val by simp
    next
      case (Inr p1)
      with eat [of Number _ p1] have ok1: "parser_ok text p1" by simp
      from Inr num v have val: "ParseAtom p =
          (case stoi v of Inl e \<Rightarrow> Inl e | Inr n \<Rightarrow> Inr (NumberAST n, p1))"
        by (subst ParseAtom.simps) simp
      from s ok1 show ?thesis
        unfolding val by (auto simp: parse_error_def known_operators_def)
    qed
  next
    case ident
    with ok obtain v where v: "tok_value (m_token p) = Some v"
      by (auto simp: parser_ok_def token_ok_def)
    show ?thesis
    proof (cases "Eat Identifier p")
      case (Inl e')
      with ident v have val: "ParseAtom p = Inl e'"
        by (subst ParseAtom.simps) simp
      from eat [of Identifier e'] Inl show ?thesis unfolding val by simp
    next
      case (Inr p1)
      with eat [of Identifier _ p1] have ok1: "parser_ok text p1" by simp
      from Inr ident v have val: "ParseAtom p = Inr (VariableRefAST v, p1)"
        by (subst ParseAtom.simps) simp
      from ok1 show ?thesis
        unfolding val by (simp add: known_operators_def)
    qed
  next
    case paren
    show ?thesis
    proof (cases "Eat LeftParen p")
      case (Inl e')
      with paren have val: "ParseAtom p = Inl e'"
        by (subst ParseAtom.simps) simp
      from eat [of LeftParen e'] Inl show ?thesis unfolding val by simp
    next
      case (Inr p1)
      with eat [of LeftParen _ p1] have ok1: "parser_ok text p1" by simp
      note IH = "1.hyps" [OF paren Inr ok1]
      show ?thesis
      proof (cases "ParseAddSub p1")
        case (Inl e')
        with Inr paren have val: "ParseAtom p = Inl e'"
          by (subst ParseAtom.simps) simp
        from IH Inl show ?thesis unfolding val by simp
      next
        case r: (Inr r)
        then obtain a p2 where r2: "ParseAddSub p1 = Inr (a, p2)" by (cases r) auto
        with IH have ok2: "parser_ok text p2" and kn: "known_operators a" by simp_all
        from Inr r2 paren have val: "ParseAtom p =
            (case Eat RightParen p2 of Inl e \<Rightarrow> Inl e | Inr p3 \<Rightarrow> Inr (a, p3))"
          by (subst ParseAtom.simps) simp
        show ?thesis
        proof (cases "Eat RightParen p2")
          case (Inl e')
          with Eat_result [OF ok2, of RightParen e'] show ?thesis unfolding val by simp
        next
          case (Inr p3)
          with Eat_result [OF ok2, of RightParen _ p3] kn show ?thesis unfolding val by simp
        qed
      qed
    qed
  next
    case other
    then have val: "ParseAtom p = Inl (runtime_error ''can't parse atom'')"
      by (subst ParseAtom.simps) simp
    show ?thesis unfolding val by (simp add: parse_error_def)
  qed
next
  case (2 p)
  note IH1 = "2.hyps"(1) [OF "2.prems"]
  show ?case
  proof (cases "ParseAtom p")
    case (Inl e')
    then have val: "ParseMulDiv p = Inl e'" by (subst ParseMulDiv.simps) simp
    from IH1 Inl show ?thesis unfolding val by simp
  next
    case r: (Inr r)
    then obtain node p1 where r1: "ParseAtom p = Inr (node, p1)" by (cases r) auto
    with IH1 have "parser_ok text p1" "known_operators node" by simp_all
    note IH2 = "2.hyps"(2) [OF r1 refl this]
    from r1 have val: "ParseMulDiv p = MulDiv_loop node p1" by (subst ParseMulDiv.simps) simp
    from IH2 show ?thesis unfolding val .
  qed
next
  case (3 node p)
  show ?case
  proof (cases "tok_type (m_token p) = Mul \<or> tok_type (m_token p) = Div")
    case False
    then have val: "MulDiv_loop node p = Inr (node, p)" by (subst MulDiv_loop.simps) simp
    from "3.prems" show ?thesis unfolding val by simp
  next
    case True
    let ?ty = "tok_type (m_token p)"
    let ?eat = "if ?ty = Mul then Eat Mul p else if ?ty = Div then Eat Div p else Inr p"
    let ?op = "if ?ty = Mul then CHR ''*'' else CHR ''/''"
    from True have ee: "?eat = Eat ?ty p" by auto
    show ?thesis
    proof (cases ?eat)
      case (Inl e')
      with True have val: "MulDiv_loop node p = Inl e'" by (subst MulDiv_loop.simps) simp
      from Eat_result [OF "3.prems"(1), of ?ty e'] ee Inl show ?thesis unfolding val by simp
    next
      case (Inr p1)
      with Eat_result [OF "3.prems"(1), of ?ty _ p1] ee have ok1: "parser_ok text p1" by simp
      note IH1 = "3.hyps"(1) [OF True Inr ok1]
      show ?thesis
      proof (cases "ParseAtom p1")
        case (Inl e')
        with Inr True have val: "MulDiv_loop node p = Inl e'" by (subst MulDiv_loop.simps) simp
        from IH1 Inl show ?thesis unfolding val by simp
      next
        case r: (Inr r)
        then obtain rhs p2 where r2: "ParseAtom p1 = Inr (rhs, p2)" by (cases r) auto
        with IH1 have ok2: "parser_ok text p2" and kr: "known_operators rhs" by simp_all
        from kr "3.prems"(2) have "known_operators (BinaryExpressionAST node rhs ?op)"
          by (simp add: known_operators_Binary known_operator_def)
        note IH2 = "3.hyps"(2) [OF True Inr r2 refl ok2 this]
        from Inr r2 True have val: "MulDiv_loop node p =
            MulDiv_loop (BinaryExpressionAST node rhs ?op) p2"
          by (subst MulDiv_loop.simps) simp
        from IH2 show ?thesis unfolding val .
      qed
    qed
  qed
next
  case (4 p)
  note IH1 = "4.hyps"(1) [OF "4.prems"]
  show ?case
  proof (cases "ParseMulDiv p")
    case (Inl e')
    then have val: "ParseAddSub p = Inl e'" by (subst ParseAddSub.simps) simp
    from IH1 Inl show ?thesis unfolding val by simp
  next
    case r: (Inr r)
    then obtain node p1 where r1: "ParseMulDiv p = Inr (node, p1)" by (cases r) auto
    with IH1 have "parser_ok text p1" "known_operators node" by simp_all
    note IH2 = "4.hyps"(2) [OF r1 refl this]
    from r1 have val: "ParseAddSub p = AddSub_loop node p1" by (subst ParseAddSub.simps) simp
    from IH2 show ?thesis unfolding val .
  qed
next
  case (5 node p)
  show ?case
  proof (cases "tok_type (m_token p) = Plus \<or> tok_type (m_token p) = Minus")
    case False
    then have val: "AddSub_loop node p = Inr (node, p)" by (subst AddSub_loop.simps) simp
    from "5.prems" show ?thesis unfolding val by simp
  next
    case True
    let ?ty = "tok_type (m_token p)"
    let ?eat = "if ?ty = Plus then Eat Plus p else if ?ty = Minus then Eat Minus p else Inr p"
    let ?op = "if ?ty = Plus then CHR ''+'' else CHR ''-''"
    from True have ee: "?eat = Eat ?ty p" by auto
    show ?thesis
    proof (cases ?eat)
      case (Inl e')
      with True have val: "AddSub_loop node p = Inl e'" by (subst AddSub_loop.simps) simp
      from Eat_result [OF "5.prems"(1), of ?ty e'] ee Inl show ?thesis unfolding val by simp
    next
      case (Inr p1)
      with Eat_result [OF "5.prems"(1), of ?ty _ p1] ee have ok1: "parser_ok text p1" by simp
      note IH1 = "5.hyps"(1) [OF True Inr ok1]
      show ?thesis
      proof (cases "ParseMulDiv p1")
        case (Inl e')
        with Inr True have val: "AddSub_loop node p = Inl e'" by (subst AddSub_loop.simps) simp
        from IH1 Inl show ?thesis unfolding val by simp
      next
        case r: (Inr r)
        then obtain rhs p2 where r2: "ParseMulDiv p1 = Inr (rhs, p2)" by (cases r) auto
        with IH1 have ok2: "parser_ok text p2" and kr: "known_operators rhs" by simp_all
        from kr "5.prems"(2) have "known_operators (BinaryExpressionAST node rhs ?op)"
          by (simp add: known_operators_Binary known_operator_def)
        note IH2 = "5.hyps"(2) [OF True Inr r2 refl ok2 this]
        from Inr r2 True have val: "AddSub_loop node p =
            AddSub_loop (BinaryExpressionAST node rhs ?op) p2"
          by (subst AddSub_loop.simps) simp
        from IH2 show ?thesis unfolding val .
      qed
    qed
  qed
qed

lemma Visit_error: "Visit t g = Inl e \<Longrightarrow> e = undefined_behaviour"
proof (induction t arbitrary: g e)
  case (VariableRefAST name)
  then show ?case by (auto simp: Visit_leaf split: if_splits)
next
  case (NumberAST v)
  then show ?case by (auto simp: Visit_leaf split: if_splits)
next
  case (BinaryExpressionAST left right op)
  show ?case
  proof (cases "Visit left g")
    case (Inl e')
    with BinaryExpressionAST.prems have "e = e'"
      by (subst (asm) Visit.simps) simp
    with BinaryExpressionAST.IH(1) [OF Inl] show ?thesis by simp
  next
    case g1: (Inr g1)
    show ?thesis
    proof (cases "Visit right g1")
      case (Inl e')
      with g1 BinaryExpressionAST.prems have "e = e'"
        by (subst (asm) Visit.simps) simp
      with BinaryExpressionAST.IH(2) [OF Inl] show ?thesis by simp
    next
      case (Inr g2)
      with g1 BinaryExpressionAST.prems show ?thesis
        by (subst (asm) Visit.simps)
           (auto simp: pop_register_def binary_instruction_def push_emit
              split: if_splits sum.splits)
    qed
  qed
qed

lemma Generate_error: "Generate root g = Inl e \<Longrightarrow> e = undefined_behaviour"
  by (auto simp: Generate_def Let_def split: sum.splits if_splits dest: Visit_error)

lemma parse_line_error: "parse_line line = Inl e \<Longrightarrow> parse_error line e"
proof -
  assume a: "parse_line line = Inl e"
  show ?thesis
  proof (cases "Parser_new (Lexer_new line)")
    case (Inl e')
    with a Parser_new_result [of line e'] show ?thesis
      by (simp add: parse_line_def parse_error_def)
  next
    case (Inr p)
    with Parser_new_result [of line _ p] have "parser_ok line p" by simp
    from parse_result(4) [OF this] a Inr show ?thesis
      by (simp add: parse_line_def)
  qed
qed

lemma translate_line_error:
  "translate_line line = Inl e \<Longrightarrow> parse_error line e \<or> e = undefined_behaviour"
  by (auto simp: translate_line_def split: sum.splits dest: parse_line_error Generate_error)

section \<open>Where two texts meet\<close>

text \<open>
  When a text \<open>s\<close> is followed by a text \<open>ext\<close>, no number and no identifier runs from the
  one into the other if one of them is empty, if \<open>s\<close> ends with a character that is not
  part of numbers and identifiers, or if \<open>ext\<close> starts with one.
\<close>

definition token_boundary :: "string \<Rightarrow> string \<Rightarrow> bool" where
  "token_boundary s ext \<longleftrightarrow> s = [] \<or> ext = [] \<or> separator (last s) \<or> separator (hd ext)"

lemma takeWhile_append_last:
  assumes "r \<noteq> []" and "\<not> P (last r)"
  shows "takeWhile P (r @ ext) = takeWhile P r"
proof -
  from assms(1) have "last r \<in> set r" by simp
  from this assms(2) show ?thesis by (rule takeWhile_append1)
qed

lemma dropWhile_append_last:
  assumes "r \<noteq> []" and "\<not> P (last r)"
  shows "dropWhile P (r @ ext) = dropWhile P r @ ext"
proof -
  from assms(1) have "last r \<in> set r" by simp
  with assms(2) show ?thesis by (simp add: dropWhile_append1)
qed

lemma last_dropWhile:
  assumes "r \<noteq> []" and "\<not> P (last r)"
  shows "dropWhile P r \<noteq> [] \<and> last (dropWhile P r) = last r"
proof -
  from assms have ne: "dropWhile P r \<noteq> []"
    by (auto simp: dropWhile_eq_Nil_conv)
  from ne have "last (takeWhile P r @ dropWhile P r) = last (dropWhile P r)"
    by (rule last_appendR)
  then have "last (dropWhile P r) = last r" by simp
  with ne show ?thesis by blast
qed

lemma number_prefix_last:
  assumes ne: "r \<noteq> []" and sep: "separator (last r)"
  shows "number_prefix (r @ ext) = number_prefix r"
proof -
  from sep have nd: "\<not> isdigit (last r)" and np: "last r \<noteq> CHR ''.''"
    by (simp_all add: separator_def)
  note tw = takeWhile_append_last [where P = isdigit, OF ne nd]
  note dw = dropWhile_append_last [where P = isdigit, OF ne nd]
  from last_dropWhile [where P = isdigit, OF ne nd]
  obtain c r1 where Cons: "dropWhile isdigit r = c # r1" and l: "last (c # r1) = last r"
    by (cases "dropWhile isdigit r") auto
  show ?thesis
  proof (cases "c = CHR ''.''")
    case True
    with l np have r1: "r1 \<noteq> []" and "last r1 = last r" by (auto split: if_splits)
    with nd have "takeWhile isdigit (r1 @ ext) = takeWhile isdigit r1"
      by (simp add: takeWhile_append_last)
    then show ?thesis
      unfolding number_prefix_def Let_def tw dw Cons by simp
  next
    case False
    then show ?thesis
      unfolding number_prefix_def Let_def tw dw Cons by simp
  qed
qed

lemma number_prefix_boundary:
  assumes "token_boundary r ext" and "r \<noteq> []"
  shows "number_prefix (r @ ext) = number_prefix r"
proof -
  from assms consider "ext = []" | "ext \<noteq> []" "separator (hd ext)" | "separator (last r)"
    by (auto simp: token_boundary_def)
  then show ?thesis
  proof cases
    case 1
    then show ?thesis by simp
  next
    case 2
    then show ?thesis by (rule number_prefix_extend)
  next
    case 3
    with assms(2) show ?thesis by (rule number_prefix_last)
  qed
qed

lemma ident_boundary:
  assumes "token_boundary r ext" and "r \<noteq> []"
  shows "takeWhile ident_char (r @ ext) = takeWhile ident_char r"
proof -
  from assms consider "ext = []" | "ext \<noteq> []" "separator (hd ext)" | "separator (last r)"
    by (auto simp: token_boundary_def)
  then show ?thesis
  proof cases
    case 1
    then show ?thesis by simp
  next
    case 2
    then have "\<not> ident_char (hd ext)" by (simp add: separator_def)
    with 2(1) show ?thesis by (rule takeWhile_append_stop)
  next
    case 3
    then have "\<not> ident_char (last r)" by (simp add: separator_def)
    with assms(2) show ?thesis by (rule takeWhile_append_last)
  qed
qed

lemma token_boundary_suffix:
  assumes "token_boundary (a @ r) ext" and "r \<noteq> []"
  shows "token_boundary r ext"
  using assms by (auto simp: token_boundary_def)

lemma token_boundary_drop:
  assumes "token_boundary s ext"
  shows "token_boundary (drop k s) ext"
proof (cases "drop k s = []")
  case True
  then show ?thesis by (simp add: token_boundary_def)
next
  case False
  have "s = take k s @ drop k s" by simp
  with assms have "token_boundary (take k s @ drop k s) ext" by simp
  from token_boundary_suffix [OF this False] show ?thesis .
qed

lemma first_token_boundary:
  assumes "token_boundary s ext"
  shows "first_token (s @ ext) =
     (case first_token s of
        Inl e \<Rightarrow> Inl e
      | Inr (t, k) \<Rightarrow>
          if tok_type t = EndOfFile then
            (case first_token ext of
               Inl (j, c) \<Rightarrow> Inl (length s + j, c)
             | Inr (t', j) \<Rightarrow> Inr (t', length s + j))
          else Inr (t, k))"
proof (cases "dropWhile isspace s")
  case Nil
  then have all: "\<forall>c\<in>set s. isspace c" by simp
  then have tw: "takeWhile isspace (s @ ext) = s @ takeWhile isspace ext"
    and dw: "dropWhile isspace (s @ ext) = dropWhile isspace ext"
    by (simp_all add: takeWhile_append2 dropWhile_append2)
  from all have tws: "takeWhile isspace s = s" by simp
  have 1: "first_token s = Inr (\<lparr>tok_type = EndOfFile, tok_value = None\<rparr>, length s)"
    unfolding first_token_def Let_def Nil tws by simp
  have 2: "first_token (s @ ext) =
      (case first_token (dropWhile isspace (s @ ext)) of
         Inl (k, ch) \<Rightarrow> Inl (length (takeWhile isspace (s @ ext)) + k, ch)
       | Inr (t, k) \<Rightarrow> Inr (t, length (takeWhile isspace (s @ ext)) + k))"
    by (rule first_token_space)
  have 3: "first_token ext =
      (case first_token (dropWhile isspace ext) of
         Inl (k, ch) \<Rightarrow> Inl (length (takeWhile isspace ext) + k, ch)
       | Inr (t, k) \<Rightarrow> Inr (t, length (takeWhile isspace ext) + k))"
    by (rule first_token_space)
  show ?thesis
    unfolding 1 2 tw dw by (subst 3) (auto split: sum.splits)
next
  case (Cons c r')
  then have nsp: "\<not> isspace c"
    using hd_dropWhile [of isspace s] by auto
  from Cons have "c \<in> set s"
    by (metis list.set_intros(1) set_dropWhileD)
  with nsp have tw: "takeWhile isspace (s @ ext) = takeWhile isspace s"
    and dw: "dropWhile isspace (s @ ext) = (c # r') @ ext"
    using Cons by (simp_all add: takeWhile_append1 dropWhile_append1)
  have "s = takeWhile isspace s @ c # r'"
    using Cons takeWhile_dropWhile_id [of isspace s] by simp
  with assms have "token_boundary (takeWhile isspace s @ c # r') ext" by simp
  then have tb: "token_boundary (c # r') ext"
    by (rule token_boundary_suffix) simp
  note ti = ident_boundary [OF tb]
  note nx = number_prefix_boundary [OF tb]
  have a: "first_token (s @ ext) =
     (if isdigit c then
        Inr (\<lparr>tok_type = Number, tok_value = Some (number_prefix (c # r'))\<rparr>,
             length (takeWhile isspace s) + length (number_prefix (c # r')))
      else if isalpha c then
        Inr (\<lparr>tok_type = Identifier, tok_value = Some (takeWhile ident_char (c # r'))\<rparr>,
             length (takeWhile isspace s) + length (takeWhile ident_char (c # r')))
      else if c = CHR ''+'' then Inr (\<lparr>tok_type = Plus, tok_value = None\<rparr>, length (takeWhile isspace s) + 1)
      else if c = CHR ''-'' then Inr (\<lparr>tok_type = Minus, tok_value = None\<rparr>, length (takeWhile isspace s) + 1)
      else if c = CHR ''*'' then Inr (\<lparr>tok_type = Mul, tok_value = None\<rparr>, length (takeWhile isspace s) + 1)
      else if c = CHR ''/'' then Inr (\<lparr>tok_type = Div, tok_value = None\<rparr>, length (takeWhile isspace s) + 1)
      else if c = CHR ''('' then Inr (\<lparr>tok_type = LeftParen, tok_value = None\<rparr>, length (takeWhile isspace s) + 1)
      else if c = CHR '')'' then Inr (\<lparr>tok_type = RightParen, tok_value = None\<rparr>, length (takeWhile isspace s) + 1)
      else Inl (length (takeWhile isspace s), c))"
    unfolding first_token_def [of "s @ ext"] Let_def tw dw
    using ti nx by simp
  have b: "first_token s =
     (if isdigit c then
        Inr (\<lparr>tok_type = Number, tok_value = Some (number_prefix (c # r'))\<rparr>,
             length (takeWhile isspace s) + length (number_prefix (c # r')))
      else if isalpha c then
        Inr (\<lparr>tok_type = Identifier, tok_value = Some (takeWhile ident_char (c # r'))\<rparr>,
             length (takeWhile isspace s) + length (takeWhile ident_char (c # r')))
      else if c = CHR ''+'' then Inr (\<lparr>tok_type = Plus, tok_value = None\<rparr>, length (takeWhile isspace s) + 1)
      else if c = CHR ''-'' then Inr (\<lparr>tok_type = Minus, tok_value = None\<rparr>, length (takeWhile isspace s) + 1)
      else if c = CHR ''*'' then Inr (\<lparr>tok_type = Mul, tok_value = None\<rparr>, length (takeWhile isspace s) + 1)
      else if c = CHR ''/'' then Inr (\<lparr>tok_type = Div, tok_value = None\<rparr>, length (takeWhile isspace s) + 1)
      else if c = CHR ''('' then Inr (\<lparr>tok_type = LeftParen, tok_value = None\<rparr>, length (takeWhile isspace s) + 1)
      else if c = CHR '')'' then Inr (\<lparr>tok_type = RightParen, tok_value = None\<rparr>, length (takeWhile isspace s) + 1)
      else Inl (length (takeWhile isspace s), c))"
    unfolding first_token_def [of s] Let_def Cons by simp
  show ?thesis unfolding a b by simp
qed

text \<open>
  A token that ends inside \<open>s\<close> when \<open>s\<close> is followed by more text is the token that the
  lexer reads from \<open>s\<close> alone.
\<close>

lemma takeWhile_within:
  assumes "length (takeWhile P (r @ ext)) \<le> length r"
  shows "takeWhile P (r @ ext) = takeWhile P r"
proof (cases "\<forall>x\<in>set r. P x")
  case True
  then have eq: "takeWhile P (r @ ext) = r @ takeWhile P ext" by (simp add: takeWhile_append2)
  with assms have e: "takeWhile P ext = []" by simp
  from True have twr: "takeWhile P r = r" by simp
  have "takeWhile P (r @ ext) = r" unfolding eq e by simp
  then show ?thesis unfolding twr .
next
  case False
  then obtain x where "x \<in> set r" "\<not> P x" by blast
  then show ?thesis by (rule takeWhile_append1)
qed

lemma number_prefix_within:
  assumes "length (number_prefix (r @ ext)) \<le> length r"
  shows "number_prefix (r @ ext) = number_prefix r"
proof (cases "\<forall>x\<in>set r. isdigit x")
  case True
  then have tw: "takeWhile isdigit (r @ ext) = r @ takeWhile isdigit ext"
    and dw: "dropWhile isdigit (r @ ext) = dropWhile isdigit ext"
    and twr: "takeWhile isdigit r = r" and dwr: "dropWhile isdigit r = []"
    by (simp_all add: takeWhile_append2 dropWhile_append2)
  have r: "number_prefix r = r"
    unfolding number_prefix_def Let_def twr dwr by simp
  from assms have "number_prefix (r @ ext) = r"
    unfolding number_prefix_def Let_def tw dw by (auto split: if_splits)
  with r show ?thesis by simp
next
  case False
  then obtain x where x: "x \<in> set r" "\<not> isdigit x" by blast
  then have tw: "takeWhile isdigit (r @ ext) = takeWhile isdigit r"
    and dw: "dropWhile isdigit (r @ ext) = dropWhile isdigit r @ ext"
    by (simp_all add: takeWhile_append1 dropWhile_append1)
  from x obtain c r1 where Cons: "dropWhile isdigit r = c # r1"
    by (cases "dropWhile isdigit r") auto
  have len: "length r = length (takeWhile isdigit r) + length (c # r1)"
    unfolding Cons [symmetric] by (metis length_append takeWhile_dropWhile_id)
  show ?thesis
  proof (cases "c = CHR ''.''")
    case True
    with assms len have "length (takeWhile isdigit (r1 @ ext)) \<le> length r1"
      unfolding number_prefix_def Let_def tw dw Cons by simp
    then have "takeWhile isdigit (r1 @ ext) = takeWhile isdigit r1"
      by (rule takeWhile_within)
    with True show ?thesis
      unfolding number_prefix_def Let_def tw dw Cons by simp
  next
    case False
    then show ?thesis
      unfolding number_prefix_def Let_def tw dw Cons by simp
  qed
qed

lemma first_token_within:
  assumes ft: "first_token (s @ ext) = Inr (t, j)" and j: "j \<le> length s"
    and t: "tok_type t \<noteq> EndOfFile"
  shows "first_token s = Inr (t, j)"
proof (cases "dropWhile isspace s")
  case Nil
  then have all: "\<forall>c\<in>set s. isspace c" by simp
  then have tw: "takeWhile isspace (s @ ext) = s @ takeWhile isspace ext"
    and dw: "dropWhile isspace (s @ ext) = dropWhile isspace ext"
    by (simp_all add: takeWhile_append2 dropWhile_append2)
  from GetNextToken_eq [of "\<lparr>m_text = s @ ext, m_pos = 0\<rparr>"] ft
  have g: "GetNextToken \<lparr>m_text = s @ ext, m_pos = 0\<rparr> =
      Inr (t, \<lparr>m_text = s @ ext, m_pos = j\<rparr>)"
    by (simp add: token_at_def)
  have "first_token (s @ ext) =
      (case first_token (dropWhile isspace (s @ ext)) of
         Inl (k, ch) \<Rightarrow> Inl (length (takeWhile isspace (s @ ext)) + k, ch)
       | Inr (t, k) \<Rightarrow> Inr (t, length (takeWhile isspace (s @ ext)) + k))"
    by (rule first_token_space)
  with ft obtain k where fe: "first_token (dropWhile isspace ext) = Inr (t, k)"
    and jk: "j = length s + length (takeWhile isspace ext) + k"
    unfolding tw dw by (auto split: sum.splits)
  from jk j have k: "k = 0" by simp
  from GetNextToken_eq [of "\<lparr>m_text = dropWhile isspace ext, m_pos = 0\<rparr>"] fe k
  have "GetNextToken \<lparr>m_text = dropWhile isspace ext, m_pos = 0\<rparr> =
      Inr (t, \<lparr>m_text = dropWhile isspace ext, m_pos = 0\<rparr>)"
    by (simp add: token_at_def)
  from GetNextToken_props [OF this] t show ?thesis by simp
next
  case (Cons c r')
  then have nsp: "\<not> isspace c"
    using hd_dropWhile [of isspace s] by auto
  from Cons have "c \<in> set s"
    by (metis list.set_intros(1) set_dropWhileD)
  with nsp have tw: "takeWhile isspace (s @ ext) = takeWhile isspace s"
    and dw: "dropWhile isspace (s @ ext) = (c # r') @ ext"
    using Cons by (simp_all add: takeWhile_append1 dropWhile_append1)
  have len: "length s = length (takeWhile isspace s) + length (c # r')"
    unfolding Cons [symmetric] by (metis length_append takeWhile_dropWhile_id)
  have a: "first_token (s @ ext) =
     (if isdigit c then
        Inr (\<lparr>tok_type = Number, tok_value = Some (number_prefix ((c # r') @ ext))\<rparr>,
             length (takeWhile isspace s) + length (number_prefix ((c # r') @ ext)))
      else if isalpha c then
        Inr (\<lparr>tok_type = Identifier, tok_value = Some (takeWhile ident_char ((c # r') @ ext))\<rparr>,
             length (takeWhile isspace s) + length (takeWhile ident_char ((c # r') @ ext)))
      else if c = CHR ''+'' then Inr (\<lparr>tok_type = Plus, tok_value = None\<rparr>, length (takeWhile isspace s) + 1)
      else if c = CHR ''-'' then Inr (\<lparr>tok_type = Minus, tok_value = None\<rparr>, length (takeWhile isspace s) + 1)
      else if c = CHR ''*'' then Inr (\<lparr>tok_type = Mul, tok_value = None\<rparr>, length (takeWhile isspace s) + 1)
      else if c = CHR ''/'' then Inr (\<lparr>tok_type = Div, tok_value = None\<rparr>, length (takeWhile isspace s) + 1)
      else if c = CHR ''('' then Inr (\<lparr>tok_type = LeftParen, tok_value = None\<rparr>, length (takeWhile isspace s) + 1)
      else if c = CHR '')'' then Inr (\<lparr>tok_type = RightParen, tok_value = None\<rparr>, length (takeWhile isspace s) + 1)
      else Inl (length (takeWhile isspace s), c))"
    unfolding first_token_def [of "s @ ext"] Let_def tw dw by simp
  have b: "first_token s =
     (if isdigit c then
        Inr (\<lparr>tok_type = Number, tok_value = Some (number_prefix (c # r'))\<rparr>,
             length (takeWhile isspace s) + length (number_prefix (c # r')))
      else if isalpha c then
        Inr (\<lparr>tok_type = Identifier, tok_value = Some (takeWhile ident_char (c # r'))\<rparr>,
             length (takeWhile isspace s) + length (takeWhile ident_char (c # r')))
      else if c = CHR ''+'' then Inr (\<lparr>tok_type = Plus, tok_value = None\<rparr>, length (takeWhile isspace s) + 1)
      else if c = CHR ''-'' then Inr (\<lparr>tok_type = Minus, tok_value = None\<rparr>, length (takeWhile isspace s) + 1)
      else if c = CHR ''*'' then Inr (\<lparr>tok_type = Mul, tok_value = None\<rparr>, length (takeWhile isspace s) + 1)
      else if c = CHR ''/'' then Inr (\<lparr>tok_type = Div, tok_value = None\<rparr>, length (takeWhile isspace s) + 1)
      else if c = CHR ''('' then Inr (\<lparr>tok_type = LeftParen, tok_value = None\<rparr>, length (takeWhile isspace s) + 1)
      else if c = CHR '')'' then Inr (\<lparr>tok_type = RightParen, tok_value = None\<rparr>, length (takeWhile isspace s) + 1)
      else Inl (length (takeWhile isspace s), c))"
    unfolding first_token_def [of s] Let_def Cons by simp
  show ?thesis
  proof (cases "isdigit c")
    case True
    with ft a have jn: "j = length (takeWhile isspace s) + length (number_prefix ((c # r') @ ext))"
      and tn: "t = \<lparr>tok_type = Number, tok_value = Some (number_prefix ((c # r') @ ext))\<rparr>"
      by simp_all
    from jn j len have "length (number_prefix ((c # r') @ ext)) \<le> length (c # r')" by simp
    then have "number_prefix ((c # r') @ ext) = number_prefix (c # r')"
      by (rule number_prefix_within)
    with True jn tn b show ?thesis by simp
  next
    case nd: False
    show ?thesis
    proof (cases "isalpha c")
      case True
      with nd ft a have jn: "j = length (takeWhile isspace s) + length (takeWhile ident_char ((c # r') @ ext))"
        and tn: "t = \<lparr>tok_type = Identifier, tok_value = Some (takeWhile ident_char ((c # r') @ ext))\<rparr>"
        by simp_all
      from jn j len have "length (takeWhile ident_char ((c # r') @ ext)) \<le> length (c # r')" by simp
      then have "takeWhile ident_char ((c # r') @ ext) = takeWhile ident_char (c # r')"
        by (rule takeWhile_within)
      with True nd jn tn b show ?thesis by simp
    next
      case False
      with nd ft a b show ?thesis by (simp split: if_splits)
    qed
  qed
qed

section \<open>A line on which the lexer fails\<close>

text \<open>
  The lexer is asked for one token after another, as the parser does: after \<open>n\<close> tokens
  the next call of \<^verbatim>\<open>GetNextToken\<close> throws, with the scan position, past the white space,
  at the character that it names. \<open>lexer_stops n lx\<close> is that position; it is \<open>None\<close> when
  an earlier call throws or that call returns a token.
\<close>

fun lexer_stops :: "nat \<Rightarrow> Lexer \<Rightarrow> nat option" where
  "lexer_stops 0 lx =
     (case GetNextToken lx of
        Inl e \<Rightarrow> Some (m_pos (SkipWhitespaces lx))
      | Inr r \<Rightarrow> None)"
| "lexer_stops (Suc n) lx =
     (case GetNextToken lx of
        Inl e \<Rightarrow> None
      | Inr r \<Rightarrow> lexer_stops n (snd r))"

lemma first_token_error_position:
  assumes "first_token s = Inl (m, ch)"
  shows "m = length (takeWhile isspace s)"
  using assms unfolding first_token_def Let_def
  by (cases "dropWhile isspace s") (auto split: if_splits)

lemma first_token_end:
  assumes "first_token s = Inr (t, j)" and "tok_type t = EndOfFile"
  shows "j = length s"
proof (cases "dropWhile isspace s")
  case Nil
  then have "takeWhile isspace s = s" by simp
  with assms Nil show ?thesis
    unfolding first_token_def Let_def by simp
next
  case (Cons c r)
  with assms show ?thesis
    unfolding first_token_def Let_def by (auto split: if_splits)
qed

lemma lexer_stops_0:
  assumes "lexer_stops 0 lx = Some i"
  shows "\<exists>m ch. first_token (drop (m_pos lx) (m_text lx)) = Inl (m, ch) \<and> i = m_pos lx + m"
proof -
  let ?s = "drop (m_pos lx) (m_text lx)"
  from assms obtain e where "GetNextToken lx = Inl e" and i: "i = m_pos (SkipWhitespaces lx)"
    by (auto split: sum.splits)
  then obtain m ch where f: "first_token ?s = Inl (m, ch)"
    by (auto simp: GetNextToken_eq token_at_def split: sum.splits)
  from first_token_error_position [OF f] i have "i = m_pos lx + m"
    by (simp add: SkipWhitespaces_eq)
  with f show ?thesis by blast
qed

lemma lexer_stops_Suc:
  assumes "lexer_stops (Suc n) lx = Some i"
  shows "\<exists>t j. first_token (drop (m_pos lx) (m_text lx)) = Inr (t, j) \<and>
           lexer_stops n (lx\<lparr>m_pos := m_pos lx + j\<rparr>) = Some i"
  using assms
  by (auto simp: GetNextToken_eq token_at_def split: sum.splits)

lemma lexer_stops_at_end:
  assumes "length (m_text lx) \<le> m_pos lx"
  shows "lexer_stops n lx = None"
  using assms by (induction n) (simp_all add: GetNextToken_at_end)

lemma lexer_stops_ge: "lexer_stops n lx = Some i \<Longrightarrow> m_pos lx \<le> i"
proof (induction n arbitrary: lx)
  case 0
  from lexer_stops_0 [OF this] show ?case by auto
next
  case (Suc n)
  from lexer_stops_Suc [OF Suc.prems] obtain t j where
    "lexer_stops n (lx\<lparr>m_pos := m_pos lx + j\<rparr>) = Some i" by blast
  from Suc.IH [OF this] show ?case by simp
qed

lemma lexer_stops_token:
  assumes "lexer_stops (Suc n) lx = Some i"
  shows "\<exists>t j. first_token (drop (m_pos lx) (m_text lx)) = Inr (t, j) \<and>
           tok_type t \<noteq> EndOfFile \<and> m_pos lx + j \<le> i \<and>
           lexer_stops n (lx\<lparr>m_pos := m_pos lx + j\<rparr>) = Some i"
proof -
  let ?s = "drop (m_pos lx) (m_text lx)"
  from lexer_stops_Suc [OF assms] obtain t j where f: "first_token ?s = Inr (t, j)"
    and n: "lexer_stops n (lx\<lparr>m_pos := m_pos lx + j\<rparr>) = Some i"
    by blast
  have "tok_type t \<noteq> EndOfFile"
  proof
    assume "tok_type t = EndOfFile"
    from first_token_end [OF f this] have "length (m_text lx) \<le> m_pos lx + j" by simp
    then have "lexer_stops n (lx\<lparr>m_pos := m_pos lx + j\<rparr>) = None"
      by (simp add: lexer_stops_at_end)
    with n show False by simp
  qed
  moreover from lexer_stops_ge [OF n] have "m_pos lx + j \<le> i" by simp
  ultimately show ?thesis using f n by blast
qed

text \<open>The exception names the position and the character there.\<close>

lemma lexer_stops_error:
  "lexer_stops n lx = Some i \<Longrightarrow>
     i < length (m_text lx) \<and> other_character (m_text lx ! i) \<and>
     GetNextToken_times (Suc n) lx =
       Inl (invalid_argument (lex_error_message i (m_text lx ! i)))"
proof (induction n arbitrary: lx)
  case 0
  let ?s = "drop (m_pos lx) (m_text lx)"
  from lexer_stops_0 [OF 0] obtain m ch where f: "first_token ?s = Inl (m, ch)"
    and i: "i = m_pos lx + m" by blast
  from first_token_error [OF f] have m: "m < length ?s" and ch: "?s ! m = ch"
    and o: "other_character ch" by simp_all
  from m i have lt: "i < length (m_text lx)" by simp
  with ch i have c: "m_text lx ! i = ch" by simp
  from f i have "GetNextToken lx = Inl (invalid_argument (lex_error_message i ch))"
    by (simp add: GetNextToken_eq token_at_def)
  with lt c o show ?case by simp
next
  case (Suc n)
  from lexer_stops_Suc [OF Suc.prems] obtain t j where
    f: "first_token (drop (m_pos lx) (m_text lx)) = Inr (t, j)"
    and n: "lexer_stops n (lx\<lparr>m_pos := m_pos lx + j\<rparr>) = Some i"
    by blast
  from f have g: "GetNextToken lx = Inr (t, lx\<lparr>m_pos := m_pos lx + j\<rparr>)"
    by (simp add: GetNextToken_eq token_at_def)
  from Suc.IH [OF n] g show ?case by simp
qed

text \<open>
  Two runs of the parser are compared: one on the line, on which the lexer stops at the
  position \<open>i\<close>, and one on the text before that position followed by some text \<open>x\<close>. As
  long as the tokens come from before the position the two runs do the same.
  \<open>outcome E R\<close> relates the results of one step of the two runs, the first on the text
  with \<open>x\<close> and the second on the line: the second run has thrown \<open>E\<close>, or both have thrown
  the same exception, or both have returned and the results are related by \<open>R\<close>.
\<close>

definition outcome :: "error \<Rightarrow> ('a \<Rightarrow> 'b \<Rightarrow> bool) \<Rightarrow> error + 'a \<Rightarrow> error + 'b \<Rightarrow> bool" where
  "outcome E R rp rq \<longleftrightarrow>
     rq = Inl E \<or> (\<exists>e. rp = Inl e \<and> rq = Inl e) \<or> (\<exists>a b. rp = Inr a \<and> rq = Inr b \<and> R a b)"

definition lexers_agree :: "string \<Rightarrow> string \<Rightarrow> nat \<Rightarrow> Lexer \<Rightarrow> Lexer \<Rightarrow> bool" where
  "lexers_agree line x i lp lq \<longleftrightarrow>
     m_text lp = take i line @ x \<and> m_text lq = line \<and> m_pos lq = m_pos lp \<and>
     (\<exists>n. lexer_stops n lq = Some i)"

definition parsers_agree :: "string \<Rightarrow> string \<Rightarrow> nat \<Rightarrow> Parser \<Rightarrow> Parser \<Rightarrow> bool" where
  "parsers_agree line x i p q \<longleftrightarrow>
     lexers_agree line x i (m_lexer p) (m_lexer q) \<and> m_token q = m_token p \<and>
     tok_type (m_token p) \<noteq> EndOfFile"

definition results_agree ::
  "(Parser \<Rightarrow> Parser \<Rightarrow> bool) \<Rightarrow> ExpressionAST \<times> Parser \<Rightarrow> ExpressionAST \<times> Parser \<Rightarrow> bool" where
  "results_agree R r s \<longleftrightarrow> fst s = fst r \<and> R (snd r) (snd s)"

lemma outcome_bind:
  assumes "outcome E R rp rq"
    and "\<And>a b. rp = Inr a \<Longrightarrow> rq = Inr b \<Longrightarrow> R a b \<Longrightarrow> outcome E R' (f a) (g b)"
  shows "outcome E R' (case rp of Inl e \<Rightarrow> Inl e | Inr a \<Rightarrow> f a)
           (case rq of Inl e \<Rightarrow> Inl e | Inr b \<Rightarrow> g b)"
proof -
  from assms(1) consider "rq = Inl E" | e where "rp = Inl e" "rq = Inl e"
    | a b where "rp = Inr a" "rq = Inr b" "R a b"
    unfolding outcome_def by blast
  then show ?thesis
  proof cases
    case 1
    then show ?thesis by (simp add: outcome_def)
  next
    case 2
    then show ?thesis by (simp add: outcome_def)
  next
    case 3
    with assms(2) [OF 3] show ?thesis by simp
  qed
qed

lemma outcome_same: "outcome E R (Inl e) (Inl e)"
  by (simp add: outcome_def)

lemma GetNextToken_agree:
  assumes bx: "token_boundary (take i line) x"
    and ag: "lexers_agree line x i lp lq"
  shows "outcome (invalid_argument (lex_error_message i (line ! i)))
           (\<lambda>r s. fst s = fst r \<and> tok_type (fst r) \<noteq> EndOfFile \<and>
                  lexers_agree line x i (snd r) (snd s))
           (GetNextToken lp) (GetNextToken lq)"
proof -
  let ?k = "m_pos lp"
  let ?pre = "take i line"
  let ?u = "drop ?k ?pre"
  from ag obtain n where tp: "m_text lp = ?pre @ x" and tq: "m_text lq = line"
    and pq: "m_pos lq = ?k" and n: "lexer_stops n lq = Some i"
    by (auto simp: lexers_agree_def)
  from lexer_stops_ge [OF n] pq have le: "?k \<le> i" by simp
  from lexer_stops_error [OF n] tq have lt: "i < length line" by simp
  with le have lu: "length ?u = i - ?k" and kp: "?k \<le> length ?pre" by simp_all
  have split: "drop ?k line = ?u @ drop i line"
  proof -
    have "drop ?k (take i line @ drop i line) =
        ?u @ drop (?k - length ?pre) (drop i line)"
      by (rule drop_append)
    moreover from kp have "?k - length ?pre = 0" by simp
    ultimately have "drop ?k (take i line @ drop i line) = ?u @ drop i line"
      by (simp only: drop_0)
    then show ?thesis by (simp only: append_take_drop_id)
  qed
  from kp have up: "drop ?k (m_text lp) = ?u @ x" by (simp add: tp)
  have gp: "GetNextToken lp = token_at lp (first_token (?u @ x))"
    by (simp only: GetNextToken_eq up)
  show ?thesis
  proof (cases n)
    case 0
    with lexer_stops_error [OF n] tq
    have "GetNextToken lq = Inl (invalid_argument (lex_error_message i (line ! i)))"
      by (auto split: sum.splits)
    then show ?thesis by (simp add: outcome_def)
  next
    case (Suc n')
    from lexer_stops_token [OF n [unfolded Suc]] pq tq obtain t j where
      f: "first_token (drop ?k line) = Inr (t, j)" and t: "tok_type t \<noteq> EndOfFile"
      and j: "?k + j \<le> i" and n': "lexer_stops n' (lq\<lparr>m_pos := ?k + j\<rparr>) = Some i"
      by auto
    from f have gq: "GetNextToken lq = Inr (t, lq\<lparr>m_pos := ?k + j\<rparr>)"
      by (simp add: GetNextToken_eq token_at_def pq tq)
    from j lu have "j \<le> length ?u" by simp
    from first_token_within [OF f [unfolded split] this t] have fu: "first_token ?u = Inr (t, j)" .
    from first_token_boundary [OF token_boundary_drop [OF bx, of ?k]] fu t
    have "first_token (?u @ x) = Inr (t, j)" by simp
    then have "GetNextToken lp = Inr (t, lp\<lparr>m_pos := ?k + j\<rparr>)"
      by (simp add: gp token_at_def)
    with gq t n' tp tq show ?thesis
      by (auto simp: outcome_def lexers_agree_def)
  qed
qed

lemma Parser_new_agree:
  assumes bx: "token_boundary (take i line) x"
    and st: "lexer_stops n (Lexer_new line) = Some i"
  shows "outcome (invalid_argument (lex_error_message i (line ! i)))
           (parsers_agree line x i)
           (Parser_new (Lexer_new (take i line @ x))) (Parser_new (Lexer_new line))"
proof -
  from st have "lexers_agree line x i (Lexer_new (take i line @ x)) (Lexer_new line)"
    by (auto simp: lexers_agree_def Lexer_new_def)
  from GetNextToken_agree [OF bx this] show ?thesis
    unfolding Parser_new_def outcome_def
    by (auto simp: parsers_agree_def)
qed

lemma Eat_agree:
  assumes bx: "token_boundary (take i line) x"
    and ag: "parsers_agree line x i p q"
  shows "outcome (invalid_argument (lex_error_message i (line ! i)))
           (parsers_agree line x i) (Eat ty p) (Eat ty q)"
proof -
  from ag have tq: "m_token q = m_token p"
    and la: "lexers_agree line x i (m_lexer p) (m_lexer q)"
    by (simp_all add: parsers_agree_def)
  show ?thesis
  proof (cases "tok_type (m_token p) = ty")
    case False
    with tq show ?thesis by (simp add: Eat_def outcome_def)
  next
    case True
    from GetNextToken_agree [OF bx la] True tq show ?thesis
      unfolding Eat_def outcome_def
      by (auto simp: parsers_agree_def)
  qed
qed

text \<open>
  A line in which a character that the lexer does not know stands where no token can
  take it in: the lexer stops there or before.
\<close>

lemma lexer_stops_before:
  assumes oc: "other_character c" and bc: "token_boundary pre [c]"
    and tx: "m_text lx = pre @ c # rest" and k: "m_pos lx \<le> length pre"
  shows "\<exists>n i. i \<le> length pre \<and> lexer_stops n lx = Some i"
  using tx k
proof (induction "length pre - m_pos lx" arbitrary: lx rule: less_induct)
  case less
  let ?k = "m_pos lx"
  let ?u = "drop ?k pre"
  from less.prems have s: "drop ?k (m_text lx) = ?u @ c # rest" by simp
  from bc have "token_boundary pre (c # rest)" by (simp add: token_boundary_def)
  note fb = first_token_boundary [OF token_boundary_drop [OF this, of ?k]]
  have fc: "first_token (c # rest) = Inl (0, c)"
    using first_token_other [of "[]" c rest] oc by simp
  have g: "GetNextToken lx = token_at lx (first_token (?u @ c # rest))"
    by (simp only: GetNextToken_eq s)
  have sk: "m_pos (SkipWhitespaces lx) = ?k + length (takeWhile isspace (?u @ c # rest))"
    by (simp add: SkipWhitespaces_eq s)
  show ?case
  proof (cases "first_token ?u")
    case (Inl e)
    obtain m ch where e: "e = (m, ch)" by (cases e)
    from Inl e fb have f: "first_token (?u @ c # rest) = Inl (m, ch)" by simp
    from first_token_error [of ?u m ch] Inl e have "m < length ?u" by simp
    with less.prems(2) have "?k + m \<le> length pre" by simp
    moreover from f g sk first_token_error_position [OF f]
    have "lexer_stops 0 lx = Some (?k + m)" by (simp add: token_at_def)
    ultimately show ?thesis by blast
  next
    case (Inr r)
    obtain t j where r: "r = (t, j)" by (cases r)
    show ?thesis
    proof (cases "tok_type t = EndOfFile")
      case True
      with Inr r fb fc have f: "first_token (?u @ c # rest) = Inl (length ?u, c)" by simp
      from f g sk first_token_error_position [OF f]
      have "lexer_stops 0 lx = Some (?k + length ?u)" by (simp add: token_at_def)
      moreover from less.prems(2) have "?k + length ?u \<le> length pre" by simp
      ultimately show ?thesis by blast
    next
      case False
      from Inr r have fu: "first_token ?u = Inr (t, j)" by simp
      with False fb have f: "first_token (?u @ c # rest) = Inr (t, j)" by simp
      with g have gt: "GetNextToken lx = Inr (t, lx\<lparr>m_pos := ?k + j\<rparr>)"
        by (simp add: token_at_def)
      from GetNextToken_props [OF gt] False have pos: "0 < j" by simp
      from first_token_consumed [OF fu] less.prems(2) have le: "?k + j \<le> length pre" by simp
      let ?lx1 = "lx\<lparr>m_pos := ?k + j\<rparr>"
      from pos le have "length pre - m_pos ?lx1 < length pre - ?k" by simp
      from less.hyps [OF this] less.prems(1) le obtain n i where
        i: "i \<le> length pre" and n: "lexer_stops n ?lx1 = Some i"
        by auto
      from gt n have "lexer_stops (Suc n) lx = Some i" by simp
      with i show ?thesis by blast
    qed
  qed
qed

lemma parse_agree:
  assumes eat: "\<And>ty p q. R p q \<Longrightarrow> outcome E R (Eat ty p) (Eat ty q)"
    and tok: "\<And>p q. R p q \<Longrightarrow> m_token q = m_token p"
  shows "R p q \<Longrightarrow>
           outcome E (results_agree R) (ParseAtom p) (ParseAtom q)"
    and "R p q \<Longrightarrow>
           outcome E (results_agree R) (ParseMulDiv p) (ParseMulDiv q)"
    and "R p q \<Longrightarrow>
           outcome E (results_agree R) (MulDiv_loop node p) (MulDiv_loop node q)"
    and "R p q \<Longrightarrow>
           outcome E (results_agree R) (ParseAddSub p) (ParseAddSub q)"
    and "R p q \<Longrightarrow>
           outcome E (results_agree R) (AddSub_loop node p) (AddSub_loop node q)"
proof (induct p and p and node p and p and node p
    arbitrary: q and q and q and q and q
    rule: ParseAtom_ParseMulDiv_MulDiv_loop_ParseAddSub_AddSub_loop.induct)
  case (1 p)
  from "1.prems" have tq: "m_token q = m_token p" by (rule tok)
  consider (num) "tok_type (m_token p) = Number"
    | (ident) "tok_type (m_token p) \<noteq> Number" "tok_type (m_token p) = Identifier"
    | (paren) "tok_type (m_token p) \<noteq> Number" "tok_type (m_token p) \<noteq> Identifier"
        "tok_type (m_token p) = LeftParen"
    | (other) "tok_type (m_token p) \<noteq> Number" "tok_type (m_token p) \<noteq> Identifier"
        "tok_type (m_token p) \<noteq> LeftParen"
    by blast
  then show ?case
  proof cases
    case num
    show ?thesis
    proof (cases "tok_value (m_token p)")
      case None
      with num tq have "ParseAtom p = Inl undefined_behaviour" "ParseAtom q = Inl undefined_behaviour"
        by (subst ParseAtom.simps; simp)+
      then show ?thesis by (simp add: outcome_same)
    next
      case (Some v)
      let ?f = "\<lambda>p1. case stoi v of Inl e \<Rightarrow> Inl e | Inr n \<Rightarrow> Inr (NumberAST n, p1)"
      from num tq Some have vp: "ParseAtom p = (case Eat Number p of Inl e \<Rightarrow> Inl e | Inr p1 \<Rightarrow> ?f p1)"
        and vq: "ParseAtom q = (case Eat Number q of Inl e \<Rightarrow> Inl e | Inr p1 \<Rightarrow> ?f p1)"
        by (subst ParseAtom.simps; simp)+
      have "outcome E (results_agree R) (case Eat Number p of Inl e \<Rightarrow> Inl e | Inr p1 \<Rightarrow> ?f p1)
          (case Eat Number q of Inl e \<Rightarrow> Inl e | Inr p1 \<Rightarrow> ?f p1)"
      proof (rule outcome_bind [OF eat [OF "1.prems"]])
        fix a b
        assume "R a b"
        then show "outcome E (results_agree R) (?f a) (?f b)"
          by (cases "stoi v") (simp_all add: outcome_def results_agree_def)
      qed
      then show ?thesis unfolding vp vq .
    qed
  next
    case ident
    show ?thesis
    proof (cases "tok_value (m_token p)")
      case None
      with ident tq have "ParseAtom p = Inl undefined_behaviour" "ParseAtom q = Inl undefined_behaviour"
        by (subst ParseAtom.simps; simp)+
      then show ?thesis by (simp add: outcome_same)
    next
      case (Some v)
      let ?f = "\<lambda>p1. Inr (VariableRefAST v, p1)"
      from ident tq Some have vp: "ParseAtom p = (case Eat Identifier p of Inl e \<Rightarrow> Inl e | Inr p1 \<Rightarrow> ?f p1)"
        and vq: "ParseAtom q = (case Eat Identifier q of Inl e \<Rightarrow> Inl e | Inr p1 \<Rightarrow> ?f p1)"
        by (subst ParseAtom.simps; simp)+
      have "outcome E (results_agree R) (case Eat Identifier p of Inl e \<Rightarrow> Inl e | Inr p1 \<Rightarrow> ?f p1)
          (case Eat Identifier q of Inl e \<Rightarrow> Inl e | Inr p1 \<Rightarrow> ?f p1)"
      proof (rule outcome_bind [OF eat [OF "1.prems"]])
        fix a b
        assume "R a b"
        then show "outcome E (results_agree R) (?f a) (?f b)"
          by (simp add: outcome_def results_agree_def)
      qed
      then show ?thesis unfolding vp vq .
    qed
  next
    case paren
    let ?h = "\<lambda>r. case Eat RightParen (snd r) of Inl e \<Rightarrow> Inl e | Inr p3 \<Rightarrow> Inr (fst r, p3)"
    let ?f = "\<lambda>p1. case ParseAddSub p1 of Inl e \<Rightarrow> Inl e | Inr r \<Rightarrow> ?h r"
    from paren tq have vp: "ParseAtom p = (case Eat LeftParen p of Inl e \<Rightarrow> Inl e | Inr p1 \<Rightarrow> ?f p1)"
      and vq: "ParseAtom q = (case Eat LeftParen q of Inl e \<Rightarrow> Inl e | Inr p1 \<Rightarrow> ?f p1)"
      by (subst ParseAtom.simps; simp split: sum.splits prod.splits)+
    have "outcome E (results_agree R) (case Eat LeftParen p of Inl e \<Rightarrow> Inl e | Inr p1 \<Rightarrow> ?f p1)
        (case Eat LeftParen q of Inl e \<Rightarrow> Inl e | Inr p1 \<Rightarrow> ?f p1)"
    proof (rule outcome_bind [OF eat [OF "1.prems"]])
      fix p1 q1
      assume e1: "Eat LeftParen p = Inr p1" and ag1: "R p1 q1"
      show "outcome E (results_agree R) (?f p1) (?f q1)"
      proof (rule outcome_bind [OF "1.hyps" [OF paren e1 ag1]])
        fix r s
        assume "results_agree R r s"
        then have fs: "fst s = fst r" and ag2: "R (snd r) (snd s)"
          by (simp_all add: results_agree_def)
        show "outcome E (results_agree R) (?h r) (?h s)"
          unfolding fs
        proof (rule outcome_bind [OF eat [OF ag2]])
          fix a b
          assume "R a b"
          then show "outcome E (results_agree R) (Inr (fst r, a)) (Inr (fst r, b))"
            by (simp add: outcome_def results_agree_def)
        qed
      qed
    qed
    then show ?thesis unfolding vp vq .
  next
    case other
    with tq have "ParseAtom p = Inl (runtime_error ''can't parse atom'')"
      "ParseAtom q = Inl (runtime_error ''can't parse atom'')"
      by (subst ParseAtom.simps; simp)+
    then show ?thesis by (simp add: outcome_same)
  qed
next
  case (2 p)
  let ?f = "\<lambda>r. MulDiv_loop (fst r) (snd r)"
  have vp: "ParseMulDiv p = (case ParseAtom p of Inl e \<Rightarrow> Inl e | Inr r \<Rightarrow> ?f r)"
    and vq: "ParseMulDiv q = (case ParseAtom q of Inl e \<Rightarrow> Inl e | Inr r \<Rightarrow> ?f r)"
    by (subst ParseMulDiv.simps; simp split: sum.splits prod.splits)+
  have "outcome E (results_agree R) (case ParseAtom p of Inl e \<Rightarrow> Inl e | Inr r \<Rightarrow> ?f r)
      (case ParseAtom q of Inl e \<Rightarrow> Inl e | Inr r \<Rightarrow> ?f r)"
  proof (rule outcome_bind [OF "2.hyps"(1) [OF "2.prems"]])
    fix r s
    assume e: "ParseAtom p = Inr r" and "results_agree R r s"
    then have fs: "fst s = fst r" and ag: "R (snd r) (snd s)"
      by (simp_all add: results_agree_def)
    from "2.hyps"(2) [OF e prod.collapse ag] show "outcome E (results_agree R) (?f r) (?f s)"
      unfolding fs .
  qed
  then show ?case unfolding vp vq .
next
  case (3 node p)
  from "3.prems" have tq: "m_token q = m_token p" by (rule tok)
  show ?case
  proof (cases "tok_type (m_token p) = Mul \<or> tok_type (m_token p) = Div")
    case False
    with tq have "MulDiv_loop node p = Inr (node, p)" "MulDiv_loop node q = Inr (node, q)"
      by (subst MulDiv_loop.simps; simp)+
    with "3.prems" show ?thesis by (simp add: outcome_def results_agree_def)
  next
    case True
    let ?ty = "tok_type (m_token p)"
    let ?eat = "if ?ty = Mul then Eat Mul p else if ?ty = Div then Eat Div p else Inr p"
    let ?op = "if ?ty = Mul then CHR ''*'' else CHR ''/''"
    let ?g = "\<lambda>r. MulDiv_loop (BinaryExpressionAST node (fst r) ?op) (snd r)"
    let ?f = "\<lambda>p1. case ParseAtom p1 of Inl e \<Rightarrow> Inl e | Inr r \<Rightarrow> ?g r"
    from True have ee: "?eat = Eat ?ty p" by auto
    from True tq have vp: "MulDiv_loop node p = (case Eat ?ty p of Inl e \<Rightarrow> Inl e | Inr p1 \<Rightarrow> ?f p1)"
      and vq: "MulDiv_loop node q = (case Eat ?ty q of Inl e \<Rightarrow> Inl e | Inr p1 \<Rightarrow> ?f p1)"
      by (subst MulDiv_loop.simps; auto split: sum.splits prod.splits)+
    have "outcome E (results_agree R) (case Eat ?ty p of Inl e \<Rightarrow> Inl e | Inr p1 \<Rightarrow> ?f p1)
        (case Eat ?ty q of Inl e \<Rightarrow> Inl e | Inr p1 \<Rightarrow> ?f p1)"
    proof (rule outcome_bind [OF eat [OF "3.prems"]])
      fix p1 q1
      assume e1: "Eat ?ty p = Inr p1" and ag1: "R p1 q1"
      from e1 ee have e1': "?eat = Inr p1" by simp
      show "outcome E (results_agree R) (?f p1) (?f q1)"
      proof (rule outcome_bind [OF "3.hyps"(1) [OF True e1' ag1]])
        fix r s
        assume e2: "ParseAtom p1 = Inr r" and "results_agree R r s"
        then have fs: "fst s = fst r" and ag2: "R (snd r) (snd s)"
          by (simp_all add: results_agree_def)
        from "3.hyps"(2) [OF True e1' e2 prod.collapse ag2]
        show "outcome E (results_agree R) (?g r) (?g s)"
          unfolding fs .
      qed
    qed
    then show ?thesis unfolding vp vq .
  qed
next
  case (4 p)
  let ?f = "\<lambda>r. AddSub_loop (fst r) (snd r)"
  have vp: "ParseAddSub p = (case ParseMulDiv p of Inl e \<Rightarrow> Inl e | Inr r \<Rightarrow> ?f r)"
    and vq: "ParseAddSub q = (case ParseMulDiv q of Inl e \<Rightarrow> Inl e | Inr r \<Rightarrow> ?f r)"
    by (subst ParseAddSub.simps; simp split: sum.splits prod.splits)+
  have "outcome E (results_agree R) (case ParseMulDiv p of Inl e \<Rightarrow> Inl e | Inr r \<Rightarrow> ?f r)
      (case ParseMulDiv q of Inl e \<Rightarrow> Inl e | Inr r \<Rightarrow> ?f r)"
  proof (rule outcome_bind [OF "4.hyps"(1) [OF "4.prems"]])
    fix r s
    assume e: "ParseMulDiv p = Inr r" and "results_agree R r s"
    then have fs: "fst s = fst r" and ag: "R (snd r) (snd s)"
      by (simp_all add: results_agree_def)
    from "4.hyps"(2) [OF e prod.collapse ag] show "outcome E (results_agree R) (?f r) (?f s)"
      unfolding fs .
  qed
  then show ?case unfolding vp vq .
next
  case (5 node p)
  from "5.prems" have tq: "m_token q = m_token p" by (rule tok)
  show ?case
  proof (cases "tok_type (m_token p) = Plus \<or> tok_type (m_token p) = Minus")
    case False
    with tq have "AddSub_loop node p = Inr (node, p)" "AddSub_loop node q = Inr (node, q)"
      by (subst AddSub_loop.simps; simp)+
    with "5.prems" show ?thesis by (simp add: outcome_def results_agree_def)
  next
    case True
    let ?ty = "tok_type (m_token p)"
    let ?eat = "if ?ty = Plus then Eat Plus p else if ?ty = Minus then Eat Minus p else Inr p"
    let ?op = "if ?ty = Plus then CHR ''+'' else CHR ''-''"
    let ?g = "\<lambda>r. AddSub_loop (BinaryExpressionAST node (fst r) ?op) (snd r)"
    let ?f = "\<lambda>p1. case ParseMulDiv p1 of Inl e \<Rightarrow> Inl e | Inr r \<Rightarrow> ?g r"
    from True have ee: "?eat = Eat ?ty p" by auto
    from True tq have vp: "AddSub_loop node p = (case Eat ?ty p of Inl e \<Rightarrow> Inl e | Inr p1 \<Rightarrow> ?f p1)"
      and vq: "AddSub_loop node q = (case Eat ?ty q of Inl e \<Rightarrow> Inl e | Inr p1 \<Rightarrow> ?f p1)"
      by (subst AddSub_loop.simps; auto split: sum.splits prod.splits)+
    have "outcome E (results_agree R) (case Eat ?ty p of Inl e \<Rightarrow> Inl e | Inr p1 \<Rightarrow> ?f p1)
        (case Eat ?ty q of Inl e \<Rightarrow> Inl e | Inr p1 \<Rightarrow> ?f p1)"
    proof (rule outcome_bind [OF eat [OF "5.prems"]])
      fix p1 q1
      assume e1: "Eat ?ty p = Inr p1" and ag1: "R p1 q1"
      from e1 ee have e1': "?eat = Inr p1" by simp
      show "outcome E (results_agree R) (?f p1) (?f q1)"
      proof (rule outcome_bind [OF "5.hyps"(1) [OF True e1' ag1]])
        fix r s
        assume e2: "ParseMulDiv p1 = Inr r" and "results_agree R r s"
        then have fs: "fst s = fst r" and ag2: "R (snd r) (snd s)"
          by (simp_all add: results_agree_def)
        from "5.hyps"(2) [OF True e1' e2 prod.collapse ag2]
        show "outcome E (results_agree R) (?g r) (?g s)"
          unfolding fs .
      qed
    qed
    then show ?thesis unfolding vp vq .
  qed
qed

lemma parse_line_agree:
  assumes bx: "token_boundary (take i line) x"
    and st: "lexer_stops n (Lexer_new line) = Some i"
  shows "outcome (invalid_argument (lex_error_message i (line ! i)))
           (results_agree (parsers_agree line x i))
           (parse_line (take i line @ x)) (parse_line line)"
  unfolding parse_line_def
proof (rule outcome_bind [OF Parser_new_agree [OF bx st]])
  fix p q
  assume "parsers_agree line x i p q"
  then show "outcome (invalid_argument (lex_error_message i (line ! i)))
      (results_agree (parsers_agree line x i)) (ParseAddSub p) (ParseAddSub q)"
  proof (rule parse_agree(4) [rotated 2])
    fix ty p q
    assume "parsers_agree line x i p q"
    with bx show "outcome (invalid_argument (lex_error_message i (line ! i)))
        (parsers_agree line x i) (Eat ty p) (Eat ty q)"
      by (rule Eat_agree)
  next
    fix p q
    assume "parsers_agree line x i p q"
    then show "m_token q = m_token p" by (simp add: parsers_agree_def)
  qed
qed

lemma translate_line_reaches:
  assumes st: "lexer_stops n (Lexer_new line) = Some i"
    and bx: "token_boundary (take i line) x"
    and run: "parse_line (take i line @ x) = Inr (ast, p)"
    and eof: "tok_type (m_token p) = EndOfFile"
  shows "translate_line line = Inl (invalid_argument (lex_error_message i (line ! i)))"
proof -
  from parse_line_agree [OF bx st] run eof
  have "parse_line line = Inl (invalid_argument (lex_error_message i (line ! i)))"
    by (auto simp: outcome_def results_agree_def parsers_agree_def)
  then show ?thesis by (simp add: translate_line_def)
qed

lemma translate_line_reaches_or_not:
  assumes st: "lexer_stops n (Lexer_new line) = Some i"
  shows "translate_line line = Inl (invalid_argument (lex_error_message i (line ! i))) \<or>
         translate_line line = translate_line (take i line)"
proof -
  have "token_boundary (take i line) []" by (simp add: token_boundary_def)
  from parse_line_agree [OF this st]
  consider "parse_line line = Inl (invalid_argument (lex_error_message i (line ! i)))"
    | e where "parse_line (take i line) = Inl e" "parse_line line = Inl e"
    | r s where "parse_line (take i line) = Inr r" "parse_line line = Inr s" "fst s = fst r"
    by (auto simp: outcome_def results_agree_def)
  then show ?thesis
  proof cases
    case 1
    then show ?thesis by (simp add: translate_line_def)
  next
    case 2
    then show ?thesis by (simp add: translate_line_def)
  next
    case 3
    then show ?thesis
      by (cases r; cases s) (simp add: translate_line_def)
  qed
qed

text \<open>
  Claim C7, amended. When \<^verbatim>\<open>GetNextToken\<close>, past the white space at the scan position,
  meets a character that is not a digit, a letter or one of \<^verbatim>\<open>+ - * / ( )\<close>, it throws
  \<^verbatim>\<open>std::invalid_argument\<close> with a message that names the zero-based position of the
  character and the character. A line whose first character after white space is such a
  character gives this exception and no IR. On a line that contains such a character
  where no token can take it in (it is not an underscore or a point, or it is the first
  character, or the character before it is not a digit, a point, a letter or an
  underscore), the lexer, asked for one token after another, stops at that character or
  before it. Whenever the lexer, asked for one token after another, stops on a line, at
  the position \<open>i\<close> after \<open>n\<close> tokens: the character there is none that the lexer knows and
  the exception names \<open>i\<close> and that character; the line either gives this exception and no
  IR, or gives what the text before the position gives, the character and what follows
  it being never read; and the line gives the exception whenever the text before the
  position can be completed by some text \<open>x\<close> (which may be empty) to an expression that
  \<^verbatim>\<open>ParseAddSub\<close> reads to its end. And whenever a line ends with the lexer's exception,
  the message names a position of the line, counted from zero, and the character there,
  which is none of the characters the lexer knows.
\<close>

theorem C7_lexer_error_names_character:
  "((\<forall>b\<in>set ws. isspace b) \<and> other_character c \<and> drop (m_pos lx) (m_text lx) = ws @ c # rest \<longrightarrow>
      GetNextToken lx = Inl (invalid_argument (lex_error_message (m_pos lx + length ws) c))) \<and>
   ((\<forall>b\<in>set ws. isspace b) \<and> other_character c \<longrightarrow>
      translate_line (ws @ c # rest) = Inl (invalid_argument (lex_error_message (length ws) c))) \<and>
   (other_character c \<and> token_boundary pre [c] \<longrightarrow>
      (\<exists>k j. j \<le> length pre \<and> lexer_stops k (Lexer_new (pre @ c # rest)) = Some j)) \<and>
   (lexer_stops n (Lexer_new line) = Some i \<longrightarrow>
      i < length line \<and> other_character (line ! i) \<and>
      GetNextToken_times (Suc n) (Lexer_new line) =
        Inl (invalid_argument (lex_error_message i (line ! i))) \<and>
      (translate_line line = Inl (invalid_argument (lex_error_message i (line ! i))) \<or>
       translate_line line = translate_line (take i line))) \<and>
   (lexer_stops n (Lexer_new line) = Some i \<and> token_boundary (take i line) x \<and>
    parse_line (take i line @ x) = Inr (ast, p) \<and> tok_type (m_token p) = EndOfFile \<longrightarrow>
      translate_line line = Inl (invalid_argument (lex_error_message i (line ! i)))) \<and>
   (translate_line line = Inl (invalid_argument msg) \<longrightarrow>
      (\<exists>i<length line. other_character (line ! i) \<and> msg = lex_error_message i (line ! i)))"
proof (intro conjI impI)
  assume a: "(\<forall>b\<in>set ws. isspace b) \<and> other_character c \<and>
    drop (m_pos lx) (m_text lx) = ws @ c # rest"
  then have "first_token (drop (m_pos lx) (m_text lx)) = Inl (length ws, c)"
    by (simp add: first_token_other)
  then show "GetNextToken lx = Inl (invalid_argument (lex_error_message (m_pos lx + length ws) c))"
    by (simp add: GetNextToken_eq token_at_def)
next
  assume a: "(\<forall>b\<in>set ws. isspace b) \<and> other_character c"
  then have "first_token (ws @ c # rest) = Inl (length ws, c)"
    by (simp add: first_token_other)
  then have "Parser_new (Lexer_new (ws @ c # rest)) =
      Inl (invalid_argument (lex_error_message (length ws) c))"
    by (simp add: Parser_new_def Lexer_new_def GetNextToken_eq token_at_def)
  then show "translate_line (ws @ c # rest) = Inl (invalid_argument (lex_error_message (length ws) c))"
    by (simp add: translate_line_def parse_line_def)
next
  assume "other_character c \<and> token_boundary pre [c]"
  then have "other_character c" and "token_boundary pre [c]" by simp_all
  then show "\<exists>k j. j \<le> length pre \<and> lexer_stops k (Lexer_new (pre @ c # rest)) = Some j"
    by (rule lexer_stops_before) (simp_all add: Lexer_new_def)
next
  assume st: "lexer_stops n (Lexer_new line) = Some i"
  from lexer_stops_error [OF st] show "i < length line"
    by (simp add: Lexer_new_def)
next
  assume st: "lexer_stops n (Lexer_new line) = Some i"
  from lexer_stops_error [OF st] show "other_character (line ! i)"
    by (simp add: Lexer_new_def)
next
  assume st: "lexer_stops n (Lexer_new line) = Some i"
  from lexer_stops_error [OF st, THEN conjunct2, THEN conjunct2]
  have "GetNextToken_times (Suc n) (Lexer_new line) =
      Inl (invalid_argument (lex_error_message i (m_text (Lexer_new line) ! i)))" .
  then show "GetNextToken_times (Suc n) (Lexer_new line) =
      Inl (invalid_argument (lex_error_message i (line ! i)))"
    by (simp only: Lexer_new_def Lexer.simps)
next
  assume st: "lexer_stops n (Lexer_new line) = Some i"
  then show "translate_line line = Inl (invalid_argument (lex_error_message i (line ! i))) \<or>
      translate_line line = translate_line (take i line)"
    by (rule translate_line_reaches_or_not)
next
  assume "lexer_stops n (Lexer_new line) = Some i \<and> token_boundary (take i line) x \<and>
    parse_line (take i line @ x) = Inr (ast, p) \<and> tok_type (m_token p) = EndOfFile"
  then have "lexer_stops n (Lexer_new line) = Some i" and "token_boundary (take i line) x"
    and "parse_line (take i line @ x) = Inr (ast, p)" and "tok_type (m_token p) = EndOfFile"
    by simp_all
  then show "translate_line line = Inl (invalid_argument (lex_error_message i (line ! i)))"
    by (rule translate_line_reaches)
next
  assume "translate_line line = Inl (invalid_argument msg)"
  from translate_line_error [OF this] have "lexer_error line (invalid_argument msg)"
    by (simp add: parse_error_def)
  then show "\<exists>i<length line. other_character (line ! i) \<and> msg = lex_error_message i (line ! i)"
    by (simp add: lexer_error_def)
qed

theorem C7_lexer_error_names_character_witness:
  "GetNextToken \<lparr>m_text = ''1 $ 2'', m_pos = 1\<rparr> =
     Inl (invalid_argument (lex_error_message 2 (CHR ''$''))) \<and>
   translate_line ''  #'' = Inl (invalid_argument (lex_error_message 2 (CHR ''#''))) \<and>
   (\<exists>k j. j \<le> length ''a_b '' \<and> lexer_stops k (Lexer_new ''a_b $'') = Some j) \<and>
   GetNextToken_times 3 (Lexer_new ''1 2 $'') =
     Inl (invalid_argument (lex_error_message 4 (CHR ''$''))) \<and>
   (translate_line ''1 2 $'' = Inl (invalid_argument (lex_error_message 4 (CHR ''$''))) \<or>
    translate_line ''1 2 $'' = translate_line ''1 2 '') \<and>
   translate_line ''1 $ 2'' = Inl (invalid_argument (lex_error_message 2 (CHR ''$''))) \<and>
   translate_line ''1 + $'' = Inl (invalid_argument (lex_error_message 4 (CHR ''$''))) \<and>
   translate_line ''(a_1 * 2.5$ + 1'' = Inl (invalid_argument (lex_error_message 10 (CHR ''$''))) \<and>
   translate_line ''1_'' = Inl (invalid_argument (lex_error_message 1 (CHR ''_''))) \<and>
   (\<exists>i<length ''1 $ 2''. other_character (''1 $ 2'' ! i) \<and>
      lex_error_message 2 (CHR ''$'') = lex_error_message i (''1 $ 2'' ! i))"
proof -
  let ?eof = "\<lparr>tok_type = EndOfFile, tok_value = None\<rparr>"
  have o: "other_character (CHR ''$'')" "other_character (CHR ''#'')"
    by code_simp+
  have sp: "\<forall>b\<in>set '' ''. isspace b" "\<forall>b\<in>set ''  ''. isspace b"
    by code_simp+
  have st: "lexer_stops 1 (Lexer_new ''1 $ 2'') = Some 2"
    "lexer_stops 2 (Lexer_new ''1 + $'') = Some 4"
    "lexer_stops 4 (Lexer_new ''(a_1 * 2.5$ + 1'') = Some 10"
    "lexer_stops 1 (Lexer_new ''1_'') = Some 1"
    "lexer_stops 2 (Lexer_new ''1 2 $'') = Some 4"
    by code_simp+
  have b: "token_boundary ''a_b '' ''$''"
    "token_boundary (take 2 ''1 $ 2'') []"
    "token_boundary (take 4 ''1 + $'') ''2''"
    "token_boundary (take 10 ''(a_1 * 2.5$ + 1'') '')''"
    "token_boundary (take 1 ''1_'') []"
    by code_simp+
  have p: "parse_line (take 2 ''1 $ 2'' @ []) =
      Inr (NumberAST 1, \<lparr>m_lexer = \<lparr>m_text = ''1 '', m_pos = 2\<rparr>, m_token = ?eof\<rparr>)"
    "parse_line (take 4 ''1 + $'' @ ''2'') =
      Inr (BinaryExpressionAST (NumberAST 1) (NumberAST 2) (CHR ''+''),
           \<lparr>m_lexer = \<lparr>m_text = ''1 + 2'', m_pos = 5\<rparr>, m_token = ?eof\<rparr>)"
    "parse_line (take 10 ''(a_1 * 2.5$ + 1'' @ '')'') =
      Inr (BinaryExpressionAST (VariableRefAST ''a_1'') (NumberAST 2) (CHR ''*''),
           \<lparr>m_lexer = \<lparr>m_text = ''(a_1 * 2.5)'', m_pos = 11\<rparr>, m_token = ?eof\<rparr>)"
    "parse_line (take 1 ''1_'' @ []) =
      Inr (NumberAST 1, \<lparr>m_lexer = \<lparr>m_text = ''1'', m_pos = 1\<rparr>, m_token = ?eof\<rparr>)"
    by code_simp+
  have ch: "''1 $ 2'' ! 2 = CHR ''$''" "''1 + $'' ! 4 = CHR ''$''"
    "''(a_1 * 2.5$ + 1'' ! 10 = CHR ''$''" "''1_'' ! 1 = CHR ''_''" "''1 2 $'' ! 4 = CHR ''$''"
    "take 4 ''1 2 $'' = ''1 2 ''"
    by code_simp+
  note c1 = C7_lexer_error_names_character
    [where ws = "'' ''" and c = "CHR ''$''" and lx = "\<lparr>m_text = ''1 $ 2'', m_pos = 1\<rparr>"
      and rest = "'' 2''"]
  note c2 = C7_lexer_error_names_character
    [where ws = "''  ''" and c = "CHR ''#''" and rest = "[]"]
  note c3 = C7_lexer_error_names_character
    [where c = "CHR ''$''" and pre = "''a_b ''" and rest = "[]"]
  note c4 = C7_lexer_error_names_character
    [where n = 2 and line = "''1 2 $''" and i = 4]
  note c5 = C7_lexer_error_names_character
    [where n = 1 and line = "''1 $ 2''" and i = 2 and x = "[]" and ast = "NumberAST 1"
      and p = "\<lparr>m_lexer = \<lparr>m_text = ''1 '', m_pos = 2\<rparr>, m_token = ?eof\<rparr>"
      and msg = "lex_error_message 2 (CHR ''$'')"]
  note c6 = C7_lexer_error_names_character
    [where n = 2 and line = "''1 + $''" and i = 4 and x = "''2''"
      and ast = "BinaryExpressionAST (NumberAST 1) (NumberAST 2) (CHR ''+'')"
      and p = "\<lparr>m_lexer = \<lparr>m_text = ''1 + 2'', m_pos = 5\<rparr>, m_token = ?eof\<rparr>"]
  note c7 = C7_lexer_error_names_character
    [where n = 4 and line = "''(a_1 * 2.5$ + 1''" and i = 10 and x = "'')''"
      and ast = "BinaryExpressionAST (VariableRefAST ''a_1'') (NumberAST 2) (CHR ''*'')"
      and p = "\<lparr>m_lexer = \<lparr>m_text = ''(a_1 * 2.5)'', m_pos = 11\<rparr>, m_token = ?eof\<rparr>"]
  note c8 = C7_lexer_error_names_character
    [where n = 1 and line = "''1_''" and i = 1 and x = "[]" and ast = "NumberAST 1"
      and p = "\<lparr>m_lexer = \<lparr>m_text = ''1'', m_pos = 1\<rparr>, m_token = ?eof\<rparr>"]
  from c1 o(1) sp(1) have 1: "GetNextToken \<lparr>m_text = ''1 $ 2'', m_pos = 1\<rparr> =
     Inl (invalid_argument (lex_error_message 2 (CHR ''$'')))"
    by (simp add: numeral_2_eq_2)
  from c2 o(2) sp(2) have 2: "translate_line ''  #'' =
     Inl (invalid_argument (lex_error_message 2 (CHR ''#'')))"
    by (simp add: numeral_2_eq_2)
  from c3 o(1) b(1) have "\<exists>k j. j \<le> length ''a_b '' \<and>
      lexer_stops k (Lexer_new (''a_b '' @ CHR ''$'' # [])) = Some j"
    by blast
  then have 3: "\<exists>k j. j \<le> length ''a_b '' \<and> lexer_stops k (Lexer_new ''a_b $'') = Some j"
    by simp
  from c4 st(5) have "GetNextToken_times (Suc 2) (Lexer_new ''1 2 $'') =
      Inl (invalid_argument (lex_error_message 4 (''1 2 $'' ! 4)))"
    and "translate_line ''1 2 $'' = Inl (invalid_argument (lex_error_message 4 (''1 2 $'' ! 4))) \<or>
      translate_line ''1 2 $'' = translate_line (take 4 ''1 2 $'')"
    by blast+
  then have 4: "GetNextToken_times 3 (Lexer_new ''1 2 $'') =
      Inl (invalid_argument (lex_error_message 4 (CHR ''$'')))"
    and 5: "translate_line ''1 2 $'' = Inl (invalid_argument (lex_error_message 4 (CHR ''$''))) \<or>
      translate_line ''1 2 $'' = translate_line ''1 2 ''"
    unfolding ch by (simp_all only: eval_nat_numeral)
  from c5 st(1) b(2) p(1) have "translate_line ''1 $ 2'' =
      Inl (invalid_argument (lex_error_message 2 (''1 $ 2'' ! 2)))"
    by simp
  then have 6: "translate_line ''1 $ 2'' = Inl (invalid_argument (lex_error_message 2 (CHR ''$'')))"
    unfolding ch .
  from c6 st(2) b(3) p(2) have "translate_line ''1 + $'' =
      Inl (invalid_argument (lex_error_message 4 (''1 + $'' ! 4)))"
    by simp
  then have 7: "translate_line ''1 + $'' = Inl (invalid_argument (lex_error_message 4 (CHR ''$'')))"
    unfolding ch .
  from c7 st(3) b(4) p(3) have "translate_line ''(a_1 * 2.5$ + 1'' =
      Inl (invalid_argument (lex_error_message 10 (''(a_1 * 2.5$ + 1'' ! 10)))"
    by simp
  then have 8: "translate_line ''(a_1 * 2.5$ + 1'' =
      Inl (invalid_argument (lex_error_message 10 (CHR ''$'')))"
    unfolding ch .
  from c8 st(4) b(5) p(4) have "translate_line ''1_'' =
      Inl (invalid_argument (lex_error_message 1 (''1_'' ! 1)))"
    by simp
  then have 9: "translate_line ''1_'' = Inl (invalid_argument (lex_error_message 1 (CHR ''_'')))"
    unfolding ch .
  from c5 6 have 10: "\<exists>i<length ''1 $ 2''. other_character (''1 $ 2'' ! i) \<and>
      lex_error_message 2 (CHR ''$'') = lex_error_message i (''1 $ 2'' ! i)"
    by blast
  show ?thesis
    by (rule conjI [OF 1 conjI [OF 2 conjI [OF 3 conjI [OF 4 conjI [OF 5 conjI [OF 6
          conjI [OF 7 conjI [OF 8 conjI [OF 9 10]]]]]]]]])
qed

text \<open>
  Claim C7 says that a line with a character that is not white space, a digit, a letter
  or one of \<^verbatim>\<open>+ - * / ( )\<close> fails in the lexer and gives no IR. An underscore inside an
  identifier and the point of a number are such characters and are read as part of the
  token; and a character after the expression that the parser has read is never
  scanned.
\<close>

theorem C7_other_characters_counterexample:
  "translate_line ''a_b'' = Inr (''%x1 = %a_b\<newline>'' @ ''%result = %x1'') \<and>
   translate_line ''1 2 $'' = Inr (''%x1 = 1.000000\<newline>'' @ ''%result = %x1'') \<and>
   \<not> isspace (CHR ''_'') \<and> \<not> isdigit (CHR ''_'') \<and> \<not> isalpha (CHR ''_'') \<and>
   CHR ''_'' \<notin> set ''+-*/()'' \<and>
   \<not> isspace (CHR ''$'') \<and> \<not> isdigit (CHR ''$'') \<and> \<not> isalpha (CHR ''$'') \<and>
   CHR ''$'' \<notin> set ''+-*/()''"
  by code_simp

section \<open>An operand inside a line\<close>

text \<open>
  What the lexer of a parser has not read yet; and two parsers of which the second has
  the text \<open>ext\<close> after what the first has left to read. The text \<open>ext\<close> is empty or starts
  with a character that ends numbers and identifiers, and its first token is \<open>T\<close>, read
  with \<open>j\<close> characters. Where the first parser comes to the end of its text, the second
  one has read \<open>T\<close>.
\<close>

definition unread :: "Parser \<Rightarrow> string" where
  "unread p = drop (m_pos (m_lexer p)) (m_text (m_lexer p))"

definition followed :: "string \<Rightarrow> Token \<Rightarrow> nat \<Rightarrow> Parser \<Rightarrow> Parser \<Rightarrow> bool" where
  "followed ext T j p q \<longleftrightarrow>
     (if tok_type (m_token p) = EndOfFile then m_token q = T \<and> unread q = drop j ext
      else m_token q = m_token p \<and> unread q = unread p @ ext)"

lemma GetNextToken_followed:
  assumes b: "ext = [] \<or> separator (hd ext)"
    and ft: "first_token ext = Inr (T, j)"
    and un: "drop (m_pos lq) (m_text lq) = drop (m_pos lp) (m_text lp) @ ext"
    and tok: "GetNextToken lp = Inr (t, lp1)"
  shows "\<exists>t' lq1. GetNextToken lq = Inr (t', lq1) \<and>
           followed ext T j \<lparr>m_lexer = lp1, m_token = t\<rparr> \<lparr>m_lexer = lq1, m_token = t'\<rparr>"
proof -
  let ?s = "drop (m_pos lp) (m_text lp)"
  from tok obtain k where fs: "first_token ?s = Inr (t, k)"
    and lp1: "lp1 = lp\<lparr>m_pos := m_pos lp + k\<rparr>"
    by (auto simp: GetNextToken_eq token_at_def split: sum.splits)
  from b have "token_boundary ?s ext" by (auto simp: token_boundary_def)
  note fe = first_token_boundary [OF this]
  have gq: "GetNextToken lq = token_at lq (first_token (?s @ ext))"
    by (simp only: GetNextToken_eq un)
  show ?thesis
  proof (cases "tok_type t = EndOfFile")
    case True
    with fe fs ft have f': "first_token (?s @ ext) = Inr (T, length ?s + j)" by simp
    have "drop (m_pos lq + (length ?s + j)) (m_text lq) = drop (length ?s + j) (?s @ ext)"
      using un by (metis add.commute drop_drop)
    then have "drop (m_pos lq + (length ?s + j)) (m_text lq) = drop j ext" by simp
    with True f' show ?thesis
      by (simp add: gq token_at_def followed_def unread_def)
  next
    case False
    with fe fs have f': "first_token (?s @ ext) = Inr (t, k)" by simp
    from first_token_consumed [OF fs] have "k \<le> length ?s" .
    then have "drop k (?s @ ext) = drop k ?s @ ext" by simp
    then have "drop (m_pos lq + k) (m_text lq) = drop (m_pos lp + k) (m_text lp) @ ext"
      using un by (metis add.commute drop_drop)
    with False f' show ?thesis
      by (simp add: gq token_at_def followed_def unread_def lp1)
  qed
qed

lemma Eat_followed:
  assumes b: "ext = [] \<or> separator (hd ext)"
    and ft: "first_token ext = Inr (T, j)"
    and fo: "followed ext T j p q"
    and ty: "ty \<noteq> EndOfFile"
    and eat: "Eat ty p = Inr p1"
  shows "\<exists>q1. Eat ty q = Inr q1 \<and> followed ext T j p1 q1"
proof -
  from eat have tp: "tok_type (m_token p) = ty"
    by (auto simp: Eat_def split: if_splits)
  with ty fo have tq: "m_token q = m_token p"
    and un: "drop (m_pos (m_lexer q)) (m_text (m_lexer q)) =
      drop (m_pos (m_lexer p)) (m_text (m_lexer p)) @ ext"
    by (auto simp: followed_def unread_def)
  from eat tp obtain t lx1 where g: "GetNextToken (m_lexer p) = Inr (t, lx1)"
    and p1: "p1 = \<lparr>m_lexer = lx1, m_token = t\<rparr>"
    by (auto simp: Eat_def split: sum.splits)
  from GetNextToken_followed [OF b ft un g] p1 tp tq show ?thesis
    by (auto simp: Eat_def)
qed

lemma parse_followed:
  assumes b: "ext = [] \<or> separator (hd ext)"
    and ft: "first_token ext = Inr (T, j)"
  shows "ParseAtom p = Inr (a, p') \<Longrightarrow> followed ext T j p q \<Longrightarrow>
           \<exists>q'. ParseAtom q = Inr (a, q') \<and> followed ext T j p' q'"
    and "ParseMulDiv p = Inr (a, p') \<Longrightarrow> followed ext T j p q \<Longrightarrow>
           (tok_type (m_token p') = EndOfFile \<longrightarrow> tok_type T \<notin> {Mul, Div}) \<Longrightarrow>
           \<exists>q'. ParseMulDiv q = Inr (a, q') \<and> followed ext T j p' q'"
    and "MulDiv_loop node p = Inr (a, p') \<Longrightarrow> followed ext T j p q \<Longrightarrow>
           (tok_type (m_token p') = EndOfFile \<longrightarrow> tok_type T \<notin> {Mul, Div}) \<Longrightarrow>
           \<exists>q'. MulDiv_loop node q = Inr (a, q') \<and> followed ext T j p' q'"
    and "ParseAddSub p = Inr (a, p') \<Longrightarrow> followed ext T j p q \<Longrightarrow>
           (tok_type (m_token p') = EndOfFile \<longrightarrow> tok_type T \<notin> {Plus, Minus, Mul, Div}) \<Longrightarrow>
           \<exists>q'. ParseAddSub q = Inr (a, q') \<and> followed ext T j p' q'"
    and "AddSub_loop node p = Inr (a, p') \<Longrightarrow> followed ext T j p q \<Longrightarrow>
           (tok_type (m_token p') = EndOfFile \<longrightarrow> tok_type T \<notin> {Plus, Minus, Mul, Div}) \<Longrightarrow>
           \<exists>q'. AddSub_loop node q = Inr (a, q') \<and> followed ext T j p' q'"
proof (induct p and p and node p and p and node p
    arbitrary: q a p' and q a p' and q a p' and q a p' and q a p'
    rule: ParseAtom_ParseMulDiv_MulDiv_loop_ParseAddSub_AddSub_loop.induct)
  case (1 p)
  note eat = Eat_followed [OF b ft]
  note run = "1.prems"(1) [unfolded ParseAtom.simps [of p]]
  consider (num) "tok_type (m_token p) = Number"
    | (ident) "tok_type (m_token p) \<noteq> Number" "tok_type (m_token p) = Identifier"
    | (paren) "tok_type (m_token p) \<noteq> Number" "tok_type (m_token p) \<noteq> Identifier"
        "tok_type (m_token p) = LeftParen"
    | (other) "tok_type (m_token p) \<noteq> Number" "tok_type (m_token p) \<noteq> Identifier"
        "tok_type (m_token p) \<noteq> LeftParen"
    by blast
  then show ?case
  proof cases
    case num
    with "1.prems"(2) have tq: "m_token q = m_token p" by (simp add: followed_def)
    from run num obtain literal n where v: "tok_value (m_token p) = Some literal"
      and e: "Eat Number p = Inr p'" and s: "stoi literal = Inr n" and a: "a = NumberAST n"
      by (auto split: option.splits sum.splits)
    from eat [OF "1.prems"(2) _ e] obtain q1 where "Eat Number q = Inr q1"
      and "followed ext T j p' q1" by auto
    with num tq v s a show ?thesis
      by (subst ParseAtom.simps) auto
  next
    case ident
    with "1.prems"(2) have tq: "m_token q = m_token p" by (simp add: followed_def)
    from run ident obtain name where v: "tok_value (m_token p) = Some name"
      and e: "Eat Identifier p = Inr p'" and a: "a = VariableRefAST name"
      by (auto split: option.splits sum.splits)
    from eat [OF "1.prems"(2) _ e] obtain q1 where "Eat Identifier q = Inr q1"
      and "followed ext T j p' q1" by auto
    with ident tq v a show ?thesis
      by (subst ParseAtom.simps) auto
  next
    case paren
    with "1.prems"(2) have tq: "m_token q = m_token p" by (simp add: followed_def)
    from run paren obtain p1 p2 where e1: "Eat LeftParen p = Inr p1"
      and e2: "ParseAddSub p1 = Inr (a, p2)" and e3: "Eat RightParen p2 = Inr p'"
      by (auto split: sum.splits)
    from e3 have "tok_type (m_token p2) = RightParen"
      by (auto simp: Eat_def split: if_splits)
    then have stop: "tok_type (m_token p2) = EndOfFile \<longrightarrow> tok_type T \<notin> {Plus, Minus, Mul, Div}"
      by simp
    from eat [OF "1.prems"(2) _ e1] obtain q1 where f1: "Eat LeftParen q = Inr q1"
      and x1: "followed ext T j p1 q1" by auto
    from "1.hyps" [OF paren e1 e2 x1 stop] obtain q2 where f2: "ParseAddSub q1 = Inr (a, q2)"
      and x2: "followed ext T j p2 q2" by blast
    from eat [OF x2 _ e3] obtain q3 where f3: "Eat RightParen q2 = Inr q3"
      and x3: "followed ext T j p' q3" by auto
    from paren tq f1 f2 f3 x3 show ?thesis
      by (subst ParseAtom.simps) auto
  next
    case other
    with run show ?thesis by simp
  qed
next
  case (2 p)
  from "2.prems"(1) obtain node p1 where e1: "ParseAtom p = Inr (node, p1)"
    and e2: "MulDiv_loop node p1 = Inr (a, p')"
    by (subst (asm) ParseMulDiv.simps) (auto split: sum.splits)
  from "2.hyps"(1) [OF e1 "2.prems"(2)] obtain q1 where f1: "ParseAtom q = Inr (node, q1)"
    and x1: "followed ext T j p1 q1" by blast
  from "2.hyps"(2) [OF e1 refl e2 x1 "2.prems"(3)] obtain q' where
    "MulDiv_loop node q1 = Inr (a, q')" and "followed ext T j p' q'" by blast
  with f1 show ?case
    by (subst ParseMulDiv.simps) auto
next
  case (3 node p)
  note eat = Eat_followed [OF b ft]
  show ?case
  proof (cases "tok_type (m_token p) = Mul \<or> tok_type (m_token p) = Div")
    case False
    with "3.prems"(1) have res: "a = node" "p' = p"
      by (subst (asm) MulDiv_loop.simps; simp)+
    from False "3.prems"(2,3) res
    have "\<not> (tok_type (m_token q) = Mul \<or> tok_type (m_token q) = Div)"
      by (auto simp: followed_def split: if_splits)
    then have "MulDiv_loop node q = Inr (node, q)"
      by (subst MulDiv_loop.simps) simp
    with res "3.prems"(2) show ?thesis by simp
  next
    case True
    let ?ty = "tok_type (m_token p)"
    let ?eat = "if ?ty = Mul then Eat Mul p else if ?ty = Div then Eat Div p else Inr p"
    let ?op = "if ?ty = Mul then CHR ''*'' else CHR ''/''"
    from True "3.prems"(2) have tq: "m_token q = m_token p" by (auto simp: followed_def)
    from True "3.prems"(1) obtain p1 rhs p2 where e1: "?eat = Inr p1"
      and e2: "ParseAtom p1 = Inr (rhs, p2)"
      and e3: "MulDiv_loop (BinaryExpressionAST node rhs ?op) p2 = Inr (a, p')"
      by (subst (asm) MulDiv_loop.simps) (auto split: sum.splits if_splits)
    from True e1 have e1': "Eat ?ty p = Inr p1" by (auto split: if_splits)
    from True have "?ty \<noteq> EndOfFile" by auto
    from eat [OF "3.prems"(2) this e1'] obtain q1 where f1: "Eat ?ty q = Inr q1"
      and x1: "followed ext T j p1 q1" by blast
    from "3.hyps"(1) [OF True e1 e2 x1] obtain q2 where f2: "ParseAtom q1 = Inr (rhs, q2)"
      and x2: "followed ext T j p2 q2" by blast
    from "3.hyps"(2) [OF True e1 e2 refl e3 x2 "3.prems"(3)] obtain q' where
      f3: "MulDiv_loop (BinaryExpressionAST node rhs ?op) q2 = Inr (a, q')"
      and x3: "followed ext T j p' q'" by blast
    from True tq f1 f2 f3 have "MulDiv_loop node q = Inr (a, q')"
      by (subst MulDiv_loop.simps) auto
    with x3 show ?thesis by blast
  qed
next
  case (4 p)
  from "4.prems"(1) obtain node p1 where e1: "ParseMulDiv p = Inr (node, p1)"
    and e2: "AddSub_loop node p1 = Inr (a, p')"
    by (subst (asm) ParseAddSub.simps) (auto split: sum.splits)
  have stop: "tok_type (m_token p1) = EndOfFile \<longrightarrow> tok_type T \<notin> {Mul, Div}"
  proof
    assume eof: "tok_type (m_token p1) = EndOfFile"
    then have "AddSub_loop node p1 = Inr (node, p1)"
      by (subst AddSub_loop.simps) simp
    with e2 have "p' = p1" by simp
    with eof "4.prems"(3) show "tok_type T \<notin> {Mul, Div}" by simp
  qed
  from "4.hyps"(1) [OF e1 "4.prems"(2) stop] obtain q1 where f1: "ParseMulDiv q = Inr (node, q1)"
    and x1: "followed ext T j p1 q1" by blast
  from "4.hyps"(2) [OF e1 refl e2 x1 "4.prems"(3)] obtain q' where
    "AddSub_loop node q1 = Inr (a, q')" and "followed ext T j p' q'" by blast
  with f1 show ?case
    by (subst ParseAddSub.simps) auto
next
  case (5 node p)
  note eat = Eat_followed [OF b ft]
  show ?case
  proof (cases "tok_type (m_token p) = Plus \<or> tok_type (m_token p) = Minus")
    case False
    with "5.prems"(1) have res: "a = node" "p' = p"
      by (subst (asm) AddSub_loop.simps; simp)+
    from False "5.prems"(2,3) res
    have "\<not> (tok_type (m_token q) = Plus \<or> tok_type (m_token q) = Minus)"
      by (auto simp: followed_def split: if_splits)
    then have "AddSub_loop node q = Inr (node, q)"
      by (subst AddSub_loop.simps) simp
    with res "5.prems"(2) show ?thesis by simp
  next
    case True
    let ?ty = "tok_type (m_token p)"
    let ?eat = "if ?ty = Plus then Eat Plus p else if ?ty = Minus then Eat Minus p else Inr p"
    let ?op = "if ?ty = Plus then CHR ''+'' else CHR ''-''"
    from True "5.prems"(2) have tq: "m_token q = m_token p" by (auto simp: followed_def)
    from True "5.prems"(1) obtain p1 rhs p2 where e1: "?eat = Inr p1"
      and e2: "ParseMulDiv p1 = Inr (rhs, p2)"
      and e3: "AddSub_loop (BinaryExpressionAST node rhs ?op) p2 = Inr (a, p')"
      by (subst (asm) AddSub_loop.simps) (auto split: sum.splits if_splits)
    from True e1 have e1': "Eat ?ty p = Inr p1" by (auto split: if_splits)
    from True have "?ty \<noteq> EndOfFile" by auto
    have stop: "tok_type (m_token p2) = EndOfFile \<longrightarrow> tok_type T \<notin> {Mul, Div}"
    proof
      assume eof: "tok_type (m_token p2) = EndOfFile"
      then have "AddSub_loop (BinaryExpressionAST node rhs ?op) p2 =
          Inr (BinaryExpressionAST node rhs ?op, p2)"
        by (subst AddSub_loop.simps) simp
      with e3 have "p' = p2" by simp
      with eof "5.prems"(3) show "tok_type T \<notin> {Mul, Div}" by simp
    qed
    from eat [OF "5.prems"(2) \<open>?ty \<noteq> EndOfFile\<close> e1'] obtain q1 where f1: "Eat ?ty q = Inr q1"
      and x1: "followed ext T j p1 q1" by blast
    from "5.hyps"(1) [OF True e1 e2 x1 stop] obtain q2 where f2: "ParseMulDiv q1 = Inr (rhs, q2)"
      and x2: "followed ext T j p2 q2" by blast
    from "5.hyps"(2) [OF True e1 e2 refl e3 x2 "5.prems"(3)] obtain q' where
      f3: "AddSub_loop (BinaryExpressionAST node rhs ?op) q2 = Inr (a, q')"
      and x3: "followed ext T j p' q'" by blast
    from True tq f1 f2 f3 have "AddSub_loop node q = Inr (a, q')"
      by (subst AddSub_loop.simps) auto
    with x3 show ?thesis by blast
  qed
qed

section \<open>Chains of operators\<close>

text \<open>
  An operand of a chain is a text \<open>s\<close> that one of the parsing functions, started on \<open>s\<close>
  alone, reads to its end, returning the tree \<open>t\<close>: for a chain of \<^verbatim>\<open>+\<close> and \<^verbatim>\<open>-\<close> the
  function is \<^verbatim>\<open>ParseMulDiv\<close>, so that an operand is a product, a quotient, a number, a
  name or an expression in parentheses; for a chain of \<^verbatim>\<open>*\<close> and \<^verbatim>\<open>/\<close> it is
  \<^verbatim>\<open>ParseAtom\<close>. A chain after its first operand is a list of operators, each with the
  text of its right operand and the tree of that text; \<open>chain_text\<close> is what is written
  after the first operand, and \<open>left_assoc\<close> the tree in which every operator has all that
  stands before it as its left operand.
\<close>

definition parses_to :: "(Parser \<Rightarrow> error + (ExpressionAST \<times> Parser)) \<Rightarrow> string \<Rightarrow> ExpressionAST \<Rightarrow> bool" where
  "parses_to parse s t \<longleftrightarrow>
     (case Parser_new (Lexer_new s) of
        Inl e \<Rightarrow> False
      | Inr p \<Rightarrow>
          (case parse p of
             Inl e \<Rightarrow> False
           | Inr (t', q) \<Rightarrow> t' = t \<and> tok_type (m_token q) = EndOfFile))"

definition chain_of ::
  "string \<Rightarrow> (Parser \<Rightarrow> error + (ExpressionAST \<times> Parser)) \<Rightarrow> (char \<times> string \<times> ExpressionAST) list \<Rightarrow> bool" where
  "chain_of ops parse items \<longleftrightarrow> (\<forall>(op, s, t)\<in>set items. op \<in> set ops \<and> parses_to parse s t)"

definition chain_text :: "(char \<times> string \<times> ExpressionAST) list \<Rightarrow> string" where
  "chain_text items = concat (map (\<lambda>(op, s, t). op # s) items)"

definition left_assoc :: "ExpressionAST \<Rightarrow> (char \<times> string \<times> ExpressionAST) list \<Rightarrow> ExpressionAST" where
  "left_assoc first items = foldl (\<lambda>left (op, s, t). BinaryExpressionAST left t op) first items"

definition operator_token :: "char \<Rightarrow> TokenType" where
  "operator_token op =
     (if op = CHR ''+'' then Plus else if op = CHR ''-'' then Minus
      else if op = CHR ''*'' then Mul else Div)"

lemma chain_text_Nil: "chain_text [] = []"
  by (simp add: chain_text_def)

lemma chain_text_Cons: "chain_text ((op, s, t) # rest) = op # s @ chain_text rest"
  by (simp add: chain_text_def)

lemma left_assoc_Nil: "left_assoc first [] = first"
  by (simp add: left_assoc_def)

lemma left_assoc_Cons:
  "left_assoc first ((op, s, t) # rest) = left_assoc (BinaryExpressionAST first t op) rest"
  by (simp add: left_assoc_def)

lemma chain_of_Cons:
  "chain_of ops parse ((op, s, t) # rest) \<longleftrightarrow>
     op \<in> set ops \<and> parses_to parse s t \<and> chain_of ops parse rest"
  by (simp add: chain_of_def)

lemma parses_toD:
  assumes "parses_to parse s t"
  obtains p q where "Parser_new (Lexer_new s) = Inr p" and "parse p = Inr (t, q)"
    and "tok_type (m_token q) = EndOfFile"
  using assms unfolding parses_to_def by (auto split: sum.splits)

lemma first_token_Nil: "first_token [] = Inr (\<lparr>tok_type = EndOfFile, tok_value = None\<rparr>, 0)"
  by (simp add: first_token_def)

lemma first_token_operator:
  assumes "op \<in> set ''+-*/''"
  shows "first_token (op # r) = Inr (\<lparr>tok_type = operator_token op, tok_value = None\<rparr>, 1)"
    and "separator op"
proof -
  from assms have cases: "op = CHR ''+'' \<or> op = CHR ''-'' \<or> op = CHR ''*'' \<or> op = CHR ''/''"
    by simp
  then have "\<not> isspace op"
    by (auto simp: isspace_def)
  from first_token_no_space [OF refl this, of r] cases
  show "first_token (op # r) = Inr (\<lparr>tok_type = operator_token op, tok_value = None\<rparr>, 1)"
    by (auto simp: operator_token_def isdigit_def isalpha_def)
  from cases show "separator op"
    by (auto simp: separator_def isdigit_def ident_char_def isalnum_def isalpha_def)
qed

text \<open>
  A chain may be followed by a text \<open>tail\<close>, which is empty or starts with a character
  that ends numbers and identifiers, and whose first token \<open>Tt\<close>, read with \<open>jt\<close>
  characters, is not an operator: the end of the line, or a closing parenthesis. The
  first token of what follows an operand of the chain is the next operator, or \<open>Tt\<close>.
\<close>

lemma first_token_chain:
  assumes "chain_of ops parse items" and "set ops \<subseteq> set ''+-*/''"
    and te: "tail = [] \<or> separator (hd tail)"
    and tf: "first_token tail = Inr (Tt, jt)"
  shows "(chain_text items @ tail = [] \<or> separator (hd (chain_text items @ tail))) \<and>
         (\<exists>T j. first_token (chain_text items @ tail) = Inr (T, j) \<and>
            (items = [] \<and> T = Tt \<and> j = jt \<or>
             (\<exists>op s t rest. items = (op, s, t) # rest \<and> tok_type T = operator_token op \<and> j = 1)))"
proof (cases items)
  case Nil
  with te tf show ?thesis by (simp add: chain_text_Nil)
next
  case (Cons item rest)
  obtain op s t where item: "item = (op, s, t)" by (cases item)
  from assms(1,2) Cons item have "op \<in> set ''+-*/''" by (auto simp: chain_of_def)
  from first_token_operator(1) [OF this, of "s @ chain_text rest @ tail"]
    first_token_operator(2) [OF this] Cons item show ?thesis
    by (simp add: chain_text_Cons)
qed

text \<open>
  A parser that starts on a text \<open>s\<close> alone, and a lexer that has \<open>s\<close> and then \<open>ext\<close> left
  to read: the first token is the same.
\<close>

lemma operand_start:
  assumes b: "ext = [] \<or> separator (hd ext)"
    and ft: "first_token ext = Inr (T, j)"
    and new: "Parser_new (Lexer_new s) = Inr ps"
    and un: "drop (m_pos lq) (m_text lq) = s @ ext"
  shows "\<exists>t' lq1. GetNextToken lq = Inr (t', lq1) \<and>
           followed ext T j ps \<lparr>m_lexer = lq1, m_token = t'\<rparr>"
proof -
  from new obtain t lx where g: "GetNextToken (Lexer_new s) = Inr (t, lx)"
    and ps: "ps = \<lparr>m_lexer = lx, m_token = t\<rparr>"
    by (auto simp: Parser_new_def split: sum.splits)
  from un have "drop (m_pos lq) (m_text lq) =
      drop (m_pos (Lexer_new s)) (m_text (Lexer_new s)) @ ext"
    by (simp add: Lexer_new_def)
  from GetNextToken_followed [OF b ft this g] ps show ?thesis by simp
qed

lemma operand_after_token:
  assumes b: "ext = [] \<or> separator (hd ext)"
    and ft: "first_token ext = Inr (T, j)"
    and new: "Parser_new (Lexer_new s) = Inr ps"
    and un: "unread p = s @ ext"
    and ty: "tok_type (m_token p) = ty"
  shows "\<exists>p1. Eat ty p = Inr p1 \<and> followed ext T j ps p1"
proof -
  from un have "drop (m_pos (m_lexer p)) (m_text (m_lexer p)) = s @ ext"
    by (simp add: unread_def)
  from operand_start [OF b ft new this] ty show ?thesis
    by (auto simp: Eat_def)
qed

lemma followed_end:
  assumes "followed ext T j p q" and "tok_type (m_token p) = EndOfFile"
  shows "m_token q = T" and "unread q = drop j ext"
  using assms by (simp_all add: followed_def)

lemma AddSub_chain:
  assumes "chain_of ''+-'' ParseMulDiv items"
    and te: "tail = [] \<or> separator (hd tail)"
    and tf: "first_token tail = Inr (Tt, jt)"
    and tn: "tok_type Tt \<notin> {Plus, Minus, Mul, Div}"
    and "first_token (chain_text items @ tail) = Inr (m_token p, j)"
    and "unread p = drop j (chain_text items @ tail)"
  shows "\<exists>q. AddSub_loop node p = Inr (left_assoc node items, q) \<and>
           m_token q = Tt \<and> unread q = drop jt tail"
  using assms(1,5,6)
proof (induction items arbitrary: node p j)
  case Nil
  with tf have "Inr (m_token p, j) = Inr (Tt, jt)" by (simp add: chain_text_Nil)
  then have mt: "m_token p = Tt" and j: "j = jt" by simp_all
  from mt tn have "AddSub_loop node p = Inr (node, p)"
    by (subst AddSub_loop.simps) simp
  with mt j Nil.prems(3) show ?case by (simp add: left_assoc_Nil chain_text_Nil)
next
  case (Cons item rest)
  obtain op s t where item: "item = (op, s, t)" by (cases item)
  let ?ext = "chain_text rest @ tail"
  from Cons.prems(1) item have op: "op \<in> set ''+-''" and st: "parses_to ParseMulDiv s t"
    and rest: "chain_of ''+-'' ParseMulDiv rest"
    by (simp_all add: chain_of_Cons)
  from op have op4: "op \<in> set ''+-*/''" by auto
  from first_token_operator(1) [OF op4, of "s @ ?ext"] Cons.prems(2) item
  have "Inr (m_token p, j) = Inr (\<lparr>tok_type = operator_token op, tok_value = None\<rparr>, 1::nat)"
    by (simp add: chain_text_Cons)
  then have tok: "tok_type (m_token p) = operator_token op" and j: "j = 1"
    by simp_all
  from Cons.prems(3) item j have un: "unread p = s @ ?ext"
    by (simp add: chain_text_Cons)
  from first_token_chain [OF rest _ te tf] obtain T j' where
    b: "?ext = [] \<or> separator (hd ?ext)"
    and ft: "first_token ?ext = Inr (T, j')"
    and T: "rest = [] \<and> T = Tt \<and> j' = jt \<or>
      (\<exists>op' s' t' rest'. rest = (op', s', t') # rest' \<and> tok_type T = operator_token op' \<and> j' = 1)"
    by auto
  from T rest tn have stop: "tok_type T \<notin> {Mul, Div}"
    by (auto simp: chain_of_Cons operator_token_def)
  from st obtain ps pe where new: "Parser_new (Lexer_new s) = Inr ps"
    and run: "ParseMulDiv ps = Inr (t, pe)" and eof: "tok_type (m_token pe) = EndOfFile"
    by (rule parses_toD)
  from operand_after_token [OF b ft new un tok] obtain p1 where
    e1: "Eat (operator_token op) p = Inr p1" and f1: "followed ?ext T j' ps p1"
    by blast
  from parse_followed(2) [OF b ft run f1] stop obtain p2 where
    e2: "ParseMulDiv p1 = Inr (t, p2)" and f2: "followed ?ext T j' pe p2"
    by blast
  from followed_end [OF f2 eof] ft have
    ft2: "first_token ?ext = Inr (m_token p2, j')"
    and un2: "unread p2 = drop j' ?ext"
    by simp_all
  from Cons.IH [OF rest ft2 un2] obtain q where
    loop: "AddSub_loop (BinaryExpressionAST node t op) p2 =
      Inr (left_assoc (BinaryExpressionAST node t op) rest, q)"
    and q: "m_token q = Tt" "unread q = drop jt tail"
    by blast
  from op tok e1 e2 loop have "AddSub_loop node p =
      Inr (left_assoc (BinaryExpressionAST node t op) rest, q)"
    by (subst AddSub_loop.simps) (auto simp: operator_token_def)
  with q item show ?case by (simp add: left_assoc_Cons)
qed

lemma MulDiv_chain:
  assumes "chain_of ''*/'' ParseAtom items"
    and te: "tail = [] \<or> separator (hd tail)"
    and tf: "first_token tail = Inr (Tt, jt)"
    and tn: "tok_type Tt \<notin> {Plus, Minus, Mul, Div}"
    and "first_token (chain_text items @ tail) = Inr (m_token p, j)"
    and "unread p = drop j (chain_text items @ tail)"
  shows "\<exists>q. MulDiv_loop node p = Inr (left_assoc node items, q) \<and>
           m_token q = Tt \<and> unread q = drop jt tail"
  using assms(1,5,6)
proof (induction items arbitrary: node p j)
  case Nil
  with tf have "Inr (m_token p, j) = Inr (Tt, jt)" by (simp add: chain_text_Nil)
  then have mt: "m_token p = Tt" and j: "j = jt" by simp_all
  from mt tn have "MulDiv_loop node p = Inr (node, p)"
    by (subst MulDiv_loop.simps) simp
  with mt j Nil.prems(3) show ?case by (simp add: left_assoc_Nil chain_text_Nil)
next
  case (Cons item rest)
  obtain op s t where item: "item = (op, s, t)" by (cases item)
  let ?ext = "chain_text rest @ tail"
  from Cons.prems(1) item have op: "op \<in> set ''*/''" and st: "parses_to ParseAtom s t"
    and rest: "chain_of ''*/'' ParseAtom rest"
    by (simp_all add: chain_of_Cons)
  from op have op4: "op \<in> set ''+-*/''" by auto
  from first_token_operator(1) [OF op4, of "s @ ?ext"] Cons.prems(2) item
  have "Inr (m_token p, j) = Inr (\<lparr>tok_type = operator_token op, tok_value = None\<rparr>, 1::nat)"
    by (simp add: chain_text_Cons)
  then have tok: "tok_type (m_token p) = operator_token op" and j: "j = 1"
    by simp_all
  from Cons.prems(3) item j have un: "unread p = s @ ?ext"
    by (simp add: chain_text_Cons)
  from first_token_chain [OF rest _ te tf] obtain T j' where
    b: "?ext = [] \<or> separator (hd ?ext)"
    and ft: "first_token ?ext = Inr (T, j')"
    by auto
  from st obtain ps pe where new: "Parser_new (Lexer_new s) = Inr ps"
    and run: "ParseAtom ps = Inr (t, pe)" and eof: "tok_type (m_token pe) = EndOfFile"
    by (rule parses_toD)
  from operand_after_token [OF b ft new un tok] obtain p1 where
    e1: "Eat (operator_token op) p = Inr p1" and f1: "followed ?ext T j' ps p1"
    by blast
  from parse_followed(1) [OF b ft run f1] obtain p2 where
    e2: "ParseAtom p1 = Inr (t, p2)" and f2: "followed ?ext T j' pe p2"
    by blast
  from followed_end [OF f2 eof] ft have
    ft2: "first_token ?ext = Inr (m_token p2, j')"
    and un2: "unread p2 = drop j' ?ext"
    by simp_all
  from Cons.IH [OF rest ft2 un2] obtain q where
    loop: "MulDiv_loop (BinaryExpressionAST node t op) p2 =
      Inr (left_assoc (BinaryExpressionAST node t op) rest, q)"
    and q: "m_token q = Tt" "unread q = drop jt tail"
    by blast
  from op tok e1 e2 loop have "MulDiv_loop node p =
      Inr (left_assoc (BinaryExpressionAST node t op) rest, q)"
    by (subst MulDiv_loop.simps) (auto simp: operator_token_def)
  with q item show ?case by (simp add: left_assoc_Cons)
qed

text \<open>
  The chain with its first operand, read by a parser that has the first token of the
  first operand as its current token and the rest of the chain and \<open>tail\<close> still to read.
\<close>

lemma ParseMulDiv_chain:
  assumes ch: "parses_to ParseAtom s0 t0 \<and> chain_of ''*/'' ParseAtom items"
    and te: "tail = [] \<or> separator (hd tail)"
    and tf: "first_token tail = Inr (Tt, jt)"
    and tn: "tok_type Tt \<notin> {Plus, Minus, Mul, Div}"
    and new: "Parser_new (Lexer_new s0) = Inr ps"
    and ft: "first_token (chain_text items @ tail) = Inr (T, j)"
    and f0: "followed (chain_text items @ tail) T j ps p0"
  shows "\<exists>q. ParseMulDiv p0 = Inr (left_assoc t0 items, q) \<and>
           m_token q = Tt \<and> unread q = drop jt tail"
proof -
  let ?ext = "chain_text items @ tail"
  from ch have items: "chain_of ''*/'' ParseAtom items" by simp
  from first_token_chain [OF items _ te tf] have b: "?ext = [] \<or> separator (hd ?ext)"
    by auto
  from ch new obtain pe where run: "ParseAtom ps = Inr (t0, pe)"
    and eof: "tok_type (m_token pe) = EndOfFile"
    by (auto elim!: parses_toD)
  from parse_followed(1) [OF b ft run f0] obtain p1 where
    e1: "ParseAtom p0 = Inr (t0, p1)" and f1: "followed ?ext T j pe p1"
    by blast
  from followed_end [OF f1 eof] ft have ft1: "first_token ?ext = Inr (m_token p1, j)"
    and un1: "unread p1 = drop j ?ext"
    by simp_all
  from MulDiv_chain [OF items te tf tn ft1 un1] obtain q where
    "MulDiv_loop t0 p1 = Inr (left_assoc t0 items, q)"
    and q: "m_token q = Tt" "unread q = drop jt tail"
    by blast
  with e1 have "ParseMulDiv p0 = Inr (left_assoc t0 items, q)"
    by (subst ParseMulDiv.simps) simp
  with q show ?thesis by blast
qed

lemma ParseAddSub_chain:
  assumes ch: "parses_to ParseMulDiv s0 t0 \<and> chain_of ''+-'' ParseMulDiv items \<or>
               parses_to ParseAtom s0 t0 \<and> chain_of ''*/'' ParseAtom items"
    and te: "tail = [] \<or> separator (hd tail)"
    and tf: "first_token tail = Inr (Tt, jt)"
    and tn: "tok_type Tt \<notin> {Plus, Minus, Mul, Div}"
    and new: "Parser_new (Lexer_new s0) = Inr ps"
    and ft: "first_token (chain_text items @ tail) = Inr (T, j)"
    and f0: "followed (chain_text items @ tail) T j ps p0"
  shows "\<exists>q. ParseAddSub p0 = Inr (left_assoc t0 items, q) \<and>
           m_token q = Tt \<and> unread q = drop jt tail"
  using ch
proof
  let ?ext = "chain_text items @ tail"
  assume a: "parses_to ParseMulDiv s0 t0 \<and> chain_of ''+-'' ParseMulDiv items"
  then have items: "chain_of ''+-'' ParseMulDiv items" by simp
  from first_token_chain [OF items _ te tf] ft have b: "?ext = [] \<or> separator (hd ?ext)"
    and T: "items = [] \<and> T = Tt \<and> j = jt \<or>
      (\<exists>op s t rest. items = (op, s, t) # rest \<and> tok_type T = operator_token op \<and> j = 1)"
    by auto
  from T items tn have stop: "tok_type T \<notin> {Mul, Div}"
    by (auto simp: chain_of_Cons operator_token_def)
  from a new obtain pe where run: "ParseMulDiv ps = Inr (t0, pe)"
    and eof: "tok_type (m_token pe) = EndOfFile"
    by (auto elim!: parses_toD)
  from parse_followed(2) [OF b ft run f0] stop obtain p1 where
    e1: "ParseMulDiv p0 = Inr (t0, p1)" and f1: "followed ?ext T j pe p1"
    by blast
  from followed_end [OF f1 eof] ft have ft1: "first_token ?ext = Inr (m_token p1, j)"
    and un1: "unread p1 = drop j ?ext"
    by simp_all
  from AddSub_chain [OF items te tf tn ft1 un1] obtain q where
    "AddSub_loop t0 p1 = Inr (left_assoc t0 items, q)"
    and q: "m_token q = Tt" "unread q = drop jt tail"
    by blast
  with e1 have "ParseAddSub p0 = Inr (left_assoc t0 items, q)"
    by (subst ParseAddSub.simps) simp
  with q show ?thesis by blast
next
  assume a: "parses_to ParseAtom s0 t0 \<and> chain_of ''*/'' ParseAtom items"
  from ParseMulDiv_chain [OF a te tf tn new ft f0] obtain q where
    e1: "ParseMulDiv p0 = Inr (left_assoc t0 items, q)"
    and q: "m_token q = Tt" "unread q = drop jt tail"
    by blast
  from q(1) tn have "AddSub_loop (left_assoc t0 items) q = Inr (left_assoc t0 items, q)"
    by (subst AddSub_loop.simps) simp
  with e1 have "ParseAddSub p0 = Inr (left_assoc t0 items, q)"
    by (subst ParseAddSub.simps) simp
  with q show ?thesis by blast
qed

lemma chain_start:
  assumes ch: "parses_to ParseMulDiv s0 t0 \<and> chain_of ''+-'' ParseMulDiv items \<or>
               parses_to ParseAtom s0 t0 \<and> chain_of ''*/'' ParseAtom items"
    and te: "tail = [] \<or> separator (hd tail)"
    and tf: "first_token tail = Inr (Tt, jt)"
  obtains ps T j where "Parser_new (Lexer_new s0) = Inr ps"
    and "chain_text items @ tail = [] \<or> separator (hd (chain_text items @ tail))"
    and "first_token (chain_text items @ tail) = Inr (T, j)"
proof -
  from ch obtain ps where new: "Parser_new (Lexer_new s0) = Inr ps"
    by (auto elim!: parses_toD)
  from ch have "\<exists>ops parse. chain_of ops parse items \<and> set ops \<subseteq> set ''+-*/''"
    by auto
  then obtain ops parse where "chain_of ops parse items" "set ops \<subseteq> set ''+-*/''" by blast
  from first_token_chain [OF this te tf] new that show ?thesis by blast
qed

lemma parse_line_chain:
  assumes ch: "parses_to ParseMulDiv s0 t0 \<and> chain_of ''+-'' ParseMulDiv items \<or>
               parses_to ParseAtom s0 t0 \<and> chain_of ''*/'' ParseAtom items"
  shows "\<exists>q. parse_line (s0 @ chain_text items) = Inr (left_assoc t0 items, q) \<and>
           tok_type (m_token q) = EndOfFile"
proof -
  let ?eof = "\<lparr>tok_type = EndOfFile, tok_value = None\<rparr>"
  have te: "[] = [] \<or> separator (hd [])" by simp
  have tf: "first_token [] = Inr (?eof, 0)" by (rule first_token_Nil)
  have tn: "tok_type ?eof \<notin> {Plus, Minus, Mul, Div}" by simp
  from ch te tf obtain ps T j where new: "Parser_new (Lexer_new s0) = Inr ps"
    and b: "chain_text items @ [] = [] \<or> separator (hd (chain_text items @ []))"
    and ft: "first_token (chain_text items @ []) = Inr (T, j)"
    by (rule chain_start)
  have "drop (m_pos (Lexer_new (s0 @ chain_text items))) (m_text (Lexer_new (s0 @ chain_text items))) =
      s0 @ chain_text items @ []"
    by (simp add: Lexer_new_def)
  from operand_start [OF b ft new this] obtain t' lq1 where
    g: "GetNextToken (Lexer_new (s0 @ chain_text items)) = Inr (t', lq1)"
    and f0: "followed (chain_text items @ []) T j ps \<lparr>m_lexer = lq1, m_token = t'\<rparr>"
    by blast
  from ParseAddSub_chain [OF ch te tf tn new ft f0] obtain q where
    "ParseAddSub \<lparr>m_lexer = lq1, m_token = t'\<rparr> = Inr (left_assoc t0 items, q)"
    and "m_token q = ?eof"
    by blast
  with g show ?thesis by (auto simp: parse_line_def Parser_new_def)
qed

text \<open>A chain of \<^verbatim>\<open>*\<close> and \<^verbatim>\<open>/\<close> is an operand of chains of \<^verbatim>\<open>+\<close> and \<^verbatim>\<open>-\<close>.\<close>

lemma chain_is_term:
  assumes ch: "parses_to ParseAtom s0 t0 \<and> chain_of ''*/'' ParseAtom items"
  shows "parses_to ParseMulDiv (s0 @ chain_text items) (left_assoc t0 items)"
proof -
  let ?eof = "\<lparr>tok_type = EndOfFile, tok_value = None\<rparr>"
  have te: "[] = [] \<or> separator (hd [])" by simp
  have tf: "first_token [] = Inr (?eof, 0)" by (rule first_token_Nil)
  have tn: "tok_type ?eof \<notin> {Plus, Minus, Mul, Div}" by simp
  from ch have "parses_to ParseMulDiv s0 t0 \<and> chain_of ''+-'' ParseMulDiv items \<or>
      parses_to ParseAtom s0 t0 \<and> chain_of ''*/'' ParseAtom items" by simp
  from this te tf obtain ps T j where new: "Parser_new (Lexer_new s0) = Inr ps"
    and b: "chain_text items @ [] = [] \<or> separator (hd (chain_text items @ []))"
    and ft: "first_token (chain_text items @ []) = Inr (T, j)"
    by (rule chain_start)
  have "drop (m_pos (Lexer_new (s0 @ chain_text items))) (m_text (Lexer_new (s0 @ chain_text items))) =
      s0 @ chain_text items @ []"
    by (simp add: Lexer_new_def)
  from operand_start [OF b ft new this] obtain t' lq1 where
    g: "GetNextToken (Lexer_new (s0 @ chain_text items)) = Inr (t', lq1)"
    and f0: "followed (chain_text items @ []) T j ps \<lparr>m_lexer = lq1, m_token = t'\<rparr>"
    by blast
  from ParseMulDiv_chain [OF ch te tf tn new ft f0] obtain q where
    "ParseMulDiv \<lparr>m_lexer = lq1, m_token = t'\<rparr> = Inr (left_assoc t0 items, q)"
    and "m_token q = ?eof"
    by blast
  with g show ?thesis by (simp add: parses_to_def Parser_new_def)
qed

text \<open>A chain in parentheses is an operand of every chain.\<close>

lemma chain_in_parentheses:
  assumes ch: "parses_to ParseMulDiv s0 t0 \<and> chain_of ''+-'' ParseMulDiv items \<or>
               parses_to ParseAtom s0 t0 \<and> chain_of ''*/'' ParseAtom items"
  shows "parses_to ParseAtom (CHR ''('' # s0 @ chain_text items @ '')'') (left_assoc t0 items)"
proof -
  let ?line = "CHR ''('' # s0 @ chain_text items @ '')''"
  let ?rp = "\<lparr>tok_type = RightParen, tok_value = None\<rparr>"
  let ?eof = "\<lparr>tok_type = EndOfFile, tok_value = None\<rparr>"
  have te: "'')'' = [] \<or> separator (hd '')'')"
    by (simp add: separator_def isdigit_def ident_char_def isalnum_def isalpha_def)
  have nsp: "\<not> isspace (CHR '')'')" "\<not> isspace (CHR ''('')" by (simp_all add: isspace_def)
  from first_token_no_space [OF refl nsp(1), of "[]"]
  have tf: "first_token '')'' = Inr (?rp, 1)"
    by (simp add: isdigit_def isalpha_def)
  have tn: "tok_type ?rp \<notin> {Plus, Minus, Mul, Div}" by simp
  from ch te tf obtain ps T j where new: "Parser_new (Lexer_new s0) = Inr ps"
    and b: "chain_text items @ '')'' = [] \<or> separator (hd (chain_text items @ '')''))"
    and ft: "first_token (chain_text items @ '')'') = Inr (T, j)"
    by (rule chain_start)
  from first_token_no_space [OF refl nsp(2), of "s0 @ chain_text items @ '')''"]
  have "first_token ?line = Inr (\<lparr>tok_type = LeftParen, tok_value = None\<rparr>, 1)"
    by (simp add: isdigit_def isalpha_def)
  then have p0: "Parser_new (Lexer_new ?line) =
      Inr \<lparr>m_lexer = \<lparr>m_text = ?line, m_pos = 1\<rparr>,
           m_token = \<lparr>tok_type = LeftParen, tok_value = None\<rparr>\<rparr>"
    by (simp add: Parser_new_def Lexer_new_def GetNextToken_eq token_at_def)
  let ?p0 = "\<lparr>m_lexer = \<lparr>m_text = ?line, m_pos = 1\<rparr>,
      m_token = \<lparr>tok_type = LeftParen, tok_value = None\<rparr>\<rparr>"
  have un: "unread ?p0 = s0 @ chain_text items @ '')''" by (simp add: unread_def)
  have ty: "tok_type (m_token ?p0) = LeftParen" by simp
  from operand_after_token [OF b ft new un ty] obtain p1 where
    e1: "Eat LeftParen ?p0 = Inr p1" and f1: "followed (chain_text items @ '')'') T j ps p1"
    by blast
  from ParseAddSub_chain [OF ch te tf tn new ft f1] obtain q where
    e2: "ParseAddSub p1 = Inr (left_assoc t0 items, q)"
    and q: "m_token q = ?rp" "unread q = drop 1 '')''"
    by blast
  from q(2) have "first_token (drop (m_pos (m_lexer q)) (m_text (m_lexer q))) = Inr (?eof, 0)"
    by (simp add: unread_def first_token_Nil)
  then have "GetNextToken (m_lexer q) = Inr (?eof, m_lexer q)"
    by (simp add: GetNextToken_eq token_at_def)
  with q(1) have e3: "Eat RightParen q = Inr \<lparr>m_lexer = m_lexer q, m_token = ?eof\<rparr>"
    by (simp add: Eat_def)
  from e1 e2 e3 have "ParseAtom ?p0 =
      Inr (left_assoc t0 items, \<lparr>m_lexer = m_lexer q, m_token = ?eof\<rparr>)"
    by (subst ParseAtom.simps) simp
  with p0 show ?thesis by (simp add: parses_to_def)
qed

section \<open>The instructions of a chain\<close>

lemma known_switch:
  assumes "known_operator op"
  shows "(if op = CHR ''+'' then binary_instruction ''%addtmp'' '' = add '' l r g
          else if op = CHR ''-'' then binary_instruction ''%subtmp'' '' = sub '' l r g
          else if op = CHR ''*'' then binary_instruction ''%multmp'' '' = mul '' l r g
          else if op = CHR ''/'' then binary_instruction ''%divtmp'' '' = div '' l r g
          else Inr g) =
         binary_instruction (operator_prefix op) (operator_mnemonic op) l r g"
  using assms by (auto simp: known_operator_def operator_prefix_def operator_mnemonic_def)

lemma Visit_known:
  assumes "known_operator op"
  shows "Visit (BinaryExpressionAST left right op) g =
     (case Visit left g of
        Inl e \<Rightarrow> Inl e
      | Inr g1 \<Rightarrow>
          (case Visit right g1 of
             Inl e \<Rightarrow> Inl e
           | Inr g2 \<Rightarrow>
               (case pop_register g2 of
                  Inl e \<Rightarrow> Inl e
                | Inr (r, g3) \<Rightarrow>
                    (case pop_register g3 of
                       Inl e \<Rightarrow> Inl e
                     | Inr (l, g4) \<Rightarrow>
                         binary_instruction (operator_prefix op) (operator_mnemonic op) l r g4))))"
  unfolding Visit.simps known_switch [OF assms] ..

lemma Visit_pushes:
  assumes "Visit t g = Inr g'" and "known_operators t"
  shows "\<exists>r. m_registers g' = m_registers g @ [r]"
  using Visit_lines [OF assms(1)] assms(2) by (auto simp: known_operators_def)

lemma butlast_two: "butlast (regs @ [l, r]) = regs @ [l]"
  by (simp add: butlast_append)

text \<open>
  The instruction of a binary node whose operands have been visited: the generator \<open>g1\<close>
  has the registers of the two operands on top of its stack, \<open>left\<close> below the top.
\<close>

definition instruction :: "char \<Rightarrow> string \<Rightarrow> SimpleCodeGenerator \<Rightarrow> error + SimpleCodeGenerator" where
  "instruction op left g1 =
     (if m_registerId g1 = INT_MAX then Inl undefined_behaviour
      else Inr (g1\<lparr>m_code := m_code g1 @ operator_prefix op @ to_string_int (m_registerId g1) @
                     operator_mnemonic op @ left @ '' '' @ last (m_registers g1) @ ''\<newline>'',
                   m_registers := butlast (butlast (m_registers g1)) @
                     [operator_prefix op @ to_string_int (m_registerId g1)],
                   m_registerId := m_registerId g1 + 1\<rparr>))"

text \<open>
  What the generator does for a chain after its first operand, when the register of all
  that stands before is \<open>left\<close>: for each operator in turn it writes the lines of the right
  operand and then one instruction, whose left operand is \<open>left\<close> and whose right operand
  is the register of the operand just written; the destination of that instruction is
  the left operand of the next one.
\<close>

fun chain_instructions ::
  "string \<Rightarrow> (char \<times> string \<times> ExpressionAST) list \<Rightarrow> SimpleCodeGenerator \<Rightarrow> error + SimpleCodeGenerator" where
  "chain_instructions left [] g = Inr g"
| "chain_instructions left ((op, s, t) # rest) g =
     (case Visit t g of
        Inl e \<Rightarrow> Inl e
      | Inr g1 \<Rightarrow>
          (case instruction op left g1 of
             Inl e \<Rightarrow> Inl e
           | Inr g2 \<Rightarrow>
               chain_instructions (operator_prefix op @ to_string_int (m_registerId g1)) rest g2))"

lemma Visit_operator:
  assumes op: "known_operator op" and l: "known_operators left" and r: "known_operators right"
  shows "Visit (BinaryExpressionAST left right op) g =
     (case Visit left g of
        Inl e \<Rightarrow> Inl e
      | Inr g0 \<Rightarrow>
          (case Visit right g0 of
             Inl e \<Rightarrow> Inl e
           | Inr g1 \<Rightarrow> instruction op (last (m_registers g0)) g1))"
proof (cases "Visit left g")
  case (Inl e)
  then show ?thesis by (simp add: Visit_known [OF op])
next
  case g0: (Inr g0)
  from Visit_pushes [OF g0 l] obtain a where a: "m_registers g0 = m_registers g @ [a]" ..
  show ?thesis
  proof (cases "Visit right g0")
    case (Inl e)
    with g0 show ?thesis by (simp add: Visit_known [OF op])
  next
    case g1: (Inr g1)
    from Visit_pushes [OF g1 r] a obtain b where b: "m_registers g1 = m_registers g @ [a, b]"
      by auto
    from g0 g1 a b show ?thesis
      by (simp add: Visit_known [OF op] pop_register_def binary_instruction_def push_emit
          instruction_def butlast_two butlast_append)
  qed
qed

lemma instruction_top:
  assumes "instruction op left g1 = Inr g2"
  shows "last (m_registers g2) = operator_prefix op @ to_string_int (m_registerId g1)"
  using assms by (auto simp: instruction_def split: if_splits)

lemma Visit_left_assoc:
  assumes "known_operators t0"
    and "\<forall>(op, s, t)\<in>set items. known_operator op \<and> known_operators t"
  shows "Visit (left_assoc t0 items) g =
     (case Visit t0 g of
        Inl e \<Rightarrow> Inl e
      | Inr g0 \<Rightarrow> chain_instructions (last (m_registers g0)) items g0)"
  using assms
proof (induction items arbitrary: t0)
  case Nil
  show ?case by (cases "Visit t0 g") (simp_all add: left_assoc_Nil)
next
  case (Cons item rest)
  obtain op s t where item: "item = (op, s, t)" by (cases item)
  from Cons.prems(2) item have op: "known_operator op" and t: "known_operators t"
    and rest: "\<forall>(op, s, t)\<in>set rest. known_operator op \<and> known_operators t"
    by simp_all
  from Cons.prems(1) op t have "known_operators (BinaryExpressionAST t0 t op)"
    by (simp add: known_operators_Binary)
  note IH = Cons.IH [OF this rest]
  note step = Visit_operator [OF op Cons.prems(1) t, of g]
  show ?case
  proof (cases "Visit t0 g")
    case (Inl e)
    with IH step item show ?thesis by (simp add: left_assoc_Cons)
  next
    case g0: (Inr g0)
    show ?thesis
    proof (cases "Visit t g0")
      case (Inl e)
      with g0 IH step item show ?thesis by (simp add: left_assoc_Cons)
    next
      case g1: (Inr g1)
      show ?thesis
      proof (cases "instruction op (last (m_registers g0)) g1")
        case (Inl e)
        with g0 g1 IH step item show ?thesis by (simp add: left_assoc_Cons)
      next
        case (Inr g2)
        from instruction_top [OF Inr] Inr g0 g1 IH step item show ?thesis
          by (simp add: left_assoc_Cons)
      qed
    qed
  qed
qed

lemma parses_to_known:
  assumes "parses_to ParseMulDiv s t \<or> parses_to ParseAtom s t"
  shows "known_operators t"
proof -
  from assms obtain p q where new: "Parser_new (Lexer_new s) = Inr p"
    and run: "ParseMulDiv p = Inr (t, q) \<or> ParseAtom p = Inr (t, q)"
    by (auto elim!: parses_toD)
  from Parser_new_result [of s _ p] new have "parser_ok s p" by simp
  from parse_result(1) [OF this] parse_result(2) [OF this] run show ?thesis by auto
qed

lemma chain_of_known:
  assumes "chain_of ''+-'' ParseMulDiv items \<or> chain_of ''*/'' ParseAtom items"
  shows "\<forall>(op, s, t)\<in>set items. known_operator op \<and> known_operators t"
proof -
  {
    fix op s t
    assume "(op, s, t) \<in> set items"
    with assms have "(op \<in> set ''+-'' \<and> parses_to ParseMulDiv s t) \<or>
        (op \<in> set ''*/'' \<and> parses_to ParseAtom s t)"
      by (auto simp: chain_of_def)
    then have "known_operator op \<and> known_operators t"
      using parses_to_known [of s t] by (auto simp: known_operator_def)
  }
  then show ?thesis by auto
qed

lemma left_assoc_known:
  assumes "known_operators t0"
    and "\<forall>(op, s, t)\<in>set items. known_operator op \<and> known_operators t"
  shows "known_operators (left_assoc t0 items)"
  using assms
proof (induction items arbitrary: t0)
  case Nil
  then show ?case by (simp add: left_assoc_Nil)
next
  case (Cons item rest)
  obtain op s t where item: "item = (op, s, t)" by (cases item)
  from Cons.prems item have "known_operators (BinaryExpressionAST t0 t op)"
    and "\<forall>(op, s, t)\<in>set rest. known_operator op \<and> known_operators t"
    by (simp_all add: known_operators_Binary)
  from Cons.IH [OF this] item show ?case by (simp add: left_assoc_Cons)
qed

lemma Generate_left_assoc:
  assumes k0: "known_operators t0"
    and ki: "\<forall>(op, s, t)\<in>set items. known_operator op \<and> known_operators t"
  shows "(case Generate (left_assoc t0 items) SimpleCodeGenerator_new of
            Inl e \<Rightarrow> Inl e
          | Inr (code, g) \<Rightarrow> Inr code) =
         (case Visit t0 SimpleCodeGenerator_new of
            Inl e \<Rightarrow> Inl e
          | Inr g0 \<Rightarrow>
              (case chain_instructions (last (m_registers g0)) items g0 of
                 Inl e \<Rightarrow> Inl e
               | Inr g1 \<Rightarrow> Inr (m_code g1 @ ''%result = '' @ last (m_registers g1))))"
proof (cases "Visit (left_assoc t0 items) SimpleCodeGenerator_new")
  case (Inl e)
  with Visit_left_assoc [OF k0 ki, of SimpleCodeGenerator_new] show ?thesis
    by (auto simp: Generate_def split: sum.splits)
next
  case (Inr g1)
  from Visit_pushes [OF Inr left_assoc_known [OF k0 ki]] have ne: "m_registers g1 \<noteq> []"
    by auto
  from Visit_left_assoc [OF k0 ki, of SimpleCodeGenerator_new] Inr ne show ?thesis
    by (auto simp: Generate_def Let_def split: sum.splits)
qed

text \<open>
  Claim C5. A chain of operators of one precedence associates to the left, and the
  instructions are written in that order. The line is a first operand followed by any
  number of operators, each followed by its right operand: the operators are \<^verbatim>\<open>+\<close> and
  \<^verbatim>\<open>-\<close> and every operand is a text that \<^verbatim>\<open>ParseMulDiv\<close> alone reads to its end (a product,
  a quotient, a number, a name, an expression in parentheses), or the operators are \<^verbatim>\<open>*\<close>
  and \<^verbatim>\<open>/\<close> and every operand is a text that \<^verbatim>\<open>ParseAtom\<close> alone reads to its end. Then
  \<^verbatim>\<open>ParseAddSub\<close> reads the line to its end and returns the tree \<open>left_assoc\<close>, in which every
  operator has all that stands before it as its left operand. The chain in parentheses is
  read by \<^verbatim>\<open>ParseAtom\<close> to its end, with the same tree, and a chain of \<^verbatim>\<open>*\<close> and \<^verbatim>\<open>/\<close> is
  read by \<^verbatim>\<open>ParseMulDiv\<close> to its end, with the same tree: so a chain is an operand of
  other chains, and the chains inside an expression associate to the left at every depth.
  The text generated for the line is the lines of the first operand, then for each
  operator in turn the lines of its right operand followed by the instruction that
  combines the register of all that stands before the operator with the register of that
  operand (\<open>chain_instructions\<close>), and then the \<^verbatim>\<open>%result\<close> line; and this is what \<^verbatim>\<open>Visit\<close>
  does on the tree from any state of the generator. So in \<^verbatim>\<open>a - b - c\<close> the instruction
  on \<^verbatim>\<open>a\<close> and \<^verbatim>\<open>b\<close> is written first, and the second instruction subtracts the register of
  \<^verbatim>\<open>c\<close> from its destination; no instruction has the registers of \<^verbatim>\<open>b\<close> and \<^verbatim>\<open>c\<close> as its
  operands.
\<close>

theorem C5_chains_associate_left:
  assumes "parses_to ParseMulDiv s0 t0 \<and> chain_of ''+-'' ParseMulDiv items \<or>
           parses_to ParseAtom s0 t0 \<and> chain_of ''*/'' ParseAtom items"
  shows "(\<exists>q. parse_line (s0 @ chain_text items) = Inr (left_assoc t0 items, q) \<and>
              tok_type (m_token q) = EndOfFile) \<and>
         parses_to ParseAtom (CHR ''('' # s0 @ chain_text items @ '')'') (left_assoc t0 items) \<and>
         (parses_to ParseAtom s0 t0 \<and> chain_of ''*/'' ParseAtom items \<longrightarrow>
            parses_to ParseMulDiv (s0 @ chain_text items) (left_assoc t0 items)) \<and>
         translate_line (s0 @ chain_text items) =
           (case Visit t0 SimpleCodeGenerator_new of
              Inl e \<Rightarrow> Inl e
            | Inr g0 \<Rightarrow>
                (case chain_instructions (last (m_registers g0)) items g0 of
                   Inl e \<Rightarrow> Inl e
                 | Inr g1 \<Rightarrow> Inr (m_code g1 @ ''%result = '' @ last (m_registers g1)))) \<and>
         Visit (left_assoc t0 items) g =
           (case Visit t0 g of
              Inl e \<Rightarrow> Inl e
            | Inr g0 \<Rightarrow> chain_instructions (last (m_registers g0)) items g0)"
proof -
  from parse_line_chain [OF assms] obtain q where
    p: "parse_line (s0 @ chain_text items) = Inr (left_assoc t0 items, q)"
    and q: "tok_type (m_token q) = EndOfFile"
    by blast
  from assms have "parses_to ParseMulDiv s0 t0 \<or> parses_to ParseAtom s0 t0" by blast
  then have k0: "known_operators t0" by (rule parses_to_known)
  from assms have "chain_of ''+-'' ParseMulDiv items \<or> chain_of ''*/'' ParseAtom items" by blast
  then have ki: "\<forall>(op, s, t)\<in>set items. known_operator op \<and> known_operators t"
    by (rule chain_of_known)
  from p have "translate_line (s0 @ chain_text items) =
      (case Generate (left_assoc t0 items) SimpleCodeGenerator_new of
         Inl e \<Rightarrow> Inl e
       | Inr (code, g1) \<Rightarrow> Inr code)"
    by (simp add: translate_line_def)
  then have t: "translate_line (s0 @ chain_text items) =
      (case Visit t0 SimpleCodeGenerator_new of
         Inl e \<Rightarrow> Inl e
       | Inr g0 \<Rightarrow>
           (case chain_instructions (last (m_registers g0)) items g0 of
              Inl e \<Rightarrow> Inl e
            | Inr g1 \<Rightarrow> Inr (m_code g1 @ ''%result = '' @ last (m_registers g1))))"
    by (simp only: Generate_left_assoc [OF k0 ki])
  from Visit_left_assoc [OF k0 ki] have v: "Visit (left_assoc t0 items) g =
      (case Visit t0 g of
         Inl e \<Rightarrow> Inl e
       | Inr g0 \<Rightarrow> chain_instructions (last (m_registers g0)) items g0)" .
  from p q have 1: "\<exists>q. parse_line (s0 @ chain_text items) = Inr (left_assoc t0 items, q) \<and>
      tok_type (m_token q) = EndOfFile"
    by blast
  have 2: "parses_to ParseAtom (CHR ''('' # s0 @ chain_text items @ '')'') (left_assoc t0 items)"
    using assms by (rule chain_in_parentheses)
  have 3: "parses_to ParseAtom s0 t0 \<and> chain_of ''*/'' ParseAtom items \<longrightarrow>
      parses_to ParseMulDiv (s0 @ chain_text items) (left_assoc t0 items)"
    by (rule impI) (rule chain_is_term)
  from 1 2 3 t v show ?thesis by (intro conjI)
qed

theorem C5_chains_associate_left_witness:
  "(\<exists>q. parse_line ''a - b - c'' =
      Inr (BinaryExpressionAST
             (BinaryExpressionAST (VariableRefAST ''a'') (VariableRefAST ''b'') (CHR ''-''))
             (VariableRefAST ''c'') (CHR ''-''), q) \<and>
      tok_type (m_token q) = EndOfFile) \<and>
   parses_to ParseAtom ''(a - b - c)''
     (BinaryExpressionAST
        (BinaryExpressionAST (VariableRefAST ''a'') (VariableRefAST ''b'') (CHR ''-''))
        (VariableRefAST ''c'') (CHR ''-'')) \<and>
   translate_line ''a - b - c'' =
     Inr ''%x1 = %a\<newline>%x2 = %b\<newline>%subtmp3 = sub %x1 %x2\<newline>%x4 = %c\<newline>%subtmp5 = sub %subtmp3 %x4\<newline>%result = %subtmp5'' \<and>
   Visit (BinaryExpressionAST
            (BinaryExpressionAST (VariableRefAST ''a'') (VariableRefAST ''b'') (CHR ''-''))
            (VariableRefAST ''c'') (CHR ''-'')) SimpleCodeGenerator_new =
     Inr \<lparr>m_code = ''%x1 = %a\<newline>%x2 = %b\<newline>%subtmp3 = sub %x1 %x2\<newline>%x4 = %c\<newline>%subtmp5 = sub %subtmp3 %x4\<newline>'',
          m_registers = [''%subtmp5''], m_registerId = 6\<rparr> \<and>
   (\<exists>q. parse_line ''a - b * c - d'' =
      Inr (BinaryExpressionAST
             (BinaryExpressionAST (VariableRefAST ''a'')
                (BinaryExpressionAST (VariableRefAST ''b'') (VariableRefAST ''c'') (CHR ''*''))
                (CHR ''-''))
             (VariableRefAST ''d'') (CHR ''-''), q) \<and>
      tok_type (m_token q) = EndOfFile) \<and>
   translate_line ''a - b * c - d'' =
     Inr ''%x1 = %a\<newline>%x2 = %b\<newline>%x3 = %c\<newline>%multmp4 = mul %x2 %x3\<newline>%subtmp5 = sub %x1 %multmp4\<newline>%x6 = %d\<newline>%subtmp7 = sub %subtmp5 %x6\<newline>%result = %subtmp7'' \<and>
   (\<exists>q. parse_line ''a / (b + c) / 2.5'' =
      Inr (BinaryExpressionAST
             (BinaryExpressionAST (VariableRefAST ''a'')
                (BinaryExpressionAST (VariableRefAST ''b'') (VariableRefAST ''c'') (CHR ''+''))
                (CHR ''/''))
             (NumberAST 2) (CHR ''/''), q) \<and>
      tok_type (m_token q) = EndOfFile) \<and>
   parses_to ParseMulDiv ''a / (b + c) / 2.5''
     (BinaryExpressionAST
        (BinaryExpressionAST (VariableRefAST ''a'')
           (BinaryExpressionAST (VariableRefAST ''b'') (VariableRefAST ''c'') (CHR ''+''))
           (CHR ''/''))
        (NumberAST 2) (CHR ''/'')) \<and>
   translate_line ''a / (b + c) / 2.5'' =
     Inr ''%x1 = %a\<newline>%x2 = %b\<newline>%x3 = %c\<newline>%addtmp4 = add %x2 %x3\<newline>%divtmp5 = div %x1 %addtmp4\<newline>%x6 = 2.000000\<newline>%divtmp7 = div %divtmp5 %x6\<newline>%result = %divtmp7''"
proof -
  let ?a = "VariableRefAST ''a''"
  let ?i1 = "[(CHR ''-'', '' b '', VariableRefAST ''b''), (CHR ''-'', '' c'', VariableRefAST ''c'')]"
  let ?i2 = "[(CHR ''-'', '' b * c '',
                BinaryExpressionAST (VariableRefAST ''b'') (VariableRefAST ''c'') (CHR ''*'')),
              (CHR ''-'', '' d'', VariableRefAST ''d'')]"
  let ?i3 = "[(CHR ''/'', '' (b + c) '',
                BinaryExpressionAST (VariableRefAST ''b'') (VariableRefAST ''c'') (CHR ''+'')),
              (CHR ''/'', '' 2.5'', NumberAST 2)]"
  let ?t1 = "BinaryExpressionAST
      (BinaryExpressionAST (VariableRefAST ''a'') (VariableRefAST ''b'') (CHR ''-''))
      (VariableRefAST ''c'') (CHR ''-'')"
  let ?t2 = "BinaryExpressionAST
      (BinaryExpressionAST (VariableRefAST ''a'')
         (BinaryExpressionAST (VariableRefAST ''b'') (VariableRefAST ''c'') (CHR ''*''))
         (CHR ''-''))
      (VariableRefAST ''d'') (CHR ''-'')"
  let ?t3 = "BinaryExpressionAST
      (BinaryExpressionAST (VariableRefAST ''a'')
         (BinaryExpressionAST (VariableRefAST ''b'') (VariableRefAST ''c'') (CHR ''+''))
         (CHR ''/''))
      (NumberAST 2) (CHR ''/'')"
  have "parses_to ParseMulDiv ''a '' ?a \<and> chain_of ''+-'' ParseMulDiv ?i1" by code_simp
  then have h1: "parses_to ParseMulDiv ''a '' ?a \<and> chain_of ''+-'' ParseMulDiv ?i1 \<or>
      parses_to ParseAtom ''a '' ?a \<and> chain_of ''*/'' ParseAtom ?i1"
    by (rule disjI1)
  have "parses_to ParseMulDiv ''a '' ?a \<and> chain_of ''+-'' ParseMulDiv ?i2" by code_simp
  then have h2: "parses_to ParseMulDiv ''a '' ?a \<and> chain_of ''+-'' ParseMulDiv ?i2 \<or>
      parses_to ParseAtom ''a '' ?a \<and> chain_of ''*/'' ParseAtom ?i2"
    by (rule disjI1)
  have a3: "parses_to ParseAtom ''a '' ?a \<and> chain_of ''*/'' ParseAtom ?i3" by code_simp
  then have h3: "parses_to ParseMulDiv ''a '' ?a \<and> chain_of ''+-'' ParseMulDiv ?i3 \<or>
      parses_to ParseAtom ''a '' ?a \<and> chain_of ''*/'' ParseAtom ?i3"
    by (rule disjI2)
  have paren: "CHR ''('' # ''a '' @ chain_text ?i1 @ '')'' = ''(a - b - c)''"
    by code_simp
  have line: "''a '' @ chain_text ?i1 = ''a - b - c''"
    "''a '' @ chain_text ?i2 = ''a - b * c - d''"
    "''a '' @ chain_text ?i3 = ''a / (b + c) / 2.5''"
    by code_simp+
  have tree: "left_assoc ?a ?i1 = ?t1" "left_assoc ?a ?i2 = ?t2" "left_assoc ?a ?i3 = ?t3"
    by code_simp+
  have gen: "(case Visit ?a SimpleCodeGenerator_new of
         Inl e \<Rightarrow> Inl e
       | Inr g0 \<Rightarrow>
           (case chain_instructions (last (m_registers g0)) ?i1 g0 of
              Inl e \<Rightarrow> Inl e
            | Inr g1 \<Rightarrow> Inr (m_code g1 @ ''%result = '' @ last (m_registers g1)))) =
      Inr ''%x1 = %a\<newline>%x2 = %b\<newline>%subtmp3 = sub %x1 %x2\<newline>%x4 = %c\<newline>%subtmp5 = sub %subtmp3 %x4\<newline>%result = %subtmp5''"
    "(case Visit ?a SimpleCodeGenerator_new of
         Inl e \<Rightarrow> Inl e
       | Inr g0 \<Rightarrow>
           (case chain_instructions (last (m_registers g0)) ?i2 g0 of
              Inl e \<Rightarrow> Inl e
            | Inr g1 \<Rightarrow> Inr (m_code g1 @ ''%result = '' @ last (m_registers g1)))) =
      Inr ''%x1 = %a\<newline>%x2 = %b\<newline>%x3 = %c\<newline>%multmp4 = mul %x2 %x3\<newline>%subtmp5 = sub %x1 %multmp4\<newline>%x6 = %d\<newline>%subtmp7 = sub %subtmp5 %x6\<newline>%result = %subtmp7''"
    "(case Visit ?a SimpleCodeGenerator_new of
         Inl e \<Rightarrow> Inl e
       | Inr g0 \<Rightarrow>
           (case chain_instructions (last (m_registers g0)) ?i3 g0 of
              Inl e \<Rightarrow> Inl e
            | Inr g1 \<Rightarrow> Inr (m_code g1 @ ''%result = '' @ last (m_registers g1)))) =
      Inr ''%x1 = %a\<newline>%x2 = %b\<newline>%x3 = %c\<newline>%addtmp4 = add %x2 %x3\<newline>%divtmp5 = div %x1 %addtmp4\<newline>%x6 = 2.000000\<newline>%divtmp7 = div %divtmp5 %x6\<newline>%result = %divtmp7''"
    by code_simp+
  have vis: "(case Visit ?a SimpleCodeGenerator_new of
         Inl e \<Rightarrow> Inl e
       | Inr g0 \<Rightarrow> chain_instructions (last (m_registers g0)) ?i1 g0) =
      Inr \<lparr>m_code = ''%x1 = %a\<newline>%x2 = %b\<newline>%subtmp3 = sub %x1 %x2\<newline>%x4 = %c\<newline>%subtmp5 = sub %subtmp3 %x4\<newline>'',
           m_registers = [''%subtmp5''], m_registerId = 6\<rparr>"
    by code_simp
  note c1 = C5_chains_associate_left [where g = SimpleCodeGenerator_new, OF h1]
  note c2 = C5_chains_associate_left [where g = SimpleCodeGenerator_new, OF h2]
  note c3 = C5_chains_associate_left [where g = SimpleCodeGenerator_new, OF h3]
  note parse1 = conjunct1 [OF c1, unfolded line tree]
  note paren1 = conjunct1 [OF conjunct2 [OF c1], unfolded paren tree]
  note text1 = conjunct1 [OF conjunct2 [OF conjunct2 [OF conjunct2 [OF c1]]], unfolded line gen]
  note visit1 = conjunct2 [OF conjunct2 [OF conjunct2 [OF conjunct2 [OF c1]]], unfolded tree vis]
  note parse2 = conjunct1 [OF c2, unfolded line tree]
  note text2 = conjunct1 [OF conjunct2 [OF conjunct2 [OF conjunct2 [OF c2]]], unfolded line gen]
  note parse3 = conjunct1 [OF c3, unfolded line tree]
  note term3 = mp [OF conjunct1 [OF conjunct2 [OF conjunct2 [OF c3]]] a3, unfolded line tree]
  note text3 = conjunct1 [OF conjunct2 [OF conjunct2 [OF conjunct2 [OF c3]]], unfolded line gen]
  show ?thesis
    by (rule conjI [OF parse1 conjI [OF paren1 conjI [OF text1 conjI [OF visit1
          conjI [OF parse2 conjI [OF text2 conjI [OF parse3 conjI [OF term3 text3]]]]]]]])
qed

end
